(* ===== verification/Prelude.thy ===== *)
theory Prelude
  imports Main "HOL-Library.Word"
begin

text \<open>
  What the theories of the development share: the machine integers of a 64-bit target, thread
  identifiers, the outcome of a call (a value or a panic), the interface of the third-party
  mutex \<open>parking_lot::Mutex\<close> (a parameter of the model: its code is not under \<open>src/\<close>), and
  generic lemmas on lists, association lists and words.
\<close>

section \<open>Types\<close>

type_synonym u64 = "64 word"
type_synonym u32 = "32 word"

text \<open>\<open>usize\<close> on a 64-bit target.\<close>

type_synonym usize = "64 word"

text \<open>A thread of the program; threads are never reused.\<close>

type_synonym tid = nat

text \<open>A Rust call returns a value or unwinds with a panic.\<close>

datatype 'r outcome = Returned 'r | Panicked

text \<open>
  Hints for the step relations: the definitions that a proof about a single atomic action
  unfolds are collected in \<open>action_defs\<close>, those of the invariants in \<open>inv_defs\<close>.
\<close>

named_theorems action_defs
named_theorems inv_defs

section \<open>The mutex interface\<close>

text \<open>
  The operations of \<open>parking_lot::Mutex\<close> that \<open>src/src/sync\<close> calls, and \<open>mx_owner\<close>, the
  view of its state in which its documentation speaks (which thread holds it, if any).
  \<open>mx_lock t l\<close> is one attempt of thread \<open>t\<close>: \<open>None\<close> means that the thread has to wait.
\<close>

record 'l mutex_ops =
  mx_new :: 'l
  mx_lock :: "tid \<Rightarrow> 'l \<Rightarrow> 'l option"
  mx_unlock :: "'l \<Rightarrow> 'l"
  mx_owner :: "'l \<Rightarrow> tid option"

text \<open>
  The documented behaviour: a new mutex is free, a free mutex is given to the thread that asks,
  a held one makes every thread wait (the holder as well: the mutex is not reentrant), and
  dropping the \<open>MutexGuard\<close> frees it.
\<close>

definition mutex_laws :: "'l mutex_ops \<Rightarrow> bool" where
  "mutex_laws M \<longleftrightarrow>
     mx_owner M (mx_new M) = None \<and>
     (\<forall>t l. mx_owner M l = None \<longrightarrow>
        (\<exists>l'. mx_lock M t l = Some l' \<and> mx_owner M l' = Some t)) \<and>
     (\<forall>t l. mx_owner M l \<noteq> None \<longrightarrow> mx_lock M t l = None) \<and>
     (\<forall>l. mx_owner M (mx_unlock M l) = None)"

lemma mutex_new: "mutex_laws M \<Longrightarrow> mx_owner M (mx_new M) = None"
  by (simp add: mutex_laws_def)

lemma mutex_unlock: "mutex_laws M \<Longrightarrow> mx_owner M (mx_unlock M l) = None"
  by (simp add: mutex_laws_def)

lemma mutex_lock_SomeD:
  assumes "mutex_laws M" and "mx_lock M t l = Some l'"
  shows "mx_owner M l = None" and "mx_owner M l' = Some t"
proof -
  show free: "mx_owner M l = None"
    using assms by (metis mutex_laws_def option.distinct(1))
  then show "mx_owner M l' = Some t"
    using assms by (metis mutex_laws_def option.inject)
qed

lemma mutex_lock_free:
  "mutex_laws M \<Longrightarrow> mx_owner M l = None \<Longrightarrow>
   \<exists>l'. mx_lock M t l = Some l' \<and> mx_owner M l' = Some t"
  by (simp add: mutex_laws_def)

lemma mutex_lock_held: "mutex_laws M \<Longrightarrow> mx_owner M l = Some u \<Longrightarrow> mx_lock M t l = None"
  by (simp add: mutex_laws_def)

text \<open>
  \<open>held_by M l P\<close>: the threads that believe to hold the mutex \<open>l\<close> are those that do.  The
  protocol invariants use it with \<open>P\<close> a set of program locations.
\<close>

definition held_by :: "'l mutex_ops \<Rightarrow> 'l \<Rightarrow> (tid \<Rightarrow> bool) \<Rightarrow> bool" where
  "held_by M l P \<longleftrightarrow> (\<forall>u. mx_owner M l = Some u \<longleftrightarrow> P u)"

lemma held_by_new: "mutex_laws M \<Longrightarrow> (\<And>u. \<not> P u) \<Longrightarrow> held_by M (mx_new M) P"
  by (simp add: held_by_def mutex_new)

lemma held_by_cong: "held_by M l P \<Longrightarrow> (\<And>u. P' u = P u) \<Longrightarrow> held_by M l P'"
  by (simp add: held_by_def)

lemma held_by_unique: "held_by M l P \<Longrightarrow> P t \<Longrightarrow> P u \<Longrightarrow> t = u"
  unfolding held_by_def by (metis option.inject)

lemma held_by_lock_none:
  assumes "mutex_laws M" "held_by M l P" "mx_lock M t l = Some l'"
  shows "\<not> P u"
  using assms(2) mutex_lock_SomeD(1) [OF assms(1,3)] by (auto simp: held_by_def)

lemma held_by_lock:
  assumes "mutex_laws M" "mx_lock M t l = Some l'" "\<And>u. P' u \<longleftrightarrow> u = t"
  shows "held_by M l' P'"
  using assms(3) mutex_lock_SomeD(2) [OF assms(1,2)] by (auto simp: held_by_def)

lemma held_by_unlock:
  assumes "mutex_laws M" "held_by M l P" "P t" "\<not> P' t" "\<And>u. u \<noteq> t \<Longrightarrow> P' u = P u"
  shows "held_by M (mx_unlock M l) P'"
  unfolding held_by_def mutex_unlock [OF assms(1)] using assms(3-5) held_by_unique [OF assms(2)]
  by (metis option.distinct(1))

text \<open>A concrete mutex that has the documented behaviour: its state is its holder.\<close>

definition owner_mutex :: "tid option mutex_ops" where
  "owner_mutex = \<lparr>mx_new = None,
     mx_lock = (\<lambda>t l. case l of None \<Rightarrow> Some (Some t) | Some _ \<Rightarrow> None),
     mx_unlock = (\<lambda>_. None), mx_owner = (\<lambda>l. l)\<rparr>"

lemma owner_mutex_laws: "mutex_laws owner_mutex"
  by (auto simp: mutex_laws_def owner_mutex_def)

lemma owner_mutex_simps [simp]:
  "mx_new owner_mutex = None"
  "mx_lock owner_mutex t None = Some (Some t)"
  "mx_lock owner_mutex t (Some u) = None"
  "mx_unlock owner_mutex l = None"
  "mx_owner owner_mutex l = l"
  by (simp_all add: owner_mutex_def)

section \<open>Generic lemmas\<close>

lemma of_nat_usize_eq_0: "n < 2 ^ 64 \<Longrightarrow> (of_nat n :: usize) = 0 \<longleftrightarrow> n = 0"
  by (auto simp: word_of_nat_eq_0_iff dest: dvd_imp_le)

end
