(* ===== verification/Rw_Lock.thy ===== *)
theory Rw_Lock
  imports Prelude
begin

text \<open>
  The synchronisation that \<open>SyncVec\<close>, \<open>SyncHashMap\<close>, \<open>SyncBtreeMap\<close> and \<open>SyncIndexMap\<close>
  share (each of the four files under \<open>src/src/sync\<close> has its own copy of \<open>begin_read\<close> and
  \<open>begin_write\<close>, with the same text; the guards are in \<open>src/src/sync/mod.rs\<close>): the container's
  fields, the state of the threads that use it, and every atomic action of a call.  A thread's
  program counter names the next atomic action of the method it runs.  All atomics that take
  part in the exclusion are \<open>SeqCst\<close>, so actions interleave.
\<close>

section \<open>State\<close>

text \<open>
  The fields of \<open>struct SyncVec\<close> / \<open>SyncHashMap\<close> / \<open>SyncBtreeMap\<close> / \<open>SyncIndexMap\<close>.  A
  counter of the registry is a \<open>Box\<close> that never moves and is never removed, so its position in
  the vector is its identity.  \<open>write_mutex\<close> is the field \<open>write\<close>, \<open>ident\<close> the field
  \<open>id\<close>; \<open>registry: Mutex<Vec<..>>\<close> is the pair of \<open>reg_lock\<close> and
  \<open>registry\<close>.
\<close>

record ('c, 'l) container =
  dirty :: 'c
  write_mutex :: 'l
  ident :: usize
  writing :: bool
  reg_lock :: 'l
  registry :: "usize list"

text \<open>
  What a call does between \<open>begin_read\<close> and the release of the reader slot.  \<open>Pinned\<close>: the
  value goes out in a guard that keeps the slot (\<open>ReadGuard\<close>, \<open>ReadMapGuard\<close>, the iterators);
  \<open>Unpinned\<close>: the method itself runs \<open>count.fetch_sub(1, Release)\<close>, or drops the guard that
  does, and returns; \<open>Unwound\<close>: user code (\<open>Debug\<close>, \<open>Serialize\<close>, \<open>Clone\<close>) panicked while the
  method had the slot in a guard, which unwinding drops;
  \<open>ReadPanic\<close>: user code called on the way (\<open>Eq\<close>, \<open>Hash\<close>, \<open>Ord\<close>) panicked, and the raw
  counter reference has no destructor.
\<close>

datatype 'r read_out = Pinned 'r | Unpinned 'r | Unwound | ReadPanic

text \<open>
  What a call does between \<open>begin_write\<close> and the drop of its \<open>WriteLock\<close>.  \<open>Held\<close>: the
  lock goes out in a \<open>WriteGuard\<close> or a write iterator; \<open>Finished\<close>: it is dropped at the end
  of the method; \<open>WritePanic\<close>: it is dropped by unwinding.
\<close>

datatype 'r write_out = Held 'r | Finished 'r | WritePanic

text \<open>
  A method of a container that takes \<open>&self\<close>: a reading method, a writing method, or one that
  touches \<open>dirty\<close> without any synchronisation (\<open>Index::index\<close>, \<open>get_uncheck\<close>).
\<close>

datatype ('c, 'r) call =
    ReadCall "'c \<Rightarrow> 'r read_out"
  | WriteCall "'c \<Rightarrow> 'c \<times> 'r write_out"
  | UnguardedCall "'c \<Rightarrow> 'r outcome"

text \<open>
  Program counters: the next atomic action of the thread.  \<open>i\<close> is the local \<open>count\<close> (the
  position of the thread's counter), \<open>k\<close> the position of the scan \<open>registry.iter().all(..)\<close>.
  An access to \<open>dirty\<close> is not atomic: it is a pair of actions, the first of which reads the
  contents (the snapshot kept in \<open>RFinish\<close>, \<open>WCommit\<close>, \<open>UFinish\<close>), the second of which ends
  the access (and stores the new contents, for a writer).
\<close>

datatype ('c, 'r) pc =
    Idle
  | RSlot "'c \<Rightarrow> 'r read_out"
  | RPush "'c \<Rightarrow> 'r read_out"
  | RAdd nat "'c \<Rightarrow> 'r read_out"
  | RLoad nat "'c \<Rightarrow> 'r read_out"
  | RUndo nat "'c \<Rightarrow> 'r read_out"
  | RBody nat "'c \<Rightarrow> 'r read_out"
  | RFinish nat "'c \<Rightarrow> 'r read_out" 'c
  | RSub nat "'r outcome"
  | WLock "'c \<Rightarrow> 'c \<times> 'r write_out"
  | WStore "'c \<Rightarrow> 'c \<times> 'r write_out"
  | WRegLock "'c \<Rightarrow> 'c \<times> 'r write_out"
  | WScan nat "'c \<Rightarrow> 'c \<times> 'r write_out"
  | WRetry "'c \<Rightarrow> 'c \<times> 'r write_out"
  | WBreak "'c \<Rightarrow> 'c \<times> 'r write_out"
  | WBody "'c \<Rightarrow> 'c \<times> 'r write_out"
  | WCommit "'c \<Rightarrow> 'c \<times> 'r write_out" 'c
  | WClear "'r outcome option"
  | WUnlock "'r outcome option"
  | UBody "'c \<Rightarrow> 'r outcome"
  | UFinish "'c \<Rightarrow> 'r outcome" 'c

text \<open>The history: the accesses to \<open>dirty\<close> in the order in which they end, with their results.\<close>

datatype ('c, 'r) event =
    EvRead "'c \<Rightarrow> 'r read_out" "'r read_out"
  | EvWrite "'c \<Rightarrow> 'c \<times> 'r write_out" "'r write_out"
  | EvModify "'c \<Rightarrow> 'c"

text \<open>
  The container and the threads that share it.  \<open>slot\<close>: the counter that \<open>reader_count_for\<close>
  has registered for the thread.  \<open>guards\<close>: the live read guards, each with the thread that
  owns it and the counter it will decrement.  \<open>leaked\<close>: slots pinned for good (a guard passed
  to \<open>mem::forget\<close>, a panic between \<open>begin_read\<close> and the release).  \<open>wguard\<close>: the thread
  owns a write guard.  \<open>ret\<close>: what the thread's last call returned.  \<open>hist\<close>: the history.
\<close>

record ('c, 'l, 'r) sys = "('c, 'l) container" +
  slot :: "tid \<Rightarrow> nat option"
  pc :: "tid \<Rightarrow> ('c, 'r) pc"
  guards :: "(tid \<times> nat) list"
  leaked :: "nat list"
  wguard :: "tid \<Rightarrow> bool"
  ret :: "tid \<Rightarrow> 'r outcome option"
  hist :: "('c, 'r) event list"

text \<open>
  The constructors \<open>new\<close>, \<open>with_capacity\<close>, \<open>with_vec\<close>, \<open>with_map\<close> differ in the initial
  contents \<open>c\<close> only; \<open>i\<close> is the result of \<open>CONTAINER_ID.fetch_add(1)\<close>.
\<close>

definition container_with :: "'l mutex_ops \<Rightarrow> usize \<Rightarrow> 'c \<Rightarrow> ('c, 'l) container" where
  "container_with M i c = \<lparr>dirty = c, write_mutex = mx_new M, ident = i, writing = False,
     reg_lock = mx_new M, registry = []\<rparr>"

text \<open>A container that no thread has used yet.\<close>

definition sys_with :: "'l mutex_ops \<Rightarrow> usize \<Rightarrow> 'c \<Rightarrow> ('c, 'l, 'r) sys" where
  "sys_with M i c = container.extend (container_with M i c)
     \<lparr>slot = (\<lambda>_. None), pc = (\<lambda>_. Idle), guards = [], leaked = [], wguard = (\<lambda>_. False),
      ret = (\<lambda>_. None), hist = []\<rparr>"

lemma sys_with_simps [simp]:
  "dirty (sys_with M i c) = c" "write_mutex (sys_with M i c) = mx_new M"
  "ident (sys_with M i c) = i" "writing (sys_with M i c) = False"
  "reg_lock (sys_with M i c) = mx_new M" "registry (sys_with M i c) = []"
  "slot (sys_with M i c) t = None" "pc (sys_with M i c) t = Idle"
  "guards (sys_with M i c) = []" "leaked (sys_with M i c) = []"
  "wguard (sys_with M i c) t = False" "ret (sys_with M i c) t = None"
  "hist (sys_with M i c) = []"
  by (simp_all add: sys_with_def container_with_def container.defs)

section \<open>Atomic actions\<close>

definition goto :: "tid \<Rightarrow> ('c, 'r) pc \<Rightarrow> ('c, 'l, 'r) sys \<Rightarrow> ('c, 'l, 'r) sys" where
  "goto t p s = s\<lparr>pc := (pc s)(t := p)\<rparr>"

definition return :: "tid \<Rightarrow> 'r outcome option \<Rightarrow> ('c, 'l, 'r) sys \<Rightarrow> ('c, 'l, 'r) sys" where
  "return t r s = s\<lparr>pc := (pc s)(t := Idle), ret := (ret s)(t := r)\<rparr>"

text \<open>\<open>count.fetch_add(1)\<close> and \<open>count.fetch_sub(1)\<close>: both wrap around.\<close>

definition count_add :: "nat \<Rightarrow> ('c, 'l, 'r) sys \<Rightarrow> ('c, 'l, 'r) sys" where
  "count_add i s = s\<lparr>registry := (registry s)[i := registry s ! i + 1]\<rparr>"

definition count_sub :: "nat \<Rightarrow> ('c, 'l, 'r) sys \<Rightarrow> ('c, 'l, 'r) sys" where
  "count_sub i s = s\<lparr>registry := (registry s)[i := registry s ! i - 1]\<rparr>"

definition log_event :: "('c, 'r) event \<Rightarrow> ('c, 'l, 'r) sys \<Rightarrow> ('c, 'l, 'r) sys" where
  "log_event e s = s\<lparr>hist := hist s @ [e]\<rparr>"

text \<open>
  \<open>reader_count_for\<close> for this container: the thread's registered counter, or, on first use, a
  new one pushed under the registry lock (the thread-local tables behind \<open>slot\<close>, shared by all
  containers, are in theory \<open>Reader_Slots\<close>).
\<close>

definition slot_step :: "'l mutex_ops \<Rightarrow> tid \<Rightarrow> ('c \<Rightarrow> 'r read_out) \<Rightarrow>
    ('c, 'l, 'r) sys \<Rightarrow> ('c, 'l, 'r) sys option" where
  "slot_step M t b s =
     (case slot s t of
        Some i \<Rightarrow> Some (goto t (RAdd i b) s)
      | None \<Rightarrow> (case mx_lock M t (reg_lock s) of
                   None \<Rightarrow> None
                 | Some l \<Rightarrow> Some (goto t (RPush b) (s\<lparr>reg_lock := l\<rparr>))))"

definition push_step :: "'l mutex_ops \<Rightarrow> tid \<Rightarrow> ('c \<Rightarrow> 'r read_out) \<Rightarrow>
    ('c, 'l, 'r) sys \<Rightarrow> ('c, 'l, 'r) sys" where
  "push_step M t b s =
     (let i = length (registry s) in
      goto t (RAdd i b)
        (s\<lparr>registry := registry s @ [0], slot := (slot s)(t \<mapsto> i),
           reg_lock := mx_unlock M (reg_lock s)\<rparr>))"

text \<open>\<open>begin_read\<close>: the actions from the call of \<open>reader_count_for\<close> to the return of \<open>count\<close>.\<close>

fun begin_read_step :: "'l mutex_ops \<Rightarrow> tid \<Rightarrow> ('c, 'r) pc \<Rightarrow>
    ('c, 'l, 'r) sys \<Rightarrow> ('c, 'l, 'r) sys option" where
  "begin_read_step M t (RSlot b) s = slot_step M t b s"
| "begin_read_step M t (RPush b) s = Some (push_step M t b s)"
| "begin_read_step M t (RAdd i b) s = Some (goto t (RLoad i b) (count_add i s))"
| "begin_read_step M t (RLoad i b) s =
     Some (goto t (if \<not> writing s then RBody i b else RUndo i b) s)"
| "begin_read_step M t (RUndo i b) s = Some (goto t (RAdd i b) (count_sub i s))"
| "begin_read_step M t _ s = None"

text \<open>The body of a reading method, and its own release of the slot.\<close>

fun read_body_step :: "tid \<Rightarrow> ('c, 'r) pc \<Rightarrow> ('c, 'l, 'r) sys \<Rightarrow> ('c, 'l, 'r) sys option" where
  "read_body_step t (RBody i b) s = Some (goto t (RFinish i b (dirty s)) s)"
| "read_body_step t (RFinish i b c) s =
     (let s1 = log_event (EvRead b (b c)) s in
      Some (case b c of
          Pinned r \<Rightarrow> return t (Some (Returned r)) (s1\<lparr>guards := (t, i) # guards s1\<rparr>)
        | Unpinned r \<Rightarrow> goto t (RSub i (Returned r)) s1
        | Unwound \<Rightarrow> goto t (RSub i Panicked) s1
        | ReadPanic \<Rightarrow> return t (Some Panicked) (s1\<lparr>leaked := i # leaked s1\<rparr>)))"
| "read_body_step t (RSub i r) s = Some (return t (Some r) (count_sub i s))"
| "read_body_step t _ s = None"

text \<open>
  \<open>begin_write\<close>: the write mutex, the flag, then scans of the registry, each under its lock,
  until one finds every counter zero.  The scan stops at the first counter that is not zero.
\<close>

fun begin_write_step :: "'l mutex_ops \<Rightarrow> tid \<Rightarrow> ('c, 'r) pc \<Rightarrow>
    ('c, 'l, 'r) sys \<Rightarrow> ('c, 'l, 'r) sys option" where
  "begin_write_step M t (WLock b) s =
     (case mx_lock M t (write_mutex s) of
        None \<Rightarrow> None
      | Some l \<Rightarrow> Some (goto t (WStore b) (s\<lparr>write_mutex := l\<rparr>)))"
| "begin_write_step M t (WStore b) s = Some (goto t (WRegLock b) (s\<lparr>writing := True\<rparr>))"
| "begin_write_step M t (WRegLock b) s =
     (case mx_lock M t (reg_lock s) of
        None \<Rightarrow> None
      | Some l \<Rightarrow> Some (goto t (WScan 0 b) (s\<lparr>reg_lock := l\<rparr>)))"
| "begin_write_step M t (WScan k b) s =
     Some (goto t
       (if k < length (registry s)
        then (if registry s ! k = 0 then WScan (Suc k) b else WRetry b)
        else WBreak b) s)"
| "begin_write_step M t (WRetry b) s =
     Some (goto t (WRegLock b) (s\<lparr>reg_lock := mx_unlock M (reg_lock s)\<rparr>))"
| "begin_write_step M t (WBreak b) s =
     Some (goto t (WBody b) (s\<lparr>reg_lock := mx_unlock M (reg_lock s)\<rparr>))"
| "begin_write_step M t _ s = None"

text \<open>
  The body of a writing method; \<open>WriteLock::drop\<close> clears the flag, then the field \<open>_lock\<close> is
  dropped, which frees the mutex.
\<close>

fun write_body_step :: "tid \<Rightarrow> ('c, 'r) pc \<Rightarrow> ('c, 'l, 'r) sys \<Rightarrow> ('c, 'l, 'r) sys option" where
  "write_body_step t (WBody b) s = Some (goto t (WCommit b (dirty s)) s)"
| "write_body_step t (WCommit b c) s =
     (let s1 = log_event (EvWrite b (snd (b c))) (s\<lparr>dirty := fst (b c)\<rparr>) in
      Some (case snd (b c) of
          Held r \<Rightarrow> return t (Some (Returned r)) (s1\<lparr>wguard := (wguard s1)(t := True)\<rparr>)
        | Finished r \<Rightarrow> goto t (WClear (Some (Returned r))) s1
        | WritePanic \<Rightarrow> goto t (WClear (Some Panicked)) s1))"
| "write_body_step t _ s = None"

fun write_lock_drop_step :: "'l mutex_ops \<Rightarrow> tid \<Rightarrow> ('c, 'r) pc \<Rightarrow>
    ('c, 'l, 'r) sys \<Rightarrow> ('c, 'l, 'r) sys option" where
  "write_lock_drop_step M t (WClear r) s = Some (goto t (WUnlock r) (s\<lparr>writing := False\<rparr>))"
| "write_lock_drop_step M t (WUnlock r) s =
     Some (return t r (s\<lparr>write_mutex := mx_unlock M (write_mutex s)\<rparr>))"
| "write_lock_drop_step M t _ s = None"

text \<open>\<open>Index::index\<close> and \<open>get_uncheck\<close>: an access to \<open>dirty\<close> with no lock and no slot.\<close>

fun unguarded_step :: "tid \<Rightarrow> ('c, 'r) pc \<Rightarrow> ('c, 'l, 'r) sys \<Rightarrow> ('c, 'l, 'r) sys option" where
  "unguarded_step t (UBody u) s = Some (goto t (UFinish u (dirty s)) s)"
| "unguarded_step t (UFinish u c) s = Some (return t (Some (u c)) s)"
| "unguarded_step t _ s = None"

text \<open>The next action of a thread inside a call; \<open>None\<close>: it is idle, or waits for a mutex.\<close>

fun advance_at :: "'l mutex_ops \<Rightarrow> tid \<Rightarrow> ('c, 'r) pc \<Rightarrow>
    ('c, 'l, 'r) sys \<Rightarrow> ('c, 'l, 'r) sys option" where
  "advance_at M t Idle s = None"
| "advance_at M t (RSlot b) s = begin_read_step M t (RSlot b) s"
| "advance_at M t (RPush b) s = begin_read_step M t (RPush b) s"
| "advance_at M t (RAdd i b) s = begin_read_step M t (RAdd i b) s"
| "advance_at M t (RLoad i b) s = begin_read_step M t (RLoad i b) s"
| "advance_at M t (RUndo i b) s = begin_read_step M t (RUndo i b) s"
| "advance_at M t (RBody i b) s = read_body_step t (RBody i b) s"
| "advance_at M t (RFinish i b c) s = read_body_step t (RFinish i b c) s"
| "advance_at M t (RSub i r) s = read_body_step t (RSub i r) s"
| "advance_at M t (WLock b) s = begin_write_step M t (WLock b) s"
| "advance_at M t (WStore b) s = begin_write_step M t (WStore b) s"
| "advance_at M t (WRegLock b) s = begin_write_step M t (WRegLock b) s"
| "advance_at M t (WScan k b) s = begin_write_step M t (WScan k b) s"
| "advance_at M t (WRetry b) s = begin_write_step M t (WRetry b) s"
| "advance_at M t (WBreak b) s = begin_write_step M t (WBreak b) s"
| "advance_at M t (WBody b) s = write_body_step t (WBody b) s"
| "advance_at M t (WCommit b c) s = write_body_step t (WCommit b c) s"
| "advance_at M t (WClear r) s = write_lock_drop_step M t (WClear r) s"
| "advance_at M t (WUnlock r) s = write_lock_drop_step M t (WUnlock r) s"
| "advance_at M t (UBody u) s = unguarded_step t (UBody u) s"
| "advance_at M t (UFinish u c) s = unguarded_step t (UFinish u c) s"

definition advance :: "'l mutex_ops \<Rightarrow> tid \<Rightarrow> ('c, 'l, 'r) sys \<Rightarrow> ('c, 'l, 'r) sys option" where
  "advance M t s = advance_at M t (pc s t) s"

fun call_entry :: "('c, 'r) call \<Rightarrow> ('c, 'r) pc" where
  "call_entry (ReadCall b) = RSlot b"
| "call_entry (WriteCall b) = WLock b"
| "call_entry (UnguardedCall u) = UBody u"

text \<open>
  What a thread can do: continue its call, or, between calls, start one, drop a read guard
  (\<open>ReadGuard::drop\<close>, \<open>ReadMapGuard::drop\<close>, \<open>VecIter::drop\<close>, ...: one \<open>fetch_sub\<close>), move a
  guard to another thread (\<open>VecIter\<close> is \<open>Send\<close>), leak one, write through its write guard
  (\<open>WriteGuard::deref_mut\<close>) and drop its write guard.
\<close>

datatype ('c, 'r) action =
    Run
  | Start "('c, 'r) call"
  | DropGuard nat
  | SendGuard nat tid
  | ForgetGuard nat
  | WriteThrough "'c \<Rightarrow> 'c"
  | DropWriteGuard

text \<open>\<open>ReadGuard::drop\<close>: the guard disappears and its counter is decremented.\<close>

definition drop_guard :: "tid \<Rightarrow> nat \<Rightarrow> ('c, 'l, 'r) sys \<Rightarrow> ('c, 'l, 'r) sys" where
  "drop_guard t i s = count_sub i (s\<lparr>guards := remove1 (t, i) (guards s)\<rparr>)"

definition send_guard :: "tid \<Rightarrow> nat \<Rightarrow> tid \<Rightarrow> ('c, 'l, 'r) sys \<Rightarrow> ('c, 'l, 'r) sys" where
  "send_guard t i u s = s\<lparr>guards := (u, i) # remove1 (t, i) (guards s)\<rparr>"

definition forget_guard :: "tid \<Rightarrow> nat \<Rightarrow> ('c, 'l, 'r) sys \<Rightarrow> ('c, 'l, 'r) sys" where
  "forget_guard t i s = s\<lparr>guards := remove1 (t, i) (guards s), leaked := i # leaked s\<rparr>"

definition write_through :: "('c \<Rightarrow> 'c) \<Rightarrow> ('c, 'l, 'r) sys \<Rightarrow> ('c, 'l, 'r) sys" where
  "write_through f s = log_event (EvModify f) (s\<lparr>dirty := f (dirty s)\<rparr>)"

definition drop_write_guard :: "tid \<Rightarrow> ('c, 'l, 'r) sys \<Rightarrow> ('c, 'l, 'r) sys" where
  "drop_write_guard t s = goto t (WClear None) (s\<lparr>wguard := (wguard s)(t := False)\<rparr>)"

fun client_step :: "tid \<Rightarrow> ('c, 'r) action \<Rightarrow>
    ('c, 'l, 'r) sys \<Rightarrow> ('c, 'l, 'r) sys option" where
  "client_step t Run s = None"
| "client_step t (Start m) s = Some (goto t (call_entry m) s)"
| "client_step t (DropGuard i) s =
     (if (t, i) \<in> set (guards s) then Some (drop_guard t i s) else None)"
| "client_step t (SendGuard i u) s =
     (if (t, i) \<in> set (guards s) then Some (send_guard t i u s) else None)"
| "client_step t (ForgetGuard i) s =
     (if (t, i) \<in> set (guards s) then Some (forget_guard t i s) else None)"
| "client_step t (WriteThrough f) s =
     (if wguard s t then Some (write_through f s) else None)"
| "client_step t DropWriteGuard s =
     (if wguard s t then Some (drop_write_guard t s) else None)"

definition is_idle :: "('c, 'r) pc \<Rightarrow> bool" where
  "is_idle p = (case p of Idle \<Rightarrow> True | _ \<Rightarrow> False)"

definition perform :: "'l mutex_ops \<Rightarrow> tid \<Rightarrow> ('c, 'r) action \<Rightarrow>
    ('c, 'l, 'r) sys \<Rightarrow> ('c, 'l, 'r) sys option" where
  "perform M t a s =
     (case a of Run \<Rightarrow> advance M t s | _ \<Rightarrow> if is_idle (pc s t) then client_step t a s else None)"

text \<open>A schedule is a list of actions with the threads that take them.\<close>

fun perform_all :: "'l mutex_ops \<Rightarrow> (tid \<times> ('c, 'r) action) list \<Rightarrow>
    ('c, 'l, 'r) sys \<Rightarrow> ('c, 'l, 'r) sys option" where
  "perform_all M [] s = Some s"
| "perform_all M ((t, a) # as) s =
     (case perform M t a s of None \<Rightarrow> None | Some s' \<Rightarrow> perform_all M as s')"

lemma perform_all_append:
  "perform_all M (as @ bs) s =
     (case perform_all M as s of None \<Rightarrow> None | Some s' \<Rightarrow> perform_all M bs s')"
  by (induction M as s rule: perform_all.induct) (auto split: option.splits)

lemma is_idle_iff [simp]: "is_idle p \<longleftrightarrow> p = Idle"
  by (cases p) (simp_all add: is_idle_def)

lemmas [action_defs] = goto_def return_def count_add_def count_sub_def log_event_def
  slot_step_def push_step_def drop_guard_def send_guard_def forget_guard_def
  write_through_def drop_write_guard_def

section \<open>The step relation\<close>

text \<open>
  The same actions as one rule each, the form in which the invariants are proved.  A step is
  some thread performing some action: \<open>perform_step\<close> and \<open>step_perform\<close> show that the relation
  and the function \<open>perform\<close> agree.
\<close>

inductive rw_step :: "'l mutex_ops \<Rightarrow> tid \<Rightarrow> ('c, 'l, 'r) sys \<Rightarrow> ('c, 'l, 'r) sys \<Rightarrow> bool"
  for M :: "'l mutex_ops" and t :: tid and s :: "('c, 'l, 'r) sys" where
  r_slot: "pc s t = RSlot b \<Longrightarrow> slot s t = Some i \<Longrightarrow>
      rw_step M t s
       (s\<lparr>pc := (pc s)(t := RAdd i b)\<rparr>)"
| r_slot_lock: "pc s t = RSlot b \<Longrightarrow> slot s t = None \<Longrightarrow> mx_lock M t (reg_lock s) = Some l \<Longrightarrow>
      rw_step M t s
       (s\<lparr>reg_lock := l, pc := (pc s)(t := RPush b)\<rparr>)"
| r_push: "pc s t = RPush b \<Longrightarrow>
      rw_step M t s
       (s\<lparr>registry := registry s @ [0], slot := (slot s)(t \<mapsto> length (registry s)),
        reg_lock := mx_unlock M (reg_lock s),
        pc := (pc s)(t := RAdd (length (registry s)) b)\<rparr>)"
| r_add: "pc s t = RAdd i b \<Longrightarrow>
      rw_step M t s
       (s\<lparr>registry := (registry s)[i := registry s ! i + 1], pc := (pc s)(t := RLoad i b)\<rparr>)"
| r_load_free: "pc s t = RLoad i b \<Longrightarrow> \<not> writing s \<Longrightarrow>
      rw_step M t s
       (s\<lparr>pc := (pc s)(t := RBody i b)\<rparr>)"
| r_load_busy: "pc s t = RLoad i b \<Longrightarrow> writing s \<Longrightarrow>
      rw_step M t s
       (s\<lparr>pc := (pc s)(t := RUndo i b)\<rparr>)"
| r_undo: "pc s t = RUndo i b \<Longrightarrow>
      rw_step M t s
       (s\<lparr>registry := (registry s)[i := registry s ! i - 1], pc := (pc s)(t := RAdd i b)\<rparr>)"
| r_body: "pc s t = RBody i b \<Longrightarrow>
      rw_step M t s
       (s\<lparr>pc := (pc s)(t := RFinish i b (dirty s))\<rparr>)"
| r_pinned: "pc s t = RFinish i b c \<Longrightarrow> b c = Pinned r \<Longrightarrow>
      rw_step M t s
       (s\<lparr>hist := hist s @ [EvRead b (Pinned r)], guards := (t, i) # guards s,
        pc := (pc s)(t := Idle), ret := (ret s)(t := Some (Returned r))\<rparr>)"
| r_unpinned: "pc s t = RFinish i b c \<Longrightarrow> b c = Unpinned r \<Longrightarrow>
      rw_step M t s
       (s\<lparr>hist := hist s @ [EvRead b (Unpinned r)], pc := (pc s)(t := RSub i (Returned r))\<rparr>)"
| r_unwound: "pc s t = RFinish i b c \<Longrightarrow> b c = Unwound \<Longrightarrow>
      rw_step M t s
       (s\<lparr>hist := hist s @ [EvRead b Unwound], pc := (pc s)(t := RSub i Panicked)\<rparr>)"
| r_panic: "pc s t = RFinish i b c \<Longrightarrow> b c = ReadPanic \<Longrightarrow>
      rw_step M t s
       (s\<lparr>hist := hist s @ [EvRead b ReadPanic], leaked := i # leaked s,
        pc := (pc s)(t := Idle), ret := (ret s)(t := Some Panicked)\<rparr>)"
| r_sub: "pc s t = RSub i r \<Longrightarrow>
      rw_step M t s
       (s\<lparr>registry := (registry s)[i := registry s ! i - 1],
        pc := (pc s)(t := Idle), ret := (ret s)(t := Some r)\<rparr>)"
| w_lock: "pc s t = WLock d \<Longrightarrow> mx_lock M t (write_mutex s) = Some l \<Longrightarrow>
      rw_step M t s
       (s\<lparr>write_mutex := l, pc := (pc s)(t := WStore d)\<rparr>)"
| w_store: "pc s t = WStore d \<Longrightarrow>
      rw_step M t s
       (s\<lparr>writing := True, pc := (pc s)(t := WRegLock d)\<rparr>)"
| w_reg_lock: "pc s t = WRegLock d \<Longrightarrow> mx_lock M t (reg_lock s) = Some l \<Longrightarrow>
      rw_step M t s
       (s\<lparr>reg_lock := l, pc := (pc s)(t := WScan 0 d)\<rparr>)"
| w_scan_zero: "pc s t = WScan k d \<Longrightarrow> k < length (registry s) \<Longrightarrow> registry s ! k = 0 \<Longrightarrow>
      rw_step M t s
       (s\<lparr>pc := (pc s)(t := WScan (Suc k) d)\<rparr>)"
| w_scan_busy: "pc s t = WScan k d \<Longrightarrow> k < length (registry s) \<Longrightarrow> registry s ! k \<noteq> 0 \<Longrightarrow>
      rw_step M t s
       (s\<lparr>pc := (pc s)(t := WRetry d)\<rparr>)"
| w_scan_end: "pc s t = WScan k d \<Longrightarrow> \<not> k < length (registry s) \<Longrightarrow>
      rw_step M t s
       (s\<lparr>pc := (pc s)(t := WBreak d)\<rparr>)"
| w_retry: "pc s t = WRetry d \<Longrightarrow>
      rw_step M t s
       (s\<lparr>reg_lock := mx_unlock M (reg_lock s), pc := (pc s)(t := WRegLock d)\<rparr>)"
| w_break: "pc s t = WBreak d \<Longrightarrow>
      rw_step M t s
       (s\<lparr>reg_lock := mx_unlock M (reg_lock s), pc := (pc s)(t := WBody d)\<rparr>)"
| w_body: "pc s t = WBody d \<Longrightarrow>
      rw_step M t s
       (s\<lparr>pc := (pc s)(t := WCommit d (dirty s))\<rparr>)"
| w_held: "pc s t = WCommit d c \<Longrightarrow> d c = (c', Held r) \<Longrightarrow>
      rw_step M t s
       (s\<lparr>dirty := c', hist := hist s @ [EvWrite d (Held r)], wguard := (wguard s)(t := True),
        pc := (pc s)(t := Idle), ret := (ret s)(t := Some (Returned r))\<rparr>)"
| w_finished: "pc s t = WCommit d c \<Longrightarrow> d c = (c', Finished r) \<Longrightarrow>
      rw_step M t s
       (s\<lparr>dirty := c', hist := hist s @ [EvWrite d (Finished r)],
        pc := (pc s)(t := WClear (Some (Returned r)))\<rparr>)"
| w_panic: "pc s t = WCommit d c \<Longrightarrow> d c = (c', WritePanic) \<Longrightarrow>
      rw_step M t s
       (s\<lparr>dirty := c', hist := hist s @ [EvWrite d WritePanic],
        pc := (pc s)(t := WClear (Some Panicked))\<rparr>)"
| w_clear: "pc s t = WClear x \<Longrightarrow>
      rw_step M t s
       (s\<lparr>writing := False, pc := (pc s)(t := WUnlock x)\<rparr>)"
| w_unlock: "pc s t = WUnlock x \<Longrightarrow>
      rw_step M t s
       (s\<lparr>write_mutex := mx_unlock M (write_mutex s),
        pc := (pc s)(t := Idle), ret := (ret s)(t := x)\<rparr>)"
| u_body: "pc s t = UBody u \<Longrightarrow>
      rw_step M t s
       (s\<lparr>pc := (pc s)(t := UFinish u (dirty s))\<rparr>)"
| u_finish: "pc s t = UFinish u c \<Longrightarrow>
      rw_step M t s
       (s\<lparr>pc := (pc s)(t := Idle), ret := (ret s)(t := Some (u c))\<rparr>)"
| start: "pc s t = Idle \<Longrightarrow>
      rw_step M t s
       (s\<lparr>pc := (pc s)(t := call_entry m)\<rparr>)"
| guard_drop: "pc s t = Idle \<Longrightarrow> (t, i) \<in> set (guards s) \<Longrightarrow>
      rw_step M t s
       (s\<lparr>guards := remove1 (t, i) (guards s),
        registry := (registry s)[i := registry s ! i - 1]\<rparr>)"
| guard_send: "pc s t = Idle \<Longrightarrow> (t, i) \<in> set (guards s) \<Longrightarrow>
      rw_step M t s
       (s\<lparr>guards := (v, i) # remove1 (t, i) (guards s)\<rparr>)"
| guard_forget: "pc s t = Idle \<Longrightarrow> (t, i) \<in> set (guards s) \<Longrightarrow>
      rw_step M t s
       (s\<lparr>guards := remove1 (t, i) (guards s), leaked := i # leaked s\<rparr>)"
| wguard_write: "pc s t = Idle \<Longrightarrow> wguard s t \<Longrightarrow>
      rw_step M t s
       (s\<lparr>dirty := f (dirty s), hist := hist s @ [EvModify f]\<rparr>)"
| wguard_drop: "pc s t = Idle \<Longrightarrow> wguard s t \<Longrightarrow>
      rw_step M t s
       (s\<lparr>wguard := (wguard s)(t := False), pc := (pc s)(t := WClear None)\<rparr>)"

lemma advance_step: "advance_at M t (pc s t) s = Some s' \<Longrightarrow> rw_step M t s s'"
  by (cases "pc s t")
    (auto simp: action_defs Let_def prod_eq_iff split: option.splits read_out.splits write_out.splits
       if_splits intro: rw_step.intros)

lemma client_step_step: "pc s t = Idle \<Longrightarrow> client_step t a s = Some s' \<Longrightarrow> rw_step M t s s'"
  by (cases a) (auto simp: action_defs split: if_splits intro: rw_step.intros)

theorem perform_step: "perform M t a s = Some s' \<Longrightarrow> rw_step M t s s'"
  by (cases a)
    (auto simp: perform_def advance_def simp del: client_step.simps split: if_splits
       intro: advance_step client_step_step)

lemma perform_Run: "perform M t Run s = advance_at M t (pc s t) s"
  by (simp add: perform_def advance_def)

lemma perform_client:
  "a \<noteq> Run \<Longrightarrow> pc s t = Idle \<Longrightarrow> perform M t a s = client_step t a s"
  by (cases a) (simp_all add: perform_def)

theorem step_perform:
  assumes "rw_step M t s s'"
  shows "\<exists>a. perform M t a s = Some s'"
  using assms
proof (cases rule: rw_step.cases)
  case (start m)
  then have "perform M t (Start m) s = Some s'" by (simp add: perform_client action_defs)
  then show ?thesis by blast
next
  case (guard_drop i)
  then have "perform M t (DropGuard i) s = Some s'" by (simp add: perform_client action_defs)
  then show ?thesis by blast
next
  case (guard_send i v)
  then have "perform M t (SendGuard i v) s = Some s'" by (simp add: perform_client action_defs)
  then show ?thesis by blast
next
  case (guard_forget i)
  then have "perform M t (ForgetGuard i) s = Some s'" by (simp add: perform_client action_defs)
  then show ?thesis by blast
next
  case (wguard_write f)
  then have "perform M t (WriteThrough f) s = Some s'" by (simp add: perform_client action_defs)
  then show ?thesis by blast
next
  case wguard_drop
  then have "perform M t DropWriteGuard s = Some s'" by (simp add: perform_client action_defs)
  then show ?thesis by blast
qed (auto intro!: exI [of _ Run] simp: perform_Run action_defs Let_def)

end
