(* ===== verification/Rw_Invariant.thy ===== *)
theory Rw_Invariant
  imports Rw_Lock
begin

text \<open>
  The invariant of the reader/writer protocol of \<open>Rw_Lock\<close> and its preservation by every
  atomic action.  One predicate per concern; each has its own preservation lemma, and
  \<open>rw_inv\<close> is their conjunction.
\<close>

section \<open>Program locations\<close>

text \<open>The counter a thread works on (\<open>count\<close> in the source).\<close>

fun pc_count :: "('c, 'r) pc \<Rightarrow> nat option" where
  "pc_count (RAdd i b) = Some i"
| "pc_count (RLoad i b) = Some i"
| "pc_count (RUndo i b) = Some i"
| "pc_count (RBody i b) = Some i"
| "pc_count (RFinish i b c) = Some i"
| "pc_count (RSub i r) = Some i"
| "pc_count _ = None"

text \<open>Between its own \<open>fetch_add\<close> and the matching \<open>fetch_sub\<close>.\<close>

fun pinning :: "('c, 'r) pc \<Rightarrow> bool" where
  "pinning (RLoad i b) = True"
| "pinning (RUndo i b) = True"
| "pinning (RBody i b) = True"
| "pinning (RFinish i b c) = True"
| "pinning (RSub i r) = True"
| "pinning _ = False"

text \<open>\<open>begin_read\<close> has returned and the slot is not released yet.\<close>

fun in_read :: "('c, 'r) pc \<Rightarrow> bool" where
  "in_read (RBody i b) = True"
| "in_read (RFinish i b c) = True"
| "in_read (RSub i r) = True"
| "in_read _ = False"

text \<open>The thread holds the write mutex.\<close>

fun w_owner :: "('c, 'r) pc \<Rightarrow> bool" where
  "w_owner (WStore b) = True"
| "w_owner (WRegLock b) = True"
| "w_owner (WScan k b) = True"
| "w_owner (WRetry b) = True"
| "w_owner (WBreak b) = True"
| "w_owner (WBody b) = True"
| "w_owner (WCommit b c) = True"
| "w_owner (WClear r) = True"
| "w_owner (WUnlock r) = True"
| "w_owner _ = False"

text \<open>The thread has raised the flag and has not cleared it.\<close>

fun w_flag :: "('c, 'r) pc \<Rightarrow> bool" where
  "w_flag (WRegLock b) = True"
| "w_flag (WScan k b) = True"
| "w_flag (WRetry b) = True"
| "w_flag (WBreak b) = True"
| "w_flag (WBody b) = True"
| "w_flag (WCommit b c) = True"
| "w_flag (WClear r) = True"
| "w_flag _ = False"

text \<open>The scan has succeeded and the flag is still up.\<close>

fun w_excl :: "('c, 'r) pc \<Rightarrow> bool" where
  "w_excl (WBreak b) = True"
| "w_excl (WBody b) = True"
| "w_excl (WCommit b c) = True"
| "w_excl (WClear r) = True"
| "w_excl _ = False"

text \<open>The thread holds the lock of the registry.\<close>

fun r_owner :: "('c, 'r) pc \<Rightarrow> bool" where
  "r_owner (RPush b) = True"
| "r_owner (WScan k b) = True"
| "r_owner (WRetry b) = True"
| "r_owner (WBreak b) = True"
| "r_owner _ = False"

lemma in_read_pinning: "in_read p \<Longrightarrow> pinning p"
  by (cases p) simp_all

lemma pinning_count: "pinning p \<Longrightarrow> \<exists>i. pc_count p = Some i"
  by (cases p) simp_all

lemma w_excl_flag: "w_excl p \<Longrightarrow> w_flag p"
  by (cases p) simp_all

lemma w_flag_owner: "w_flag p \<Longrightarrow> w_owner p"
  by (cases p) simp_all

lemma not_in_read_entry [simp]:
  "\<not> in_read (call_entry m)" "\<not> pinning (call_entry m)" "pc_count (call_entry m) = None"
  "\<not> w_owner (call_entry m)" "\<not> w_flag (call_entry m)" "\<not> w_excl (call_entry m)"
  "\<not> r_owner (call_entry m)" "call_entry m \<noteq> RFinish i b c" "call_entry m \<noteq> WCommit d c"
  "call_entry m \<noteq> RPush b" "call_entry m \<noteq> WScan k d"
  by (cases m; simp)+

section \<open>The invariant\<close>

text \<open>How often counter \<open>i\<close> is pinned by guards, alive or leaked.\<close>

definition pins :: "('c, 'l, 'r) sys \<Rightarrow> nat \<Rightarrow> nat" where
  "pins s i = count_list (map snd (guards s)) i + count_list (leaked s) i"

definition inv_write :: "'l mutex_ops \<Rightarrow> ('c, 'l, 'r) sys \<Rightarrow> bool" where
  [inv_defs]: "inv_write M s \<longleftrightarrow>
     held_by M (write_mutex s) (\<lambda>t. w_owner (pc s t) \<or> wguard s t) \<and>
     (\<forall>t. w_owner (pc s t) \<longrightarrow> \<not> wguard s t)"

definition inv_flag :: "('c, 'l, 'r) sys \<Rightarrow> bool" where
  [inv_defs]: "inv_flag s \<longleftrightarrow> (writing s \<longleftrightarrow> (\<exists>t. w_flag (pc s t) \<or> wguard s t))"

definition inv_reg :: "'l mutex_ops \<Rightarrow> ('c, 'l, 'r) sys \<Rightarrow> bool" where
  [inv_defs]: "inv_reg M s \<longleftrightarrow> held_by M (reg_lock s) (\<lambda>t. r_owner (pc s t))"

definition inv_slot :: "('c, 'l, 'r) sys \<Rightarrow> bool" where
  [inv_defs]: "inv_slot s \<longleftrightarrow>
     (\<forall>t i. slot s t = Some i \<longrightarrow> i < length (registry s)) \<and>
     (\<forall>t u i. slot s t = Some i \<longrightarrow> slot s u = Some i \<longrightarrow> t = u) \<and>
     (\<forall>i < length (registry s). \<exists>t. slot s t = Some i) \<and>
     (\<forall>t i. pc_count (pc s t) = Some i \<longrightarrow> slot s t = Some i) \<and>
     (\<forall>t b. pc s t = RPush b \<longrightarrow> slot s t = None) \<and>
     (\<forall>g \<in> set (guards s). snd g < length (registry s)) \<and>
     (\<forall>i \<in> set (leaked s). i < length (registry s))"

definition inv_count :: "('c, 'l, 'r) sys \<Rightarrow> bool" where
  [inv_defs]: "inv_count s \<longleftrightarrow>
     (\<forall>t i. slot s t = Some i \<longrightarrow>
        registry s ! i = of_nat (pins s i + (if pinning (pc s t) then 1 else 0)))"

definition inv_excl :: "('c, 'l, 'r) sys \<Rightarrow> bool" where
  [inv_defs]: "inv_excl s \<longleftrightarrow>
     (\<forall>t. w_excl (pc s t) \<or> wguard s t \<longrightarrow>
        guards s = [] \<and> leaked s = [] \<and> (\<forall>u. \<not> in_read (pc s u)))"

definition inv_scan :: "('c, 'l, 'r) sys \<Rightarrow> bool" where
  [inv_defs]: "inv_scan s \<longleftrightarrow>
     (\<forall>t k b. pc s t = WScan k b \<longrightarrow>
        k \<le> length (registry s) \<and>
        (\<forall>i < k. pins s i = 0 \<and> (\<forall>u. slot s u = Some i \<longrightarrow> \<not> in_read (pc s u))))"

definition inv_snap :: "('c, 'l, 'r) sys \<Rightarrow> bool" where
  [inv_defs]: "inv_snap s \<longleftrightarrow>
     (\<forall>t i b c. pc s t = RFinish i b c \<longrightarrow> c = dirty s) \<and>
     (\<forall>t b c. pc s t = WCommit b c \<longrightarrow> c = dirty s)"

definition rw_inv :: "'l mutex_ops \<Rightarrow> ('c, 'l, 'r) sys \<Rightarrow> bool" where
  "rw_inv M s \<longleftrightarrow> inv_write M s \<and> inv_flag s \<and> inv_reg M s \<and> inv_slot s \<and> inv_count s \<and>
     inv_excl s \<and> inv_scan s \<and> inv_snap s"

text \<open>
  The counters are 64-bit: a state has room when no counter is pinned so often that one more
  \<open>fetch_add\<close> would wrap around.
\<close>

definition has_room :: "('c, 'l, 'r) sys \<Rightarrow> bool" where
  "has_room s \<longleftrightarrow> (\<forall>i < length (registry s). pins s i + 1 < 2 ^ 64)"

section \<open>Preservation: the two mutexes and the flag\<close>

text \<open>A step changes the program counter and the write guard of its own thread only.\<close>

lemma step_others:
  assumes "rw_step M t s s'" "u \<noteq> t"
  shows "pc s' u = pc s u" "wguard s' u = wguard s u" "slot s' u = slot s u" "ret s' u = ret s u"
  using assms(1) by (cases rule: rw_step.cases; simp add: assms(2))+

lemma inv_write_frame:
  assumes "inv_write M s" "write_mutex s' = write_mutex s" "rw_step M t s s'"
    "w_owner (pc s' t) \<or> wguard s' t \<longleftrightarrow> w_owner (pc s t) \<or> wguard s t"
    "\<not> (w_owner (pc s' t) \<and> wguard s' t)"
  shows "inv_write M s'"
proof -
  have same: "(w_owner (pc s' u) \<or> wguard s' u) = (w_owner (pc s u) \<or> wguard s u)" for u
    using assms(4) step_others [OF assms(3), of u] by (cases "u = t") auto
  have "\<not> (w_owner (pc s' u) \<and> wguard s' u)" for u
    using assms(1,5) step_others [OF assms(3), of u] by (cases "u = t") (auto simp: inv_write_def)
  with same assms(1,2) show ?thesis
    by (auto simp: inv_write_def held_by_def)
qed

lemma inv_write_step:
  assumes M: "mutex_laws M" and inv: "inv_write M s" and step: "rw_step M t s s'"
  shows "inv_write M s'"
proof -
  have held: "held_by M (write_mutex s) (\<lambda>t. w_owner (pc s t) \<or> wguard s t)"
    and excl: "\<And>u. w_owner (pc s u) \<Longrightarrow> \<not> wguard s u"
    using inv by (auto simp: inv_write_def)
  show ?thesis
    using step
  proof (cases rule: rw_step.cases)
    case (w_lock d l)
    have none: "\<not> (w_owner (pc s u) \<or> wguard s u)" for u
      using w_lock by (intro held_by_lock_none [OF M held])
    then show ?thesis unfolding inv_write_def w_lock(1)
      using held_by_lock [OF M w_lock(3)] by simp
  next
    case (w_unlock x)
    then have "\<not> wguard s t" using excl [of t] by simp
    with w_unlock(2) show ?thesis unfolding inv_write_def w_unlock(1)
      using held_by_unlock [OF M held, where t = t] excl by simp
  qed (rule inv_write_frame [OF inv _ step]; insert excl [of t]; simp)+
qed

lemma inv_reg_frame:
  assumes "inv_reg M s" "reg_lock s' = reg_lock s" "rw_step M t s s'"
    "r_owner (pc s' t) = r_owner (pc s t)"
  shows "inv_reg M s'"
proof -
  have "r_owner (pc s' u) = r_owner (pc s u)" for u
    using assms(4) step_others [OF assms(3), of u] by (cases "u = t") auto
  with assms(1,2) show ?thesis
    by (auto simp: inv_reg_def held_by_def)
qed

lemma inv_reg_step:
  assumes M: "mutex_laws M" and inv: "inv_reg M s" and step: "rw_step M t s s'"
  shows "inv_reg M s'"
proof -
  have held: "held_by M (reg_lock s) (\<lambda>t. r_owner (pc s t))"
    using inv by (auto simp: inv_reg_def)
  have release: "inv_reg M s'" if "reg_lock s' = mx_unlock M (reg_lock s)" "r_owner (pc s t)"
    "\<not> r_owner (pc s' t)"
    using that step_others [OF step]
    by (auto simp: inv_reg_def intro!: held_by_unlock [OF M held, where t = t])
  have acquire: "inv_reg M s'" if "mx_lock M t (reg_lock s) = Some (reg_lock s')"
    "r_owner (pc s' t)"
  proof -
    have "r_owner (pc s' u) \<longleftrightarrow> u = t" for u
      using held_by_lock_none [OF M held that(1)] that(2) step_others [OF step, of u] 
      by (cases "u = t") auto
    then show ?thesis by (auto simp: inv_reg_def intro!: held_by_lock [OF M that(1)])
  qed
  show ?thesis
    using step
  proof (cases rule: rw_step.cases)
  qed ((rule acquire; simp; fail) | (rule release; simp; fail) | (rule inv_reg_frame [OF inv _ step]; simp; fail))+
qed

lemma inv_flag_frame:
  assumes "inv_flag s" "writing s' = writing s" "rw_step M t s s'"
    "w_flag (pc s' t) \<or> wguard s' t \<longleftrightarrow> w_flag (pc s t) \<or> wguard s t"
  shows "inv_flag s'"
proof -
  have "(w_flag (pc s' u) \<or> wguard s' u) = (w_flag (pc s u) \<or> wguard s u)" for u
    using assms(4) step_others [OF assms(3), of u] by (cases "u = t") auto
  with assms(1,2) show ?thesis
    by (auto simp: inv_flag_def)
qed

lemma inv_flag_step:
  assumes wr: "inv_write M s" and inv: "inv_flag s" and step: "rw_step M t s s'"
  shows "inv_flag s'"
  using step
proof (cases rule: rw_step.cases)
  case (w_store d)
  then have "writing s'" "w_flag (pc s' t)" by simp_all
  then show ?thesis unfolding inv_flag_def by blast
next
  case (w_clear x)
  have "\<not> (w_flag (pc s' u) \<or> wguard s' u)" for u
  proof (cases "u = t")
    case True
    then show ?thesis using w_clear wr by (auto simp: inv_write_def)
  next
    case False
    with wr w_clear(2) have "\<not> (w_owner (pc s u) \<or> wguard s u)"
      unfolding inv_write_def
      using held_by_unique [of M "write_mutex s" "\<lambda>t. w_owner (pc s t) \<or> wguard s t" u t] by auto
    with False w_flag_owner [of "pc s u"] show ?thesis using step_others [OF step False] by auto
  qed
  then show ?thesis using w_clear by (auto simp: inv_flag_def)
qed (rule inv_flag_frame [OF inv _ step]; simp; fail)+

section \<open>Preservation: slots\<close>

lemma inv_slotD:
  assumes "inv_slot s"
  shows "slot s t = Some i \<Longrightarrow> i < length (registry s)"
    and "slot s t = Some i \<Longrightarrow> slot s u = Some i \<Longrightarrow> t = u"
    and "i < length (registry s) \<Longrightarrow> \<exists>t. slot s t = Some i"
    and "pc_count (pc s t) = Some i \<Longrightarrow> slot s t = Some i"
    and "pc s t = RPush b \<Longrightarrow> slot s t = None"
    and "(t, i) \<in> set (guards s) \<Longrightarrow> i < length (registry s)"
    and "i \<in> set (leaked s) \<Longrightarrow> i < length (registry s)"
  using assms unfolding inv_slot_def by (blast, blast, blast, blast, blast, fastforce, blast)

lemma inv_slot_frame:
  assumes inv: "inv_slot s" and step: "rw_step M t s s'"
    and "slot s' = slot s" "length (registry s') = length (registry s)"
    and pc: "\<And>i. pc_count (pc s' t) = Some i \<Longrightarrow> slot s t = Some i"
    and push: "\<And>b. pc s' t = RPush b \<Longrightarrow> slot s t = None"
    and "snd ` set (guards s') \<subseteq> {..< length (registry s)}"
    and "set (leaked s') \<subseteq> {..< length (registry s)}"
  shows "inv_slot s'"
proof -
  have "slot s u = Some i" if "pc_count (pc s' u) = Some i" for u i
    using that pc step_others(1) [OF step, of u] inv_slotD(4) [OF inv] by (cases "u = t") auto
  moreover have "slot s u = None" if "pc s' u = RPush b" for u b
    using that push step_others(1) [OF step, of u] inv_slotD(5) [OF inv] by (cases "u = t") auto
  ultimately show ?thesis
    using inv assms(3,4,7,8) unfolding inv_slot_def by auto
qed

lemma guards_in_range: "inv_slot s \<Longrightarrow> snd ` set (guards s) \<subseteq> {..< length (registry s)}"
  by (auto simp: inv_slot_def)

lemma leaked_in_range: "inv_slot s \<Longrightarrow> set (leaked s) \<subseteq> {..< length (registry s)}"
  by (auto simp: inv_slot_def)

lemma inv_slot_step:
  assumes inv: "inv_slot s" and step: "rw_step M t s s'"
  shows "inv_slot s'"
proof -
  note D = inv_slotD [OF inv]
  note range = guards_in_range [OF inv] leaked_in_range [OF inv]
  have rem: "snd ` set (remove1 g (guards s)) \<subseteq> {..< length (registry s)}" for g
    using range(1) set_remove1_subset [of g "guards s"] by blast
  have own: "i < length (registry s)" if "pc_count (pc s t) = Some i" for i
    using D(1,4) that by blast
  show ?thesis
    using step
  proof (cases rule: rw_step.cases)
    case (r_push b)
    let ?n = "length (registry s)"
    have "slot s u \<noteq> Some ?n" for u using D(1) by blast
    moreover have "slot s t = None" using D(5) r_push by blast
    moreover have "\<exists>v. ((slot s)(t \<mapsto> ?n)) v = Some i" if "i < Suc ?n" for i
      using D(3) [of i] that \<open>slot s t = None\<close>
      by (cases "i = ?n") (auto intro: exI [of _ t], metis less_SucE option.distinct(1))
    ultimately show ?thesis
      using D range unfolding inv_slot_def r_push(1)
      by (auto simp: less_Suc_eq)
  qed (rule inv_slot_frame [OF inv step]; simp add: D(4,6) own range rem)+
qed

section \<open>Preservation: counters\<close>

lemma pins_simps [simp]:
  "pins (s\<lparr>pc := p\<rparr>) i = pins s i" "pins (s\<lparr>registry := r\<rparr>) i = pins s i"
  "pins (s\<lparr>slot := f\<rparr>) i = pins s i" "pins (s\<lparr>reg_lock := l\<rparr>) i = pins s i"
  "pins (s\<lparr>write_mutex := l\<rparr>) i = pins s i" "pins (s\<lparr>writing := w\<rparr>) i = pins s i"
  "pins (s\<lparr>dirty := c\<rparr>) i = pins s i" "pins (s\<lparr>hist := h\<rparr>) i = pins s i"
  "pins (s\<lparr>wguard := g\<rparr>) i = pins s i" "pins (s\<lparr>ret := x\<rparr>) i = pins s i"
  by (simp_all add: pins_def)

lemma pins_leak [simp]:
  "pins (s\<lparr>leaked := j # leaked s\<rparr>) i = pins s i + (if j = i then 1 else 0)"
  by (simp add: pins_def)

lemma pins_pin [simp]:
  "pins (s\<lparr>guards := g # guards s\<rparr>) i = pins s i + (if snd g = i then 1 else 0)"
  by (simp add: pins_def)

lemma count_list_remove1: "x \<in> set xs \<Longrightarrow> count_list (remove1 x xs) x + 1 = count_list xs x"
  by (induction xs) auto

lemma count_list_snd_remove1:
  "(t, j) \<in> set gs \<Longrightarrow>
   count_list (map snd (remove1 (t, j) gs)) i + (if j = i then 1 else 0) = count_list (map snd gs) i"
  by (induction gs) auto

lemma pins_unpin:
  "(t, j) \<in> set (guards s) \<Longrightarrow>
   pins s i = pins (s\<lparr>guards := remove1 (t, j) (guards s)\<rparr>) i + (if j = i then 1 else 0)"
  using count_list_snd_remove1 [of t j "guards s" i] by (cases "j = i") (simp_all add: pins_def)

lemma pins_send:
  "(t, j) \<in> set (guards s) \<Longrightarrow>
   pins (s\<lparr>guards := (u, j) # remove1 (t, j) (guards s)\<rparr>) i = pins s i"
  using count_list_snd_remove1 [of t j "guards s" i] by (cases "j = i") (simp_all add: pins_def)

lemma pins_forget:
  "(t, j) \<in> set (guards s) \<Longrightarrow>
   pins (s\<lparr>guards := remove1 (t, j) (guards s), leaked := j # leaked s\<rparr>) i = pins s i"
  using count_list_snd_remove1 [of t j "guards s" i] by (cases "j = i") (simp_all add: pins_def)

lemma pins_eq_0: "(\<forall>i. pins s i = 0) \<longleftrightarrow> guards s = [] \<and> leaked s = []"
proof
  assume a: "\<forall>i. pins s i = 0"
  have "j \<notin> snd ` set (guards s)" "j \<notin> set (leaked s)" for j
    using a [rule_format, of j] by (auto simp: pins_def count_list_0_iff)
  then show "guards s = [] \<and> leaked s = []" by (metis equals0I image_is_empty set_empty)
qed (simp add: pins_def)

text \<open>What the counter of thread \<open>u\<close> must read.\<close>

definition load :: "('c, 'l, 'r) sys \<Rightarrow> tid \<Rightarrow> nat \<Rightarrow> usize" where
  "load s u i = of_nat (pins s i + (if pinning (pc s u) then 1 else 0))"

lemma inv_count_load: "inv_count s \<longleftrightarrow> (\<forall>u i. slot s u = Some i \<longrightarrow> registry s ! i = load s u i)"
  by (simp add: inv_count_def load_def)

lemma inv_count_frame:
  assumes inv: "inv_count s" and step: "rw_step M t s s'"
    and "slot s' = slot s" "registry s' = registry s"
    and "\<And>i. pins s' i = pins s i" "pinning (pc s' t) = pinning (pc s t)"
  shows "inv_count s'"
proof -
  have "load s' u i = load s u i" for u i
    using assms(5,6) step_others(1) [OF step, of u] by (cases "u = t") (auto simp: load_def)
  then show ?thesis using inv assms(3,4) by (simp add: inv_count_load)
qed

text \<open>One counter changes, together with its pins or with its owner's location.\<close>

lemma inv_count_update:
  assumes inv: "inv_count s" and islot: "inv_slot s" and step: "rw_step M t s s'"
    and same: "slot s' = slot s" "registry s' = (registry s)[i := v]"
    and others: "\<And>j. j \<noteq> i \<Longrightarrow> pins s' j = pins s j"
    and pc: "slot s t = Some i \<or> pinning (pc s' t) = pinning (pc s t)"
    and v: "\<And>u. slot s u = Some i \<Longrightarrow> v = load s' u i"
  shows "inv_count s'"
proof -
  have "(registry s)[i := v] ! j = load s' u j" if u: "slot s u = Some j" for u j
  proof (cases "j = i")
    case True
    then show ?thesis using v u inv_slotD(1) [OF islot] by simp
  next
    case False
    have "pinning (pc s' u) = pinning (pc s u)"
      using pc u False step_others(1) [OF step, of u] by (cases "u = t") auto
    then show ?thesis
      using inv u False others [OF False] by (simp add: inv_count_load load_def)
  qed
  then show ?thesis using same by (simp add: inv_count_load)
qed

lemma inv_count_step:
  assumes inv: "inv_count s" and islot: "inv_slot s" and step: "rw_step M t s s'"
  shows "inv_count s'"
proof -
  note D = inv_slotD [OF islot]
  have cnt: "registry s ! i = load s u i" if "slot s u = Some i" for u i
    using inv that by (simp add: inv_count_load)
  have own: "slot s t = Some i \<and> (\<forall>u. slot s u = Some i \<longrightarrow> u = t)" if "pc_count (pc s t) = Some i" for i
    using D(2,4) that by blast
  note upd = inv_count_update [OF inv islot step]
  have leave: "inv_count s'"
    if at: "pc_count (pc s t) = Some i" "pinning (pc s t)" "\<not> pinning (pc s' t)"
      and same: "slot s' = slot s" "registry s' = registry s"
      and p: "\<And>j. pins s' j = pins s j + (if i = j then 1 else 0)" for i
  proof (rule upd [of i "registry s ! i"])
    show "slot s' = slot s" by (rule same)
    show "registry s' = (registry s)[i := registry s ! i]" by (simp add: same)
    show "pins s' j = pins s j" if "j \<noteq> i" for j using p that by simp
    show "slot s t = Some i \<or> pinning (pc s' t) = pinning (pc s t)" using own [OF at(1)] by simp
    show "registry s ! i = load s' u i" if "slot s u = Some i" for u
    proof -
      have "u = t" using own [OF at(1)] that by blast
      then show ?thesis using cnt [OF that] at p by (simp add: load_def)
    qed
  qed
  show ?thesis
    using step
  proof (cases rule: rw_step.cases)
    case (r_push b)
    let ?n = "length (registry s)"
    have "pins s ?n = 0"
      using D(6,7) by (force simp: pins_def count_list_0_iff)
    moreover have "slot s t = None" using D(5) r_push by blast
    ultimately have "registry s' ! j = load s' u j" if "slot s' u = Some j" for u j
      using that D(1) [of u j] cnt [of u j] r_push(2)
      by (cases "u = t") (auto simp: r_push(1) load_def nth_append)
    then show ?thesis by (simp add: inv_count_load)
  next
    case (r_add i b)
    then show ?thesis using own [of i] cnt [of t i]
      by (intro upd [of i "registry s ! i + 1"]) (simp_all add: load_def)
  next
    case (r_undo i b)
    then show ?thesis using own [of i] cnt [of t i]
      by (intro upd [of i "registry s ! i - 1"]) (auto simp: load_def)
  next
    case (r_sub i r)
    then show ?thesis using own [of i] cnt [of t i]
      by (intro upd [of i "registry s ! i - 1"]) (auto simp: load_def)
  next
    case (r_pinned i b c r)
    then show ?thesis by (intro leave [of i]) (simp_all add: pins_def)
  next
    case (r_panic i b c)
    then show ?thesis by (intro leave [of i]) (simp_all add: pins_def)
  next
    case (guard_drop i)
    have p: "pins s j = pins s' j + (if i = j then 1 else 0)" for j
      using pins_unpin [OF guard_drop(3), of j] by (simp add: guard_drop(1))
    show ?thesis using cnt p guard_drop
      by (intro upd [of i "registry s ! i - 1"]) (auto simp: load_def)
  qed (rule inv_count_frame [OF inv step]; simp add: pins_send pins_forget; simp add: pins_def; fail)+
qed

section \<open>Preservation: exclusion, scan, snapshots\<close>

lemma inv_excl_frame:
  assumes inv: "inv_excl s" and step: "rw_step M t s s'"
    and "guards s = [] \<Longrightarrow> guards s' = []"
    and "guards s = [] \<Longrightarrow> leaked s = [] \<Longrightarrow> \<not> in_read (pc s t) \<Longrightarrow> leaked s' = []"
    and r: "in_read (pc s' t) \<Longrightarrow> in_read (pc s t)"
    and w: "w_excl (pc s' t) \<or> wguard s' t \<Longrightarrow> w_excl (pc s t) \<or> wguard s t"
  shows "inv_excl s'"
proof -
  have "in_read (pc s u)" if "in_read (pc s' u)" for u
    using that r step_others(1) [OF step, of u] by (cases "u = t") auto
  moreover have "w_excl (pc s u) \<or> wguard s u" if "w_excl (pc s' u) \<or> wguard s' u" for u
    using that w step_others(1,2) [OF step, of u] by (cases "u = t") auto
  ultimately show ?thesis using inv assms(3,4) unfolding inv_excl_def by blast
qed

text \<open>A scan that has reached the end has seen every counter: nobody reads.\<close>

lemma scan_end:
  assumes "inv_slot s" "inv_scan s" "pc s t = WScan k d" "\<not> k < length (registry s)"
  shows "guards s = []" "leaked s = []" "\<not> in_read (pc s u)"
proof -
  have "k \<le> length (registry s)"
    and seen: "\<And>i u. i < k \<Longrightarrow> pins s i = 0 \<and> (slot s u = Some i \<longrightarrow> \<not> in_read (pc s u))"
    using assms(2,3) unfolding inv_scan_def by blast+
  then have k: "k = length (registry s)" using assms(4) by simp
  have "pins s i = 0" for i
  proof (cases "i < k")
    case True
    then show ?thesis using seen by blast
  next
    case False
    then show ?thesis using inv_slotD(6,7) [OF assms(1)] k
      by (force simp: pins_def count_list_0_iff)
  qed
  then show "guards s = []" "leaked s = []" using pins_eq_0 by blast+
  show "\<not> in_read (pc s u)"
  proof
    assume "in_read (pc s u)"
    then obtain i where "slot s u = Some i"
      using in_read_pinning pinning_count inv_slotD(4) [OF assms(1)] by blast
    with \<open>in_read (pc s u)\<close> show False using seen k inv_slotD(1) [OF assms(1)] by blast
  qed
qed

lemma inv_excl_step:
  assumes wr: "inv_write M s" and fl: "inv_flag s" and islot: "inv_slot s" and sc: "inv_scan s"
    and inv: "inv_excl s" and step: "rw_step M t s s'"
  shows "inv_excl s'"
  using step
proof (cases rule: rw_step.cases)
  case (r_load_free i b)
  then have "\<not> (w_excl (pc s u) \<or> wguard s u)" for u
    using fl w_excl_flag unfolding inv_flag_def by blast
  then have "\<not> (w_excl (pc s' u) \<or> wguard s' u)" for u
    using step_others(1,2) [OF step, of u] r_load_free by (cases "u = t") auto
  then show ?thesis by (simp add: inv_excl_def)
next
  case (w_scan_end k d)
  note none = scan_end [OF islot sc w_scan_end(2,3)]
  have "\<not> in_read (pc s' u)" for u
    using none(3) [of u] step_others(1) [OF step, of u] w_scan_end by (cases "u = t") auto
  then show ?thesis using none(1,2) by (simp add: inv_excl_def w_scan_end(1))
next
  case (r_pinned i b c r)
  then have "\<not> (w_excl (pc s u) \<or> wguard s u)" for u
    using inv unfolding inv_excl_def by (metis in_read.simps(2))
  then have "\<not> (w_excl (pc s' u) \<or> wguard s' u)" for u
    using step_others(1,2) [OF step, of u] r_pinned by (cases "u = t") auto
  then show ?thesis by (simp add: inv_excl_def)
next
  case (guard_forget i)
  then have "guards s \<noteq> []" by auto
  then show ?thesis using inv unfolding inv_excl_def guard_forget(1) by simp
next
  case (guard_send i v)
  then have "guards s \<noteq> []" by auto
  then show ?thesis using inv unfolding inv_excl_def guard_send(1) by simp
qed (rule inv_excl_frame [OF inv step]; simp)+

lemma inv_scan_frame:
  assumes inv: "inv_scan s" and step: "rw_step M t s s'"
    and same: "slot s' = slot s" "length (registry s') = length (registry s)"
    and p: "\<And>i. pins s i = 0 \<Longrightarrow> slot s t \<noteq> Some i \<or> \<not> in_read (pc s t) \<Longrightarrow> pins s' i = 0"
    and r: "in_read (pc s' t) \<Longrightarrow> in_read (pc s t)"
    and w: "\<And>k d. pc s' t \<noteq> WScan k d"
  shows "inv_scan s'"
proof -
  have w': "pc s u = WScan k d" if "pc s' u = WScan k d" for u k d
    using that w step_others(1) [OF step, of u] by (cases "u = t") auto
  have r': "in_read (pc s u)" if "in_read (pc s' u)" for u
    using that r step_others(1) [OF step, of u] by (cases "u = t") auto
  show ?thesis unfolding inv_scan_def same
    using inv w' r' p unfolding inv_scan_def by metis
qed

lemma inv_scan_step:
  assumes fl: "inv_flag s" and reg: "inv_reg M s" and islot: "inv_slot s" and cnt: "inv_count s"
    and room: "has_room s" and inv: "inv_scan s" and step: "rw_step M t s s'"
  shows "inv_scan s'"
proof -
  have own: "slot s t = Some i" if "pc_count (pc s t) = Some i" for i
    using inv_slotD(4) [OF islot] that by blast
  show ?thesis
    using step
  proof (cases rule: rw_step.cases)
    case (r_push b)
    have "\<not> r_owner (pc s u)" if "u \<noteq> t" for u
      using reg that held_by_unique [of M "reg_lock s" "\<lambda>t. r_owner (pc s t)" u t] r_push(2)
      by (auto simp: inv_reg_def)
    then have "pc s' u \<noteq> WScan k d" for u k d
      using step_others(1) [OF step, of u] r_push by (cases "u = t") fastforce+
    then show ?thesis by (simp add: inv_scan_def)
  next
    case (r_load_free i b)
    then have "\<not> w_flag (pc s u)" for u using fl unfolding inv_flag_def by blast
    then have "pc s u \<noteq> WScan k d" for u k d by (metis w_flag.simps(2))
    then have "pc s' u \<noteq> WScan k d" for u k d
      using step_others(1) [OF step, of u] r_load_free by (cases "u = t") simp_all
    then show ?thesis by (simp add: inv_scan_def)
  next
    case (w_reg_lock d l)
    then have "pc s u = WScan k e \<or> k = 0" if "pc s' u = WScan k e" for u k e
      using that step_others(1) [OF step, of u] by (cases "u = t") auto
    moreover have "in_read (pc s u)" if "in_read (pc s' u)" for u
      using that step_others(1) [OF step, of u] w_reg_lock by (cases "u = t") auto
    ultimately show ?thesis using inv unfolding inv_scan_def w_reg_lock(1)
      by (simp del: fun_upd_apply) (metis le0 less_nat_zero_code)
  next
    case (w_scan_zero k d)
    have r: "in_read (pc s u)" if "in_read (pc s' u)" for u
      using that step_others(1) [OF step, of u] w_scan_zero by (cases "u = t") auto
    have "pins s k = 0 \<and> \<not> pinning (pc s u)" if u: "slot s u = Some k" for u
    proof -
      have "pins s k + (if pinning (pc s u) then 1 else 0) < 2 ^ 64"
        using room w_scan_zero(3) by (auto simp: has_room_def)
      moreover have "(of_nat (pins s k + (if pinning (pc s u) then 1 else 0)) :: usize) = 0"
        using cnt u w_scan_zero(4) by (simp add: inv_count_def del: of_nat_add)
      ultimately have "pins s k + (if pinning (pc s u) then 1 else 0) = 0"
        using of_nat_usize_eq_0 by blast
      then show ?thesis by (auto split: if_splits)
    qed
    then have k: "pins s k = 0" "\<And>u. slot s u = Some k \<Longrightarrow> \<not> in_read (pc s u)"
      using inv_slotD(3) [OF islot w_scan_zero(3)] in_read_pinning by blast+
    have "pc s u = WScan j e \<or> u = t \<and> j = Suc k" if "pc s' u = WScan j e" for u j e
      using that step_others(1) [OF step, of u] w_scan_zero by (cases "u = t") auto
    moreover have "pins s' = pins s" "slot s' = slot s" "registry s' = registry s"
      by (auto simp: w_scan_zero(1))
    ultimately show ?thesis using inv r k w_scan_zero(2,3) unfolding inv_scan_def
      by (metis Suc_leI less_SucE)
  next
    case (guard_drop i)
    have "pins s j = pins s' j + (if i = j then 1 else 0)" for j
      using pins_unpin [OF guard_drop(3), of j] by (simp add: guard_drop(1))
    then show ?thesis using guard_drop
      by (intro inv_scan_frame [OF inv step]) auto
  qed (rule inv_scan_frame [OF inv step]; insert own;
      auto simp: pins_send pins_forget split: if_splits; simp add: pins_def)+
qed

lemma inv_snap_frame:
  assumes inv: "inv_snap s" and step: "rw_step M t s s'" and "dirty s' = dirty s"
    and "\<And>i b c. pc s' t = RFinish i b c \<Longrightarrow> c = dirty s"
    and "\<And>b c. pc s' t = WCommit b c \<Longrightarrow> c = dirty s"
  shows "inv_snap s'"
proof -
  have "c = dirty s" if "pc s' u = RFinish i b c" for u i b c
    using inv that assms(4) step_others(1) [OF step, of u] unfolding inv_snap_def
    by (cases "u = t") auto
  moreover have "c = dirty s" if "pc s' u = WCommit b c" for u b c
    using inv that assms(5) step_others(1) [OF step, of u] unfolding inv_snap_def
    by (cases "u = t") auto
  ultimately show ?thesis using assms(3) by (auto simp: inv_snap_def)
qed

text \<open>While a thread may write the contents, no other access is under way.\<close>

lemma excl_alone:
  assumes wr: "inv_write M s" and ex: "inv_excl s" and t: "w_excl (pc s t) \<or> wguard s t"
  shows "guards s = []" "leaked s = []" "\<not> in_read (pc s u)"
    and "u \<noteq> t \<Longrightarrow> \<not> w_owner (pc s u) \<and> \<not> wguard s u"
proof -
  show "guards s = []" "leaked s = []" "\<not> in_read (pc s u)"
    using ex t unfolding inv_excl_def by blast+
  have "held_by M (write_mutex s) (\<lambda>t. w_owner (pc s t) \<or> wguard s t)"
    using wr by (simp add: inv_write_def)
  moreover have "w_owner (pc s t) \<or> wguard s t" using t w_excl_flag w_flag_owner by blast
  ultimately have "w_owner (pc s u) \<or> wguard s u \<Longrightarrow> t = u" by (rule held_by_unique)
  then show "u \<noteq> t \<Longrightarrow> \<not> w_owner (pc s u) \<and> \<not> wguard s u" by blast
qed

lemma inv_snap_store:
  assumes wr: "inv_write M s" and ex: "inv_excl s" and t: "w_excl (pc s t) \<or> wguard s t"
    and step: "rw_step M t s s'" and own: "\<And>c b. pc s' t \<noteq> WCommit b c" "\<not> in_read (pc s' t)"
  shows "inv_snap s'"
proof -
  note alone = excl_alone [OF wr ex t]
  have "pc s' u \<noteq> RFinish i b c" for u i b c
    using alone(3) [of u] own step_others(1) [OF step, of u] by (cases "u = t") auto
  moreover have "pc s' u \<noteq> WCommit b c" for u b c
    using alone(4) [of u] own step_others(1) [OF step, of u] by (cases "u = t") auto
  ultimately show ?thesis by (simp add: inv_snap_def)
qed

lemma inv_snap_step:
  assumes wr: "inv_write M s" and ex: "inv_excl s" and inv: "inv_snap s"
    and step: "rw_step M t s s'"
  shows "inv_snap s'"
  using step
proof (cases rule: rw_step.cases)
  case (w_held d c c' r)
  then show ?thesis by (intro inv_snap_store [OF wr ex _ step]) simp_all
next
  case (w_finished d c c' r)
  then show ?thesis by (intro inv_snap_store [OF wr ex _ step]) simp_all
next
  case (w_panic d c c')
  then show ?thesis by (intro inv_snap_store [OF wr ex _ step]) simp_all
next
  case (wguard_write f)
  then show ?thesis by (intro inv_snap_store [OF wr ex _ step]) simp_all
qed (rule inv_snap_frame [OF inv step]; simp)+

theorem rw_inv_step:
  assumes "mutex_laws M" "rw_inv M s" "has_room s" "rw_step M t s s'"
  shows "rw_inv M s'"
proof -
  note M = assms(1) and step = assms(4)
  from assms(2) have i: "inv_write M s" "inv_flag s" "inv_reg M s" "inv_slot s" "inv_count s"
    "inv_excl s" "inv_scan s" "inv_snap s"
    by (simp_all add: rw_inv_def)
  show ?thesis
    unfolding rw_inv_def
    using inv_write_step [OF M i(1) step] inv_flag_step [OF i(1,2) step]
      inv_reg_step [OF M i(3) step] inv_slot_step [OF i(4) step] inv_count_step [OF i(5,4) step]
      inv_excl_step [OF i(1,2,4,7,6) step]
      inv_scan_step [OF i(2,3,4,5) assms(3) i(7) step] inv_snap_step [OF i(1,6,8) step]
    by (intro conjI)
qed

section \<open>Reachable states\<close>

text \<open>
  The states of a container that is created with contents \<open>c\<close> and then used by any number of
  threads.  Besides the atomic actions, the owner of the container may use it through
  \<open>&mut self\<close> (\<open>push_mut\<close>, \<open>insert_mut\<close>, ...): the borrow checker allows that only while no
  call runs and no guard is alive.  Every state that is passed has room in its counters.
\<close>

inductive reach :: "'l mutex_ops \<Rightarrow> 'c \<Rightarrow> ('c, 'l, 'r) sys \<Rightarrow> bool"
  for M :: "'l mutex_ops" and c :: 'c where
  reach_new: "reach M c (sys_with M i c)"
| reach_step: "reach M c s \<Longrightarrow> rw_step M t s s' \<Longrightarrow> has_room s' \<Longrightarrow> reach M c s'"
| reach_owned: "reach M c s \<Longrightarrow> \<forall>t. pc s t = Idle \<and> \<not> wguard s t \<Longrightarrow> guards s = [] \<Longrightarrow>
     reach M c (write_through f s)"

lemma rw_inv_new: "mutex_laws M \<Longrightarrow> rw_inv M (sys_with M i c)"
  by (auto simp: rw_inv_def inv_defs held_by_new)

lemma has_room_new: "has_room (sys_with M i c)"
  by (simp add: has_room_def)

lemma has_room_write_through [simp]: "has_room (write_through f s) = has_room s"
  by (simp add: has_room_def write_through_def log_event_def)

lemma rw_inv_owned:
  assumes "rw_inv M s" "\<forall>t. pc s t = Idle \<and> \<not> wguard s t"
  shows "rw_inv M (write_through f s)"
  using assms by (auto simp: rw_inv_def inv_defs write_through_def log_event_def)

theorem reach_rw_inv:
  assumes "mutex_laws M" "reach M c s"
  shows "rw_inv M s" "has_room s"
  using assms(2)
  by (induction rule: reach.induct)
    (auto intro: rw_inv_new [OF assms(1)] has_room_new rw_inv_step [OF assms(1)] rw_inv_owned)

end
