(* ===== verification/Rw_Safety.thy ===== *)
theory Rw_Safety
  imports Rw_Invariant
begin

text \<open>
  What the reader/writer protocol guarantees in every reachable state: exclusion of accesses,
  stability of the contents under a guard, linearizability of the calls, refinement of an
  abstract reader/writer lock, and the ways in which a thread can wait for ever.
\<close>

section \<open>Exclusion\<close>

text \<open>An access to the contents by a call in progress.\<close>

fun reads :: "('c, 'r) pc \<Rightarrow> bool" where
  "reads (RBody i b) = True"
| "reads (RFinish i b c) = True"
| "reads _ = False"

fun writes :: "('c, 'r) pc \<Rightarrow> bool" where
  "writes (WBody d) = True"
| "writes (WCommit d c) = True"
| "writes _ = False"

lemma reads_in_read: "reads p \<Longrightarrow> in_read p"
  by (cases p) simp_all

lemma writes_excl: "writes p \<Longrightarrow> w_excl p"
  by (cases p) simp_all

lemma w_excl_owner: "w_excl p \<Longrightarrow> w_owner p"
  by (cases p) simp_all

text \<open>The thread may write: it is in the body of a writing method or owns a write guard.\<close>

definition may_write :: "('c, 'l, 'r) sys \<Rightarrow> tid \<Rightarrow> bool" where
  "may_write s t \<longleftrightarrow> writes (pc s t) \<or> wguard s t"

text \<open>
  The thread may read under a slot: it is in the body of a reading method or owns a read guard.
  \<open>Index::index\<close> and \<open>get_uncheck\<close> read without a slot and are not among these reads.
\<close>

definition may_read :: "('c, 'l, 'r) sys \<Rightarrow> tid \<Rightarrow> bool" where
  "may_read s t \<longleftrightarrow> reads (pc s t) \<or> (\<exists>i. (t, i) \<in> set (guards s))"

lemma may_write_excl: "may_write s t \<Longrightarrow> w_excl (pc s t) \<or> wguard s t"
  using writes_excl by (auto simp: may_write_def)

lemma reach_alone:
  assumes "mutex_laws M" and "reach M c s" and "w_excl (pc s t) \<or> wguard s t"
  shows "guards s = []" "leaked s = []" "\<not> in_read (pc s u)"
    and "u \<noteq> t \<Longrightarrow> \<not> w_owner (pc s u) \<and> \<not> wguard s u"
  using excl_alone [OF _ _ assms(3)] reach_rw_inv(1) [OF assms(1,2)] by (auto simp: rw_inv_def)

lemma inv_exclusive:
  assumes "inv_write M s" "inv_excl s" "may_write s t"
  shows "\<not> may_read s u \<and> (may_write s u \<longrightarrow> u = t)"
proof -
  note alone = excl_alone [OF assms(1,2) may_write_excl [OF assms(3)]]
  have "\<not> may_read s u" using alone(1,3) reads_in_read by (auto simp: may_read_def)
  moreover have "may_write s u \<longrightarrow> u = t"
    using alone(4) [of u] writes_excl w_excl_owner by (auto simp: may_write_def)
  ultimately show ?thesis by blast
qed

lemma reach_exclusive:
  assumes "mutex_laws M" "reach M c s" "may_write s t"
  shows "\<not> may_read s u \<and> (may_write s u \<longrightarrow> u = t)"
  using inv_exclusive [OF _ _ assms(3)] reach_rw_inv(1) [OF assms(1,2)] by (auto simp: rw_inv_def)

text \<open>
  Property C1.  Mutual exclusion of all synchronised accesses: in every reachable state, while
  one thread is in the body of a writing method or owns a write guard, no thread is in the body of
  a reading method that holds a reader slot, none owns a read guard, and no other thread may write.
  (\<open>Index::index\<close> and \<open>get_uncheck\<close> hold no slot; they are not covered, and they do race.)
\<close>

theorem no_data_race:
  assumes "mutex_laws M" and "reach M c s" and "may_write s t"
  shows "\<not> may_read s u \<and> (may_write s u \<longrightarrow> u = t)"
  using assms by (rule reach_exclusive)

section \<open>Stability under a guard\<close>

lemma dirty_changes_excl:
  assumes "rw_step M t s s'" "dirty s' \<noteq> dirty s"
  shows "w_excl (pc s t) \<or> wguard s t"
  using assms by (cases rule: rw_step.cases) simp_all

text \<open>
  Property C12.  While a read guard is alive (or a slot is lost), on whatever thread, no step of
  any thread changes the contents: what the guard refers to stays as it is.
\<close>

theorem guard_pins_contents:
  assumes "mutex_laws M" and "reach M c s" and "(u, i) \<in> set (guards s) \<or> i \<in> set (leaked s)"
    and "rw_step M t s s'"
  shows "dirty s' = dirty s"
proof (rule ccontr)
  assume "dirty s' \<noteq> dirty s"
  then have "w_excl (pc s t) \<or> wguard s t" by (rule dirty_changes_excl [OF assms(4)])
  then have "guards s = []" "leaked s = []" using reach_alone [OF assms(1,2)] by blast+
  with assms(3) show False by simp
qed

section \<open>Linearizability\<close>

text \<open>
  A history explains a state when running its events one after the other on the initial
  contents gives each call the result it had and ends in the contents of the state.
\<close>

fun replay :: "('c, 'r) event list \<Rightarrow> 'c \<Rightarrow> 'c option" where
  "replay [] c = Some c"
| "replay (EvRead b r # es) c = (if b c = r then replay es c else None)"
| "replay (EvWrite d w # es) c = (if snd (d c) = w then replay es (fst (d c)) else None)"
| "replay (EvModify f # es) c = replay es (f c)"

lemma replay_append:
  "replay (es @ fs) c = (case replay es c of None \<Rightarrow> None | Some c' \<Rightarrow> replay fs c')"
  by (induction es c rule: replay.induct) auto

lemma replay_step:
  assumes "inv_snap s" "replay (hist s) c = Some (dirty s)" "rw_step M t s s'"
  shows "replay (hist s') c = Some (dirty s')"
  using assms(3)
proof (cases rule: rw_step.cases)
  case (r_pinned i b x r)
  moreover have "x = dirty s" using assms(1) r_pinned(2) unfolding inv_snap_def by blast
  ultimately show ?thesis using assms(2) by (simp add: replay_append)
next
  case (r_unpinned i b x r)
  moreover have "x = dirty s" using assms(1) r_unpinned(2) unfolding inv_snap_def by blast
  ultimately show ?thesis using assms(2) by (simp add: replay_append)
next
  case (r_unwound i b x)
  moreover have "x = dirty s" using assms(1) r_unwound(2) unfolding inv_snap_def by blast
  ultimately show ?thesis using assms(2) by (simp add: replay_append)
next
  case (r_panic i b x)
  moreover have "x = dirty s" using assms(1) r_panic(2) unfolding inv_snap_def by blast
  ultimately show ?thesis using assms(2) by (simp add: replay_append)
next
  case (w_held d x c' r)
  moreover have "x = dirty s" using assms(1) w_held(2) unfolding inv_snap_def by blast
  ultimately show ?thesis using assms(2) by (simp add: replay_append)
next
  case (w_finished d x c' r)
  moreover have "x = dirty s" using assms(1) w_finished(2) unfolding inv_snap_def by blast
  ultimately show ?thesis using assms(2) by (simp add: replay_append)
next
  case (w_panic d x c')
  moreover have "x = dirty s" using assms(1) w_panic(2) unfolding inv_snap_def by blast
  ultimately show ?thesis using assms(2) by (simp add: replay_append)
qed (use assms(2) in \<open>simp_all add: replay_append\<close>)

lemma replay_reach:
  assumes "mutex_laws M" and "reach M c s"
  shows "replay (hist s) c = Some (dirty s)"
  using assms(2)
proof (induction rule: reach.induct)
  case (reach_step s t s')
  have "inv_snap s"
    using reach_rw_inv(1) [OF assms(1) reach_step(1)] by (simp add: rw_inv_def)
  then show ?case using reach_step(4,2) by (rule replay_step)
next
  case (reach_owned s f)
  then show ?case by (simp add: write_through_def log_event_def replay_append)
qed simp

text \<open>The writing accesses of a history; the reading ones do not change the contents.\<close>

fun is_write :: "('c, 'r) event \<Rightarrow> bool" where
  "is_write (EvRead b r) = False"
| "is_write (EvWrite d w) = True"
| "is_write (EvModify f) = True"

lemma replay_writes: "replay es c = Some c' \<Longrightarrow> replay (filter is_write es) c = Some c'"
  by (induction es c rule: replay.induct) (auto split: if_splits)

text \<open>Each event of the history saw the contents that the events before it produced.\<close>

lemma replay_prefix:
  assumes "replay (es @ e # fs) c = Some c'"
  obtains d where "replay es c = Some d" "replay (e # fs) d = Some c'"
  using assms by (auto simp: replay_append split: option.splits)

text \<open>
  Property C2.  Linearizability: the history of a reachable state, replayed one access after
  the other from the initial contents, gives every call the result that it had, and it ends in
  the present contents.
\<close>

theorem calls_linearize:
  assumes "mutex_laws M" and "reach M c s"
  shows "replay (hist s) c = Some (dirty s)"
  using assms by (rule replay_reach)

section \<open>Writers keep new readers out\<close>

text \<open>Once the flag is up, no thread that is not reading already can begin to.\<close>

theorem writer_bars_readers:
  assumes "writing s" and "rw_step M t s s'" and "in_read (pc s' u)"
  shows "in_read (pc s u)"
proof (cases "u = t")
  case True
  show ?thesis using assms(2) True assms(1,3) by (cases rule: rw_step.cases) simp_all
next
  case False
  then show ?thesis using step_others(1) [OF assms(2)] assms(3) by simp
qed

section \<open>The size of the registry\<close>

text \<open>
  The registry has one counter for every thread that has ever read the container, and none is
  ever removed: a writer's scan takes as many loads as there have been reading threads.
\<close>

lemma registry_size:
  assumes "mutex_laws M" and "reach M c s"
  shows "card {t. slot s t \<noteq> None} = length (registry s) \<and> finite {t. slot s t \<noteq> None}"
proof -
  have inv: "inv_slot s" using reach_rw_inv(1) [OF assms] by (simp add: rw_inv_def)
  have "inj_on (\<lambda>t. the (slot s t)) {t. slot s t \<noteq> None}"
    using inv_slotD(2) [OF inv] by (auto simp: inj_on_def)
  moreover have "(\<lambda>t. the (slot s t)) ` {t. slot s t \<noteq> None} = {..< length (registry s)}"
    using inv_slotD(1,3) [OF inv] by force
  ultimately have "bij_betw (\<lambda>t. the (slot s t)) {t. slot s t \<noteq> None} {..< length (registry s)}"
    by (simp add: bij_betw_def)
  then show ?thesis using bij_betw_same_card bij_betw_finite by fastforce
qed

section \<open>Refinement of an abstract reader/writer lock\<close>

text \<open>
  The contract of the protocol, without counters, flags or mutexes: the contents, who reads,
  which guards live, which slots are lost for good, and who writes.
\<close>

record 'c rw_spec =
  content :: 'c
  readers :: "tid set"
  pinned :: "(tid \<times> nat) list"
  lost :: "nat list"
  writers :: "tid set"

inductive rw_spec_step :: "'c rw_spec \<Rightarrow> 'c rw_spec \<Rightarrow> bool" for a :: "'c rw_spec" where
  spec_enter_read: "writers a = {} \<Longrightarrow> rw_spec_step a (a\<lparr>readers := insert t (readers a)\<rparr>)"
| spec_leave_read: "t \<in> readers a \<Longrightarrow> rw_spec_step a (a\<lparr>readers := readers a - {t}\<rparr>)"
| spec_pin: "t \<in> readers a \<Longrightarrow>
    rw_spec_step a (a\<lparr>readers := readers a - {t}, pinned := (t, i) # pinned a\<rparr>)"
| spec_lose: "t \<in> readers a \<Longrightarrow>
    rw_spec_step a (a\<lparr>readers := readers a - {t}, lost := i # lost a\<rparr>)"
| spec_unpin: "g \<in> set (pinned a) \<Longrightarrow> rw_spec_step a (a\<lparr>pinned := remove1 g (pinned a)\<rparr>)"
| spec_send: "(t, i) \<in> set (pinned a) \<Longrightarrow>
    rw_spec_step a (a\<lparr>pinned := (u, i) # remove1 (t, i) (pinned a)\<rparr>)"
| spec_forget: "(t, i) \<in> set (pinned a) \<Longrightarrow>
    rw_spec_step a (a\<lparr>pinned := remove1 (t, i) (pinned a), lost := i # lost a\<rparr>)"
| spec_enter_write: "readers a = {} \<Longrightarrow> pinned a = [] \<Longrightarrow> lost a = [] \<Longrightarrow> writers a = {} \<Longrightarrow>
    rw_spec_step a (a\<lparr>writers := {t}\<rparr>)"
| spec_modify: "t \<in> writers a \<Longrightarrow> rw_spec_step a (a\<lparr>content := c\<rparr>)"
| spec_leave_write: "writers a = {t} \<Longrightarrow> rw_spec_step a (a\<lparr>writers := {}\<rparr>)"

definition rw_abs :: "('c, 'l, 'r) sys \<Rightarrow> 'c rw_spec" where
  "rw_abs s = \<lparr>content = dirty s, readers = {t. in_read (pc s t)}, pinned = guards s,
     lost = leaked s, writers = {t. w_excl (pc s t) \<or> wguard s t}\<rparr>"

lemma rw_abs_step:
  assumes "rw_step M t s s'"
  shows "{u. in_read (pc s' u)} =
      (if in_read (pc s' t) then insert t {u. in_read (pc s u)} else {u. in_read (pc s u)} - {t})"
    and "{u. w_excl (pc s' u) \<or> wguard s' u} =
      (if w_excl (pc s' t) \<or> wguard s' t then insert t {u. w_excl (pc s u) \<or> wguard s u}
       else {u. w_excl (pc s u) \<or> wguard s u} - {t})"
  using step_others(1,2) [OF assms] by (auto, metis+)

lemma scan_finds_nobody:
  assumes "rw_inv M s" "pc s t = WScan k d" "\<not> k < length (registry s)"
  shows "guards s = []" "leaked s = []" "\<not> in_read (pc s u)" "\<not> w_excl (pc s u)" "\<not> wguard s u"
proof -
  have inv: "inv_slot s" "inv_scan s" "inv_write M s"
    using assms(1) by (simp_all add: rw_inv_def)
  show "guards s = []" "leaked s = []" "\<not> in_read (pc s u)"
    using scan_end [OF inv(1,2) assms(2,3)] by blast+
  have "held_by M (write_mutex s) (\<lambda>t. w_owner (pc s t) \<or> wguard s t)" "\<not> wguard s t"
    using inv(3) assms(2) by (auto simp: inv_write_def)
  moreover from this(1) have "w_owner (pc s u) \<or> wguard s u \<Longrightarrow> t = u"
    by (rule held_by_unique) (simp_all add: assms(2))
  ultimately show "\<not> w_excl (pc s u)" "\<not> wguard s u"
    using w_excl_owner [of "pc s u"] assms(2) by auto
qed

text \<open>
  Property C3.  Every atomic action of the protocol is a step of the abstract lock, or none: the
  counters, the flag and the two mutexes implement it.
\<close>

theorem rw_refines_spec:
  assumes "mutex_laws M" and "reach M c s" and "rw_step M t s s'"
  shows "rw_abs s' = rw_abs s \<or> rw_spec_step (rw_abs s) (rw_abs s')"
proof -
  let ?W = "{u. w_excl (pc s u) \<or> wguard s u}" and ?R = "{u. in_read (pc s u)}"
  have abs: "rw_abs s' = \<lparr>content = dirty s',
     readers = (if in_read (pc s' t) then insert t ?R else ?R - {t}), pinned = guards s',
     lost = leaked s', writers = (if w_excl (pc s' t) \<or> wguard s' t then insert t ?W else ?W - {t})\<rparr>"
    unfolding rw_abs_def rw_abs_step [OF assms(3)] by simp
  have inv: "rw_inv M s" using reach_rw_inv(1) [OF assms(1,2)] .
  have W: "?W = {t}" if "w_excl (pc s t) \<or> wguard s t"
    using reach_alone(4) [OF assms(1,2) that] w_excl_owner that by blast
  have nw: "w_owner (pc s t) \<Longrightarrow> \<not> wguard s t" using inv by (simp add: rw_inv_def inv_write_def)
  have via: ?thesis if "rw_spec_step (rw_abs s) a" "rw_abs s' = a" for a
    using that by simp
  show ?thesis
    using assms(3)
  proof (cases rule: rw_step.cases)
    case (r_load_free i b)
    then have "?W = {}" using inv w_excl_flag unfolding rw_inv_def inv_flag_def by blast
    with r_load_free show ?thesis
      by (intro via [OF spec_enter_read [of _ t]]) (auto simp: abs rw_abs_def)
  next
    case (w_scan_end k d)
    note none = scan_finds_nobody [OF inv w_scan_end(2,3)]
    show ?thesis using w_scan_end none
      by (intro via [OF spec_enter_write [of _ t]]) (auto simp: abs rw_abs_def)
  next
    case (w_clear x)
    then show ?thesis by (intro via [OF spec_leave_write [of _ t]]) (insert W nw, auto simp: abs rw_abs_def)
  next
    case (r_sub i r)
    then show ?thesis by (intro via [OF spec_leave_read [of t]]) (insert W nw, auto simp: abs rw_abs_def)
  next
    case (r_pinned i b c r)
    then show ?thesis by (intro via [OF spec_pin [of t _ i]]) (insert W nw, auto simp: abs rw_abs_def)
  next
    case (r_panic i b c)
    then show ?thesis by (intro via [OF spec_lose [of t _ i]]) (insert W nw, auto simp: abs rw_abs_def)
  next
    case (w_held d c c' r)
    then show ?thesis by (intro via [OF spec_modify [of t]]) (insert W nw, auto simp: abs rw_abs_def)
  next
    case (w_finished d c c' r)
    then show ?thesis by (intro via [OF spec_modify [of t]]) (insert W nw, auto simp: abs rw_abs_def)
  next
    case (w_panic d c c')
    then show ?thesis by (intro via [OF spec_modify [of t]]) (insert W nw, auto simp: abs rw_abs_def)
  next
    case (wguard_write f)
    then show ?thesis by (intro via [OF spec_modify [of t]]) (insert W nw, auto simp: abs rw_abs_def)
  next
    case (guard_drop i)
    then show ?thesis by (intro via [OF spec_unpin [of "(t, i)"]]) (insert W nw, auto simp: abs rw_abs_def)
  next
    case (guard_send i v)
    then show ?thesis by (intro via [OF spec_send [of t i _ v]]) (insert W nw, auto simp: abs rw_abs_def)
  next
    case (guard_forget i)
    then show ?thesis by (intro via [OF spec_forget [of t i]]) (insert W nw, auto simp: abs rw_abs_def)
  qed (rule disjI1; insert W nw; auto simp: abs rw_abs_def; fail)+
qed

section \<open>Waiting for ever\<close>

text \<open>The states that can follow a state (every one of them with room in the counters).\<close>

inductive later :: "'l mutex_ops \<Rightarrow> ('c, 'l, 'r) sys \<Rightarrow> ('c, 'l, 'r) sys \<Rightarrow> bool"
  for M :: "'l mutex_ops" and s :: "('c, 'l, 'r) sys" where
  later_refl: "later M s s"
| later_step: "later M s s' \<Longrightarrow> rw_step M t s' s'' \<Longrightarrow> has_room s'' \<Longrightarrow> later M s s''"

lemma reach_later: "later M s s' \<Longrightarrow> reach M c s \<Longrightarrow> reach M c s'"
  by (induction rule: later.induct) (auto intro: reach_step)

lemma later_invariant:
  assumes "later M s s'" "reach M c s" "P s"
    and "\<And>s t s'. reach M c s \<Longrightarrow> rw_step M t s s' \<Longrightarrow> P s \<Longrightarrow> P s'"
  shows "P s'"
  using assms by (induction rule: later.induct) (blast intro: reach_later)+

text \<open>A writing method that is still waiting for its turn; a reading one likewise.\<close>

fun awaits_write :: "('c, 'r) pc \<Rightarrow> bool" where
  "awaits_write (WLock d) = True"
| "awaits_write (WStore d) = True"
| "awaits_write (WRegLock d) = True"
| "awaits_write (WScan k d) = True"
| "awaits_write (WRetry d) = True"
| "awaits_write _ = False"

fun awaits_read :: "('c, 'r) pc \<Rightarrow> bool" where
  "awaits_read (RSlot b) = True"
| "awaits_read (RPush b) = True"
| "awaits_read (RAdd i b) = True"
| "awaits_read (RLoad i b) = True"
| "awaits_read (RUndo i b) = True"
| "awaits_read _ = False"

text \<open>The writer has raised the flag and scans.\<close>

definition scanning :: "('c, 'r) pc \<Rightarrow> bool" where
  "scanning p \<longleftrightarrow> awaits_write p \<and> w_flag p"

lemma scanning_simps [simp]:
  "scanning (WRegLock d)" "scanning (WScan k d)" "scanning (WRetry d)"
  by (simp_all add: scanning_def)

lemma guard_stays:
  assumes "rw_step M u s s'" "(t, i) \<in> set (guards s)" "pc s t \<noteq> Idle"
  shows "(t, i) \<in> set (guards s')"
  using assms by (cases "t = u"; cases rule: rw_step.cases) (auto simp: in_set_remove1)

lemma awaits_write_stays:
  assumes "rw_inv M s" "rw_step M u s s'" "guards s \<noteq> [] \<or> leaked s \<noteq> []" "awaits_write (pc s t)"
  shows "awaits_write (pc s' t)" "w_flag (pc s t) \<Longrightarrow> w_flag (pc s' t)"
proof -
  have "awaits_write (pc s' t) \<and> (w_flag (pc s t) \<longrightarrow> w_flag (pc s' t))"
  proof (cases "t = u")
    case True
    show ?thesis
      using assms(2)
    proof (cases rule: rw_step.cases)
      case (w_scan_end k d)
      then show ?thesis using scan_finds_nobody(1,2) [OF assms(1) w_scan_end(2,3)] assms(3) by blast
    qed (use assms(4) True in simp_all)
  next
    case False
    then show ?thesis using step_others(1) [OF assms(2) False] assms(4) by simp
  qed
  then show "awaits_write (pc s' t)" "w_flag (pc s t) \<Longrightarrow> w_flag (pc s' t)" by blast+
qed

text \<open>
  A thread that calls a writing method while it owns a read guard of the same
  container waits for ever: in every state that can follow it still waits, and still owns it.
\<close>

theorem write_under_own_guard_deadlocks:
  assumes "mutex_laws M" and "reach M c s" and "(t, i) \<in> set (guards s)"
    and "awaits_write (pc s t)" and "later M s s'"
  shows "awaits_write (pc s' t) \<and> (t, i) \<in> set (guards s')"
proof (rule later_invariant [OF assms(5,2)])
  show "awaits_write (pc s t) \<and> (t, i) \<in> set (guards s)" using assms(3,4) by blast
  fix s u s'
  assume "reach M c s" "rw_step M u s s'" "awaits_write (pc s t) \<and> (t, i) \<in> set (guards s)"
  then show "awaits_write (pc s' t) \<and> (t, i) \<in> set (guards s')"
    using awaits_write_stays(1) [OF reach_rw_inv(1) [OF assms(1)]] guard_stays
    by (metis awaits_write.simps(6) empty_iff list.set(1))
qed

lemma awaits_read_stays:
  assumes "rw_inv M s" "rw_step M u s s'" "scanning (pc s w)" "awaits_read (pc s t)"
  shows "awaits_read (pc s' t)"
proof (cases "t = u")
  case True
  have "writing s" using assms(1,3) unfolding rw_inv_def inv_flag_def scanning_def by blast
  show ?thesis using assms(2) by (cases rule: rw_step.cases) (use \<open>writing s\<close> assms(4) True in simp_all)
next
  case False
  then show ?thesis using step_others(1) [OF assms(2) False] assms(4) by simp
qed

text \<open>
  Property C31.  A nested read can wait for ever: if a thread that owns a read guard calls a reading
  method while a writer scans the registry, then in every state that can follow the reader still
  retries, the writer still scans, and the guard is still alive.
\<close>

theorem nested_read_livelocks:
  assumes "mutex_laws M" and "reach M c s" and "(t, i) \<in> set (guards s)"
    and "awaits_read (pc s t)" and "scanning (pc s w)" and "later M s s'"
  shows "awaits_read (pc s' t) \<and> scanning (pc s' w) \<and> (t, i) \<in> set (guards s')"
proof (rule later_invariant [OF assms(6,2)])
  let ?P = "\<lambda>s. awaits_read (pc s t) \<and> scanning (pc s w) \<and> (t, i) \<in> set (guards s)"
  show "?P s" using assms(3-5) by blast
  fix s u s'
  assume r: "reach M c s" and step: "rw_step M u s s'" and P: "?P s"
  have inv: "rw_inv M s" using reach_rw_inv(1) [OF assms(1) r] .
  have g: "guards s \<noteq> [] \<or> leaked s \<noteq> []" using P by auto
  have "scanning (pc s' w)" using awaits_write_stays [OF inv step g] P by (simp add: scanning_def)
  moreover have "(t, i) \<in> set (guards s')" using guard_stays [OF step] P by fastforce
  ultimately show "?P s'" using awaits_read_stays [OF inv step] P by blast
qed

text \<open>A slot that is lost for good keeps every writer out for good, and the contents as they are.\<close>

lemma leaked_freezes:
  assumes "mutex_laws M" and "reach M c s" and "leaked s \<noteq> []" and "later M s s'"
  shows "dirty s' = dirty s \<and> leaked s' \<noteq> [] \<and> \<not> may_write s' t"
proof -
  let ?P = "\<lambda>s'. dirty s' = dirty s \<and> leaked s' \<noteq> []"
  have P: "?P s'"
  proof (rule later_invariant [OF assms(4,2)])
    show "?P s" using assms(3) by blast
    fix x u x'
    assume r: "reach M c x" and step: "rw_step M u x x'" and P: "?P x"
    have "dirty x' = dirty x"
      using dirty_changes_excl [OF step] reach_alone(2) [OF assms(1) r] P by blast
    moreover have "leaked x' \<noteq> []" using step P by (cases rule: rw_step.cases) simp_all
    ultimately show "?P x'" using P by simp
  qed
  moreover have "\<not> may_write s' t"
    using reach_alone(2) [OF assms(1) reach_later [OF assms(4,2)]] may_write_excl P by blast
  ultimately show ?thesis by blast
qed

text \<open>
  A reader slot that nobody will release (a panic in user code under
  \<open>begin_read\<close>, a forgotten guard) keeps every later writer waiting: in every state that can
  follow, the contents are the same and no thread may write them.
\<close>

theorem lost_slot_freezes:
  assumes "mutex_laws M" and "reach M c s" and "leaked s \<noteq> []" and "later M s s'"
  shows "dirty s' = dirty s \<and> leaked s' \<noteq> [] \<and> \<not> may_write s' t"
  using assms by (rule leaked_freezes)

end
