(* ===== verification/Rw_Solo.thy ===== *)
theory Rw_Solo
  imports Rw_Safety
begin

text \<open>
  Runs of the protocol: schedules reach reachable states, and a call that runs with nobody in
  its way returns after a bounded number of atomic actions with the result and the effect that
  its body has on the contents.
\<close>

section \<open>Schedules\<close>

lemma pins_step:
  assumes "rw_step M t s s'"
  shows "pins s' i \<le> Suc (pins s i)"
  using assms
proof (cases rule: rw_step.cases)
  case (guard_drop j)
  then show ?thesis using pins_unpin [OF guard_drop(3), of i] by simp
qed (simp_all add: pins_send pins_forget, simp_all add: pins_def)

lemma later_trans: "later M s2 s3 \<Longrightarrow> later M s1 s2 \<Longrightarrow> later M s1 s3"
  by (induction rule: later.induct) (auto intro: later_step)

text \<open>A schedule of fewer than \<open>2 ^ 64 - 1\<close> actions cannot wrap a counter around.\<close>

lemma perform_all_later:
  assumes "\<And>i. pins s i + length as + 1 < 2 ^ 64" "perform_all M as s = Some s'"
  shows "later M s s'"
  using assms
proof (induction as arbitrary: s)
  case (Cons a as)
  obtain t x where a: "a = (t, x)" by (cases a)
  then obtain s1 where s1: "perform M t x s = Some s1" "perform_all M as s1 = Some s'"
    using Cons.prems(2) by (auto split: option.splits)
  note step = perform_step [OF s1(1)]
  have room: "pins s1 i + length as + 1 < 2 ^ 64" for i
    using pins_step [OF step, of i] Cons.prems(1) [of i] by simp
  then have "has_room s1" unfolding has_room_def by (meson add_le_mono1 le_add1 le_less_trans)
  then have "later M s s1" by (rule later_step [OF later_refl step])
  with Cons.IH [OF room s1(2)] show ?case by (rule later_trans)
qed (simp add: later_refl)

lemma perform_all_reach:
  assumes "reach M c s" "\<And>i. pins s i + length as + 1 < 2 ^ 64" "perform_all M as s = Some s'"
  shows "reach M c s'"
  using reach_later [OF perform_all_later [OF assms(2,3)] assms(1)] .

corollary perform_all_reach_new:
  assumes "perform_all M as (sys_with M i c) = Some s" "length as + 1 < 2 ^ 64"
  shows "reach M c s"
  using perform_all_reach [OF reach_new _ assms(1)] assms(2) by (simp add: pins_def)

text \<open>A schedule that runs through to a state with a property shows that one is reachable.\<close>

lemma reach_by_schedule:
  assumes "case perform_all M as (sys_with M i c) of None \<Rightarrow> False | Some s \<Rightarrow> P s"
    and "length as + 1 < 2 ^ 64"
  shows "\<exists>s. reach M c s \<and> P s"
  using assms perform_all_reach_new by (fastforce split: option.splits)

section \<open>A call on its own\<close>

fun run_alone :: "'l mutex_ops \<Rightarrow> tid \<Rightarrow> nat \<Rightarrow> ('c, 'l, 'r) sys \<Rightarrow> ('c, 'l, 'r) sys" where
  "run_alone M t 0 s = s"
| "run_alone M t (Suc n) s = (case advance M t s of None \<Rightarrow> s | Some s' \<Rightarrow> run_alone M t n s')"

text \<open>The whole call: its entry, then as many actions as a call can need.\<close>

definition exec :: "'l mutex_ops \<Rightarrow> tid \<Rightarrow> ('c, 'r) call \<Rightarrow> ('c, 'l, 'r) sys \<Rightarrow> ('c, 'l, 'r) sys" where
  "exec M t m s = run_alone M t (length (registry s) + 9) (goto t (call_entry m) s)"

text \<open>What a call does to the contents and what it returns, without any synchronisation.\<close>

fun read_value :: "'r read_out \<Rightarrow> 'r outcome" where
  "read_value (Pinned r) = Returned r"
| "read_value (Unpinned r) = Returned r"
| "read_value Unwound = Panicked"
| "read_value ReadPanic = Panicked"

fun write_value :: "'r write_out \<Rightarrow> 'r outcome" where
  "write_value (Held r) = Returned r"
| "write_value (Finished r) = Returned r"
| "write_value WritePanic = Panicked"

fun effect :: "('c, 'r) call \<Rightarrow> 'c \<Rightarrow> 'c \<times> 'r outcome" where
  "effect (ReadCall b) c = (c, read_value (b c))"
| "effect (WriteCall d) c = (fst (d c), write_value (snd (d c)))"
| "effect (UnguardedCall u) c = (c, u c)"

text \<open>
  What a call leaves behind when it is over: nothing, a pinned slot in a read guard, the write
  lock in a write guard, or a slot that is lost.
\<close>

datatype trace = Nothing | ReadPin | WriteHold | LostPin

fun read_trace :: "'r read_out \<Rightarrow> trace" where
  "read_trace (Pinned r) = ReadPin"
| "read_trace (Unpinned r) = Nothing"
| "read_trace Unwound = Nothing"
| "read_trace ReadPanic = LostPin"

fun write_trace :: "'r write_out \<Rightarrow> trace" where
  "write_trace (Held r) = WriteHold"
| "write_trace (Finished r) = Nothing"
| "write_trace WritePanic = Nothing"

fun leaves :: "('c, 'r) call \<Rightarrow> 'c \<Rightarrow> trace" where
  "leaves (ReadCall b) c = read_trace (b c)"
| "leaves (WriteCall d) c = write_trace (snd (d c))"
| "leaves (UnguardedCall u) c = Nothing"

definition releases :: "('c, 'r) call \<Rightarrow> 'c \<Rightarrow> bool" where
  "releases m c \<longleftrightarrow> leaves m c = Nothing"

text \<open>Nobody uses the container: no call runs and no guard is alive or lost.\<close>

definition quiet :: "('c, 'l, 'r) sys \<Rightarrow> bool" where
  "quiet s \<longleftrightarrow> (\<forall>t. pc s t = Idle \<and> \<not> wguard s t) \<and> guards s = [] \<and> leaked s = []"

lemma run_alone_add: "run_alone M t (n + k) s = run_alone M t k (run_alone M t n s)"
proof (induction n arbitrary: s)
  case (Suc n)
  have stay: "run_alone M t k s = s" if "advance M t s = None" for k
    using that by (cases k) simp_all
  show ?case using Suc stay by (auto split: option.splits)
qed simp

lemma run_alone_step:
  "advance_at M t (pc s t) s = Some s' \<Longrightarrow> run_alone M t (Suc n) s = run_alone M t n s'"
  by (simp add: advance_def)

lemma run_alone_idle: "pc s t = Idle \<Longrightarrow> run_alone M t n s = s"
  by (cases n) (simp_all add: advance_def)

lemma run_alone_scan:
  assumes "pc s t = WScan k d" "k \<le> length (registry s)" "\<forall>i < length (registry s). registry s ! i = 0"
  shows "run_alone M t (length (registry s) - k) s = goto t (WScan (length (registry s)) d) s"
  using assms
proof (induction "length (registry s) - k" arbitrary: s k)
  case 0
  then show ?case by (simp add: goto_def fun_upd_idem)
next
  case (Suc n)
  let ?s = "goto t (WScan (Suc k) d) s"
  have n: "n = length (registry s) - Suc k" "Suc k \<le> length (registry s)"
    using Suc(2) by simp_all
  have "run_alone M t (Suc n) s = run_alone M t n ?s"
    using Suc(2-5) by (intro run_alone_step) (simp add: goto_def)
  also have "\<dots> = goto t (WScan (length (registry ?s)) d) ?s"
    using Suc(1) [of ?s "Suc k"] Suc(5) n by (simp add: goto_def)
  finally show ?case using Suc(2) by (simp add: goto_def)
qed

lemma quiet_state:
  assumes "rw_inv M s" "quiet s"
  shows "\<not> writing s" "mx_owner M (write_mutex s) = None" "mx_owner M (reg_lock s) = None"
    and "\<forall>i < length (registry s). registry s ! i = 0"
proof -
  have q: "pc s u = Idle" "\<not> wguard s u" for u using assms(2) by (simp_all add: quiet_def)
  show "\<not> writing s" using assms(1) q by (simp add: rw_inv_def inv_flag_def)
  show "mx_owner M (write_mutex s) = None" "mx_owner M (reg_lock s) = None"
    using assms(1) q by (simp_all add: rw_inv_def inv_write_def inv_reg_def held_by_def)
  have "pins s i = 0" for i using assms(2) by (simp add: quiet_def pins_def)
  then show "\<forall>i < length (registry s). registry s ! i = 0"
    using assms(1) q inv_slotD(3) [of s] unfolding rw_inv_def inv_count_def by fastforce
qed

text \<open>
  A completed call: every thread is where it was, the caller has the result, the contents have
  the effect, and the guards are those that the call leaves behind.
\<close>

definition kept :: "tid \<Rightarrow> trace \<Rightarrow> ('c, 'l, 'r) sys \<Rightarrow> ('c, 'l, 'r) sys \<Rightarrow> bool" where
  "kept t k s s' \<longleftrightarrow>
     (case k of
        Nothing \<Rightarrow> guards s' = guards s \<and> leaked s' = leaked s \<and> wguard s' = wguard s
      | ReadPin \<Rightarrow> (\<exists>i. guards s' = (t, i) # guards s) \<and> leaked s' = leaked s \<and> wguard s' = wguard s
      | WriteHold \<Rightarrow> guards s' = guards s \<and> leaked s' = leaked s \<and> wguard s' = (wguard s)(t := True)
      | LostPin \<Rightarrow> guards s' = guards s \<and> (\<exists>i. leaked s' = i # leaked s) \<and> wguard s' = wguard s)"

definition completed :: "tid \<Rightarrow> ('c, 'r) call \<Rightarrow> ('c, 'l, 'r) sys \<Rightarrow> ('c, 'l, 'r) sys \<Rightarrow> bool" where
  "completed t m s s' \<longleftrightarrow>
     pc s' = pc s \<and> ret s' = (ret s)(t := Some (snd (effect m (dirty s)))) \<and>
     dirty s' = fst (effect m (dirty s)) \<and> kept t (leaves m (dirty s)) s s'"

lemma run_begin_read:
  assumes M: "mutex_laws M" and inv: "rw_inv M s" and q: "quiet s"
  obtains k i s1 where "k \<le> 5" "run_alone M t k (goto t (RSlot b) s) = goto t (RBody i b) s1"
    "pc s1 = pc s" "ret s1 = ret s" "dirty s1 = dirty s" "guards s1 = guards s"
    "leaked s1 = leaked s" "wguard s1 = wguard s"
proof -
  note st = quiet_state [OF inv q]
  show ?thesis
  proof (cases "slot s t")
    case None
    obtain l where "mx_lock M t (reg_lock s) = Some l"
      using mutex_lock_free [OF M st(3)] by blast
    then show ?thesis using None st(1)
      by (intro that [of 4 "length (registry s)" "count_add (length (registry s))
          (s\<lparr>registry := registry s @ [0], slot := (slot s)(t \<mapsto> length (registry s)),
             reg_lock := mx_unlock M l\<rparr>)"])
        (simp_all add: eval_nat_numeral advance_def action_defs Let_def)
  next
    case (Some i)
    then show ?thesis using st(1)
      by (intro that [of 3 i "count_add i s"])
        (simp_all add: eval_nat_numeral advance_def action_defs)
  qed
qed

lemma run_read_body:
  assumes "pc s t = Idle"
  shows "completed t (ReadCall b) s (run_alone M t (Suc (Suc (Suc n))) (goto t (RBody i b) s))"
proof -
  have idle: "(pc s)(t := Idle) = pc s" using assms by (simp add: fun_upd_idem)
  show ?thesis
    by (cases "b (dirty s)"; cases n)
      (simp_all add: completed_def kept_def advance_def action_defs Let_def idle assms)
qed

lemma exec_read:
  assumes "mutex_laws M" "rw_inv M s" "quiet s"
  shows "completed t (ReadCall b) s (exec M t (ReadCall b) s)"
proof -
  obtain k i s1 where k: "k \<le> 5"
    and run: "run_alone M t k (goto t (RSlot b) s) = goto t (RBody i b) s1"
    and same: "pc s1 = pc s" "ret s1 = ret s" "dirty s1 = dirty s" "guards s1 = guards s"
      "leaked s1 = leaked s" "wguard s1 = wguard s"
    using run_begin_read [OF assms] by blast
  define n where "n = length (registry s) + 6 - k"
  have fuel: "length (registry s) + 9 = k + Suc (Suc (Suc n))" using k by (simp add: n_def)
  have "exec M t (ReadCall b) s = run_alone M t (Suc (Suc (Suc n))) (goto t (RBody i b) s1)"
    unfolding exec_def fuel run_alone_add call_entry.simps run ..
  moreover have "pc s1 t = Idle" using assms(3) same(1) by (simp add: quiet_def)
  ultimately have "completed t (ReadCall b) s1 (exec M t (ReadCall b) s)"
    using run_read_body [of s1 t b M n i] by simp
  then show ?thesis using same by (simp add: completed_def kept_def split: trace.splits)
qed

lemma exec_write:
  assumes M: "mutex_laws M" and inv: "rw_inv M s" and q: "quiet s"
  shows "completed t (WriteCall d) s (exec M t (WriteCall d) s)"
proof -
  note st = quiet_state [OF inv q]
  obtain l where l: "mx_lock M t (write_mutex s) = Some l"
    using mutex_lock_free [OF M st(2)] by blast
  obtain r where r: "mx_lock M t (reg_lock s) = Some r"
    using mutex_lock_free [OF M st(3)] by blast
  let ?n = "length (registry s)"
  define s1 where "s1 = s\<lparr>write_mutex := l, writing := True, reg_lock := r\<rparr>"
  have s1: "run_alone M t 3 (goto t (WLock d) s) = goto t (WScan 0 d) s1"
    by (simp add: eval_nat_numeral advance_def action_defs s1_def l r)
  have "run_alone M t (?n - 0) (goto t (WScan 0 d) s1) = goto t (WScan ?n d) s1"
    using run_alone_scan [of "goto t (WScan 0 d) s1" t 0 d M] st(4) by (simp add: s1_def goto_def)
  then have scanned: "run_alone M t ?n (goto t (WScan 0 d) s1) = goto t (WScan ?n d) s1" by simp
  have fuel: "?n + 9 = 3 + (?n + 6)" by simp
  have "exec M t (WriteCall d) s = run_alone M t 6 (goto t (WScan ?n d) s1)"
    unfolding exec_def fuel run_alone_add call_entry.simps s1 scanned ..
  moreover have "(pc s)(t := Idle) = pc s" "pc s t = Idle"
    using q by (simp_all add: quiet_def fun_upd_idem)
  ultimately show ?thesis
    by (cases "snd (d (dirty s))")
      (simp_all add: eval_nat_numeral completed_def kept_def advance_def action_defs Let_def s1_def)
qed

lemma exec_unguarded:
  assumes "quiet s"
  shows "completed t (UnguardedCall u) s (exec M t (UnguardedCall u) s)"
proof -
  let ?s = "s\<lparr>pc := (pc s)(t := Idle), ret := (ret s)(t := Some (u (dirty s)))\<rparr>"
  have idle: "(pc s)(t := Idle) = pc s" using assms by (simp add: quiet_def fun_upd_idem)
  have "run_alone M t 2 (goto t (UBody u) s) = ?s"
    by (simp add: eval_nat_numeral advance_def action_defs)
  moreover have fuel: "length (registry s) + 9 = 2 + (length (registry s) + 7)" by simp
  ultimately have "exec M t (UnguardedCall u) s = ?s"
    unfolding exec_def fuel run_alone_add call_entry.simps by (simp add: run_alone_idle)
  then show ?thesis using idle by (simp add: completed_def kept_def)
qed

theorem exec_completes:
  assumes "mutex_laws M" and "reach M c s" and "quiet s"
  shows "completed t m s (exec M t m s)"
  using exec_read [OF assms(1) _ assms(3)] exec_write [OF assms(1) _ assms(3)]
    exec_unguarded [OF assms(3)] reach_rw_inv(1) [OF assms(1,2)]
  by (cases m) auto

section \<open>Calls in sequence\<close>

text \<open>The number of pins a call in progress can still add: one, until its body has run.\<close>

fun may_pin :: "('c, 'r) pc \<Rightarrow> nat" where
  "may_pin (RSlot b) = 1"
| "may_pin (RPush b) = 1"
| "may_pin (RAdd i b) = 1"
| "may_pin (RLoad i b) = 1"
| "may_pin (RUndo i b) = 1"
| "may_pin (RBody i b) = 1"
| "may_pin (RFinish i b c) = 1"
| "may_pin _ = 0"

lemma may_pin_step:
  assumes "rw_step M t s s'" "pc s t \<noteq> Idle"
  shows "pins s' i + may_pin (pc s' t) \<le> pins s i + may_pin (pc s t)"
  using assms by (cases rule: rw_step.cases) (simp_all add: pins_def)

lemma may_pin_le: "may_pin p \<le> 1"
  by (cases p) simp_all

lemma run_alone_reach:
  assumes "reach M c s" "\<And>i. pins s i + may_pin (pc s t) + 1 < 2 ^ 64"
  shows "reach M c (run_alone M t n s)"
  using assms
proof (induction n arbitrary: s)
  case (Suc n)
  show ?case
  proof (cases "advance M t s")
    case (Some s1)
    then have step: "rw_step M t s s1" by (simp add: advance_def advance_step)
    have busy: "pc s t \<noteq> Idle" using Some by (auto simp: advance_def)
    have room: "pins s1 i + may_pin (pc s1 t) + 1 < 2 ^ 64" for i
      using may_pin_step [OF step busy, of i] Suc.prems(2) [of i] by simp
    then have "has_room s1" unfolding has_room_def by (meson add_lessD1 add_less_mono1 le_add1 le_less_trans add_le_mono1)
    then have "reach M c s1" using Suc.prems(1) step by (blast intro: reach_step)
    then show ?thesis using Suc.IH room Some by simp
  qed (use Suc.prems(1) in simp)
qed simp

lemma exec_reach:
  assumes "reach M c s" "quiet s"
  shows "reach M c (exec M t m s)"
proof -
  let ?s = "goto t (call_entry m) s"
  have pins: "pins ?s i = 0" for i using assms(2) by (simp add: quiet_def pins_def goto_def)
  have "pc s t = Idle" using assms(2) by (simp add: quiet_def)
  then have "rw_step M t s ?s" by (simp add: goto_def rw_step.start)
  then have "reach M c ?s" using assms(1) pins by (auto intro: reach_step simp: has_room_def)
  moreover have "pins ?s i + may_pin (pc ?s t) + 1 < 2 ^ 64" for i
    using pins [of i] may_pin_le [of "pc ?s t"] by simp
  ultimately show ?thesis unfolding exec_def by (rule run_alone_reach)
qed

lemma exec_quiet:
  assumes "mutex_laws M" "reach M c s" "quiet s" "releases m (dirty s)"
  shows "quiet (exec M t m s)"
  using exec_completes [OF assms(1-3), of t m] assms(3,4) by (simp add: completed_def kept_def quiet_def releases_def)

lemma exec_effect:
  assumes "mutex_laws M" "reach M c s" "quiet s"
  shows "dirty (exec M t m s) = fst (effect m (dirty s))"
    and "ret (exec M t m s) t = Some (snd (effect m (dirty s)))"
  using exec_completes [OF assms, of t m] by (simp_all add: completed_def)

lemma quiet_new: "quiet (sys_with M i c)"
  by (simp add: quiet_def)

text \<open>The thread drops the newest read guard, if it is its own.\<close>

definition drop_newest :: "tid \<Rightarrow> ('c, 'l, 'r) sys \<Rightarrow> ('c, 'l, 'r) sys" where
  "drop_newest t s =
     (case guards s of [] \<Rightarrow> s | (u, i) # gs \<Rightarrow> if u = t then drop_guard t i s else s)"

text \<open>A call whose result is a read guard, which is dropped right after it has been used.\<close>

definition exec_and_drop :: "'l mutex_ops \<Rightarrow> tid \<Rightarrow> ('c, 'r) call \<Rightarrow>
    ('c, 'l, 'r) sys \<Rightarrow> ('c, 'l, 'r) sys" where
  "exec_and_drop M t m s = drop_newest t (exec M t m s)"

lemma exec_and_drop_quiet:
  assumes "mutex_laws M" "reach M c s" "quiet s" "leaves m (dirty s) \<in> {Nothing, ReadPin}"
  shows "quiet (exec_and_drop M t m s)" "reach M c (exec_and_drop M t m s)"
    and "dirty (exec_and_drop M t m s) = fst (effect m (dirty s))"
    and "ret (exec_and_drop M t m s) t = Some (snd (effect m (dirty s)))"
proof -
  let ?s = "exec M t m s"
  have c: "completed t m s ?s" by (rule exec_completes [OF assms(1-3)])
  have r: "reach M c ?s" by (rule exec_reach [OF assms(2,3)])
  have "quiet (exec_and_drop M t m s) \<and> reach M c (exec_and_drop M t m s) \<and>
    dirty (exec_and_drop M t m s) = fst (effect m (dirty s)) \<and>
    ret (exec_and_drop M t m s) t = Some (snd (effect m (dirty s)))"
  proof (cases "leaves m (dirty s) = Nothing")
    case True
    then show ?thesis using c r assms(3)
      by (simp add: exec_and_drop_def drop_newest_def completed_def kept_def quiet_def)
  next
    case False
    then obtain i where g: "guards ?s = [(t, i)]" "leaked ?s = []" "wguard ?s = wguard s"
      using c assms(3,4) by (auto simp: completed_def kept_def quiet_def)
    have d: "exec_and_drop M t m s = drop_guard t i ?s" using g by (simp add: exec_and_drop_def drop_newest_def)
    have "pc ?s t = Idle" using c assms(3) by (simp add: completed_def quiet_def)
    then have step: "rw_step M t ?s (drop_guard t i ?s)"
      using rw_step.guard_drop [of ?s t i M] g(1) by (simp add: drop_guard_def count_sub_def)
    have "pins (drop_guard t i ?s) j = 0" for j
      using g by (simp add: pins_def drop_guard_def count_sub_def)
    then have "has_room (drop_guard t i ?s)" by (simp add: has_room_def)
    then have "reach M c (drop_guard t i ?s)" using r step by (rule reach_step [rotated 2])
    then show ?thesis using d g c assms(3)
      by (simp add: completed_def quiet_def drop_guard_def count_sub_def)
  qed
  then show "quiet (exec_and_drop M t m s)" "reach M c (exec_and_drop M t m s)"
    "dirty (exec_and_drop M t m s) = fst (effect m (dirty s))"
    "ret (exec_and_drop M t m s) t = Some (snd (effect m (dirty s)))" by blast+
qed

section \<open>The service that the lock gives to its clients\<close>

text \<open>What calls leave in the contents when they are made one after the other.\<close>

fun effects :: "('c, 'r) call list \<Rightarrow> 'c \<Rightarrow> 'c" where
  "effects [] c = c"
| "effects (m # ms) c = effects ms (fst (effect m c))"

text \<open>No call of the sequence keeps the write lock or loses a slot.\<close>

fun all_clean :: "('c, 'r) call list \<Rightarrow> 'c \<Rightarrow> bool" where
  "all_clean [] c = True"
| "all_clean (m # ms) c = (leaves m c \<in> {Nothing, ReadPin} \<and> all_clean ms (fst (effect m c)))"

text \<open>
  The interface between the lock and the code that shares a container: a state that is usable
  (nobody is in a call and no guard is alive), its contents, what a thread's last call returned,
  and a call made there (its read guard, if any, dropped right after it has been used).  The lock
  promises that the call returns what its body gives on the present contents, that the contents
  are what the body makes of them, and that the state is usable again.
\<close>

locale lock_service =
  fixes usable :: "'s \<Rightarrow> bool"
    and contents :: "'s \<Rightarrow> 'c"
    and result :: "'s \<Rightarrow> tid \<Rightarrow> 'r outcome option"
    and run :: "tid \<Rightarrow> ('c, 'r) call \<Rightarrow> 's \<Rightarrow> 's"
  assumes run_usable: "usable s \<Longrightarrow> leaves m (contents s) \<in> {Nothing, ReadPin} \<Longrightarrow> usable (run t m s)"
    and run_contents: "usable s \<Longrightarrow> leaves m (contents s) \<in> {Nothing, ReadPin} \<Longrightarrow>
      contents (run t m s) = fst (effect m (contents s))"
    and run_result: "usable s \<Longrightarrow> leaves m (contents s) \<in> {Nothing, ReadPin} \<Longrightarrow>
      result (run t m s) t = Some (snd (effect m (contents s)))"
begin

lemma run_all:
  assumes "usable s" "all_clean (map snd ms) (contents s)"
  shows "usable (fold (\<lambda>(t, m). run t m) ms s) \<and>
    contents (fold (\<lambda>(t, m). run t m) ms s) = effects (map snd ms) (contents s)"
  using assms
proof (induction ms arbitrary: s)
  case (Cons x ms)
  obtain t m where x: "x = (t, m)" by (cases x)
  then have clean: "leaves m (contents s) \<in> {Nothing, ReadPin}" using Cons.prems(2) by simp
  show ?case
    using Cons.IH [OF run_usable [OF Cons.prems(1) clean, of t]] Cons.prems(2)
      run_contents [OF Cons.prems(1) clean, of t] x by simp
qed simp

lemma run_after:
  assumes "usable s" "all_clean (map snd ms) (contents s)"
    "leaves m (effects (map snd ms) (contents s)) \<in> {Nothing, ReadPin}"
  shows "result (run t m (fold (\<lambda>(t, m). run t m) ms s)) t =
    Some (snd (effect m (effects (map snd ms) (contents s))))"
  using run_result [of "fold (\<lambda>(t, m). run t m) ms s" m t] run_all [OF assms(1,2)] assms(3) by simp

end

text \<open>The reader/writer protocol gives the service.\<close>

interpretation lock: lock_service
  "\<lambda>s. mutex_laws M \<and> reach M c s \<and> quiet s" dirty ret "exec_and_drop M" for M c
  by unfold_locales (meson exec_and_drop_quiet)+

section \<open>A write guard, used and dropped\<close>

text \<open>The thread writes \<open>f\<close> through its write guard, drops it, and finishes the drop.\<close>

definition use_write_guard :: "'l mutex_ops \<Rightarrow> tid \<Rightarrow> ('c \<Rightarrow> 'c) \<Rightarrow>
    ('c, 'l, 'r) sys \<Rightarrow> ('c, 'l, 'r) sys" where
  "use_write_guard M t f s = run_alone M t 2 (drop_write_guard t (write_through f s))"

lemma use_write_guard_quiet:
  fixes f :: "'c \<Rightarrow> 'c" and t :: tid
  assumes M: "mutex_laws M" and "reach M c s" "quiet s" "leaves m (dirty s) = WriteHold"
  defines "s' \<equiv> use_write_guard M t f (exec M t m s)"
  shows "quiet s'" "reach M c s'" "dirty s' = f (fst (effect m (dirty s)))"
proof -
  let ?s = "exec M t m s" and ?d = "drop_write_guard t (write_through f (exec M t m s))"
  have c: "completed t m s ?s" by (rule exec_completes [OF assms(1-3)])
  have r: "reach M c ?s" by (rule exec_reach [OF assms(2,3)])
  have pc: "pc ?s u = Idle" for u using c assms(3) by (simp add: completed_def quiet_def)
  have w: "guards ?s = []" "leaked ?s = []" "wguard ?s = (wguard s)(t := True)" "wguard s u = False" for u
    using c assms(3,4) by (simp_all add: completed_def kept_def quiet_def)
  have s1: "rw_step M t ?s (write_through f ?s)"
    using rw_step.wguard_write [OF pc, of t M f] w by (simp add: write_through_def log_event_def)
  have "reach M c (write_through f ?s)"
    using r s1 by (rule reach_step) (simp add: has_room_def pins_def write_through_def log_event_def w pc)
  moreover have "rw_step M t (write_through f ?s) ?d"
    using rw_step.wguard_drop [of "write_through f ?s" t M] w pc
    by (simp add: drop_write_guard_def goto_def write_through_def log_event_def)
  ultimately have rd: "reach M c ?d"
    by (rule reach_step)
      (simp add: has_room_def pins_def write_through_def log_event_def drop_write_guard_def goto_def w pc)
  have "reach M c s'"
    unfolding s'_def use_write_guard_def
    by (rule run_alone_reach [OF rd])
      (simp add: pins_def write_through_def log_event_def drop_write_guard_def goto_def w pc)
  then show "reach M c s'" .
  have s': "s' = ?d\<lparr>writing := False, write_mutex := mx_unlock M (write_mutex ?d),
      pc := (pc ?d)(t := Idle), ret := (ret ?d)(t := None)\<rparr>"
    by (simp add: s'_def use_write_guard_def eval_nat_numeral advance_def action_defs)
  show "quiet s'" using w pc
    by (simp add: s' quiet_def drop_write_guard_def write_through_def log_event_def goto_def)
  show "dirty s' = f (fst (effect m (dirty s)))" using c
    by (simp add: s' drop_write_guard_def write_through_def log_event_def goto_def completed_def)
qed

section \<open>Histories of whole calls\<close>

text \<open>The event is the access of the call; the value that the call returns after it.\<close>

fun event_of :: "('c, 'r) call \<Rightarrow> ('c, 'r) event \<Rightarrow> bool" where
  "event_of (ReadCall b) (EvRead b' r) = (b' = b)"
| "event_of (WriteCall d) (EvWrite d' w) = (d' = d)"
| "event_of _ _ = False"

fun event_value :: "('c, 'r) event \<Rightarrow> 'r outcome option" where
  "event_value (EvRead b r) = Some (read_value r)"
| "event_value (EvWrite d w) = Some (write_value w)"
| "event_value (EvModify f) = None"

text \<open>What calls return when they are made one after the other.\<close>

fun outcomes :: "('c, 'r) call list \<Rightarrow> 'c \<Rightarrow> 'r outcome list" where
  "outcomes [] c = []"
| "outcomes (m # ms) c = snd (effect m c) # outcomes ms (fst (effect m c))"

lemma replay_effects:
  "replay es c = Some c' \<Longrightarrow> list_all2 event_of ms es \<Longrightarrow>
   c' = effects ms c \<and> map event_value es = map Some (outcomes ms c)"
proof (induction ms arbitrary: es c)
  case (Cons m ms)
  then obtain e es' where es: "es = e # es'" "event_of m e" "list_all2 event_of ms es'"
    by (auto simp: list_all2_Cons1)
  consider b r where "m = ReadCall b" "e = EvRead b r" | d w where "m = WriteCall d" "e = EvWrite d w"
    using es(2) by (cases m; cases e) auto
  then show ?case using Cons.IH [OF _ es(3)] Cons.prems(1) es(1) by cases (auto split: if_splits)
qed simp

text \<open>
  However the calls interleave: when the writing accesses of the history are those of the calls
  \<open>ms\<close>, in that order, the contents are those that the calls produce one after the other; when
  all of its accesses are those of \<open>ms\<close>, each call has returned what it returns there.
\<close>

lemma reach_effects:
  assumes "mutex_laws M" "reach M c s" "list_all2 event_of ms (filter is_write (hist s))"
  shows "dirty s = effects ms c"
  using replay_effects [OF replay_writes [OF replay_reach [OF assms(1,2)]] assms(3)] by blast

lemma reach_outcomes:
  assumes "mutex_laws M" "reach M c s" "list_all2 event_of ms (hist s)"
  shows "dirty s = effects ms c" "map event_value (hist s) = map Some (outcomes ms c)"
  using replay_effects [OF replay_reach [OF assms(1,2)] assms(3)] by blast+

text \<open>A call whose result is wrapped (for threads that make calls of several types).\<close>

lemma effect_map_call: "effect (map_call f m) c = map_prod id (map_outcome f) (effect m c)"
proof (cases m)
  case (ReadCall b)
  then show ?thesis by (cases "b c") simp_all
next
  case (WriteCall d)
  then show ?thesis by (cases "d c"; cases "snd (d c)") simp_all
qed simp

lemma leaves_map_call: "leaves (map_call f m) c = leaves m c"
proof (cases m)
  case (ReadCall b)
  then show ?thesis by (cases "b c") simp_all
next
  case (WriteCall d)
  then show ?thesis by (cases "d c"; cases "snd (d c)") simp_all
qed simp

end
