(* ===== verification/Rw_Instances.thy ===== *)
theory Rw_Instances
  imports Rw_Solo
begin

text \<open>
  The termination of a call, and the properties of the protocol on concrete runs.
\<close>

text \<open>
  Property C11.  A call terminates and does what its body says: made on a container that nobody
  uses, it returns within \<open>length registry + 9\<close> atomic actions, with the result and the effect
  that its body has on the contents and every other thread where it was.  It leaves behind the
  guard that its result carries, if it carries one, and the lost slot, if user code panicked under
  the raw counter (\<open>ReadPanic\<close>); besides these no guard, slot or lock.
\<close>

theorem call_terminates:
  assumes "mutex_laws M" and "reach M c s" and "quiet s"
  shows "completed t m s (exec M t m s)"
  using assms by (rule exec_completes)

section \<open>Instances\<close>

text \<open>
  The properties of the protocol on concrete runs: threads 0 and 1 on a list of numbers, with a
  push, a guarded read of the list, and a read that panics.
\<close>

type_synonym demo = "(nat list, tid option, nat list) sys"

definition demo_push :: "nat \<Rightarrow> (nat list, nat list) call" where
  "demo_push v = WriteCall (\<lambda>m. (m @ [v], Finished []))"

definition demo_ref :: "(nat list, nat list) call" where
  "demo_ref = ReadCall (\<lambda>m. Pinned m)"

definition demo_panic :: "(nat list, nat list) call" where
  "demo_panic = ReadCall (\<lambda>m. ReadPanic)"

lemmas demo = demo_push_def demo_ref_def demo_panic_def perform_def advance_def action_defs
  Let_def may_write_def may_read_def quiet_def

lemma demo_pushing: "\<exists>s :: demo. reach owner_mutex [7] s \<and> may_write s 0 \<and> slot s 1 = Some 0"
  by (rule reach_by_schedule [where i = 1 and as = "[(1, Start demo_ref), (1, Run), (1, Run), (1, Run),
      (1, Run), (1, Run), (1, Run), (1, DropGuard 0), (0, Start (demo_push 3)), (0, Run), (0, Run),
      (0, Run), (0, Run), (0, Run), (0, Run)]"])
    (simp_all add: demo)

lemma demo_pinned:
  "\<exists>s :: demo. reach owner_mutex [7] s \<and> (1, 0) \<in> set (guards s) \<and> dirty s = [7] \<and> pc s 0 = Idle"
  by (rule reach_by_schedule [where i = 1 and as = "[(1, Start demo_ref), (1, Run), (1, Run), (1, Run),
      (1, Run), (1, Run), (1, Run)]"])
    (simp_all add: demo)

lemma demo_self_write:
  "\<exists>s :: demo. reach owner_mutex [7] s \<and> (1, 0) \<in> set (guards s) \<and> awaits_write (pc s 1)"
  by (rule reach_by_schedule [where i = 1 and as = "[(1, Start demo_ref), (1, Run), (1, Run), (1, Run),
      (1, Run), (1, Run), (1, Run), (1, Start (demo_push 3))]"])
    (simp_all add: demo)

lemma demo_nested:
  "\<exists>s :: demo. reach owner_mutex [7] s \<and> (1, 0) \<in> set (guards s) \<and> scanning (pc s 0) \<and>
    awaits_read (pc s 1)"
  by (rule reach_by_schedule [where i = 1 and as = "[(1, Start demo_ref), (1, Run), (1, Run), (1, Run),
      (1, Run), (1, Run), (1, Run), (0, Start (demo_push 3)), (0, Run), (0, Run), (1, Start demo_ref)]"])
    (simp_all add: demo)

lemma demo_lost: "\<exists>s :: demo. reach owner_mutex [7] s \<and> leaked s = [0] \<and> dirty s = [7]"
  by (rule reach_by_schedule [where i = 1 and as = "[(1, Start demo_panic), (1, Run), (1, Run), (1, Run),
      (1, Run), (1, Run), (1, Run)]"])
    (simp_all add: demo)

theorem no_data_race_witness:
  "\<exists>s :: demo. reach owner_mutex [7] s \<and> may_write s 0 \<and> \<not> may_read s 1 \<and> \<not> may_write s 1"
  using demo_pushing no_data_race [OF owner_mutex_laws] by (metis zero_neq_one)

theorem calls_linearize_witness:
  "\<exists>s :: demo. reach owner_mutex [7] s \<and> may_write s 0 \<and> replay (hist s) [7] = Some (dirty s)"
  using demo_pushing calls_linearize [OF owner_mutex_laws] by metis

theorem guard_pins_contents_witness:
  "\<exists>s s' :: demo. reach owner_mutex [7] s \<and> (1, 0) \<in> set (guards s) \<and>
    rw_step owner_mutex 0 s s' \<and> dirty s' = [7]"
proof -
  obtain s :: demo where s: "reach owner_mutex [7] s" "(1, 0) \<in> set (guards s)" "dirty s = [7]"
    and idle: "pc s 0 = Idle" using demo_pinned by blast
  note step = rw_step.start [OF idle, of owner_mutex demo_ref]
  have "dirty (s\<lparr>pc := (pc s)(0 := call_entry demo_ref)\<rparr>) = dirty s"
    by (rule guard_pins_contents [OF owner_mutex_laws s(1) disjI1 [OF s(2)] step])
  then show ?thesis using s step by metis
qed

lemma demo_entering:
  "\<exists>s :: demo. reach owner_mutex [7] s \<and> writing s \<and> pc s 0 = WRegLock (\<lambda>m. (m @ [3], Finished [])) \<and>
    pc s 1 = RBody 0 Pinned \<and> reg_lock s = None"
  by (rule reach_by_schedule [where i = 1 and as = "[(1, Start demo_ref), (1, Run), (1, Run), (1, Run),
      (1, Run), (0, Start (demo_push 3)), (0, Run), (0, Run)]"])
    (simp_all add: demo)

theorem writer_bars_readers_witness:
  "\<exists>s s' :: demo. writing s \<and> rw_step owner_mutex 0 s s' \<and> in_read (pc s' 1) \<and> in_read (pc s 1)"
proof -
  obtain s :: demo where s: "writing s" "pc s 0 = WRegLock (\<lambda>m. (m @ [3], Finished []))"
    "pc s 1 = RBody 0 Pinned" "reg_lock s = None" using demo_entering by blast
  note step = rw_step.w_reg_lock [OF s(2), of owner_mutex "Some 0", unfolded s(4), simplified]
  have "in_read (pc s 1)" by (rule writer_bars_readers [OF s(1) step]) (use s in simp)
  moreover have "in_read (pc (s\<lparr>reg_lock := Some 0, pc := (pc s)(0 := WScan 0 (\<lambda>m. (m @ [3], Finished [])))\<rparr>) 1)"
    using s by simp
  ultimately show ?thesis using s(1) step by blast
qed

theorem rw_refines_spec_witness:
  "\<exists>s s' :: demo. pc s' 0 = call_entry demo_ref \<and> rw_step owner_mutex 0 s s' \<and>
    (rw_abs s' = rw_abs s \<or> rw_spec_step (rw_abs s) (rw_abs s'))"
proof -
  obtain s :: demo where s: "reach owner_mutex [7] s" "pc s 0 = Idle" using demo_pinned by blast
  note step = rw_step.start [OF s(2), of owner_mutex demo_ref]
  have "pc (s\<lparr>pc := (pc s)(0 := call_entry demo_ref)\<rparr>) 0 = call_entry demo_ref" by simp
  then show ?thesis using step rw_refines_spec [OF owner_mutex_laws s(1) step] by blast
qed

theorem write_under_own_guard_deadlocks_witness:
  "\<exists>s :: demo. reach owner_mutex [7] s \<and> awaits_write (pc s 1) \<and> (1, 0) \<in> set (guards s)"
proof -
  obtain s :: demo where s: "reach owner_mutex [7] s" "(1, 0) \<in> set (guards s)" "awaits_write (pc s 1)"
    using demo_self_write by blast
  note waits = write_under_own_guard_deadlocks [OF owner_mutex_laws s later_refl]
  show ?thesis by (rule exI [of _ s], rule conjI [OF s(1) waits])
qed

theorem nested_read_livelocks_witness:
  "\<exists>s :: demo. reach owner_mutex [7] s \<and> awaits_read (pc s 1) \<and> scanning (pc s 0) \<and>
    (1, 0) \<in> set (guards s)"
proof -
  obtain s :: demo where s: "reach owner_mutex [7] s" "(1, 0) \<in> set (guards s)" "awaits_read (pc s 1)"
    "scanning (pc s 0)" using demo_nested by blast
  note waits = nested_read_livelocks [OF owner_mutex_laws s later_refl]
  show ?thesis by (rule exI [of _ s], rule conjI [OF s(1) waits])
qed

theorem lost_slot_freezes_witness:
  "\<exists>s :: demo. reach owner_mutex [7] s \<and> leaked s = [0] \<and> \<not> may_write s 0"
  using demo_lost lost_slot_freezes [OF owner_mutex_laws _ _ later_refl] by (metis list.distinct(1))

theorem call_terminates_witness:
  "completed 0 (demo_push 3) (sys_with owner_mutex 1 [7])
    (exec owner_mutex 0 (demo_push 3) (sys_with owner_mutex 1 [7]))"
  by (rule call_terminates [OF owner_mutex_laws reach_new quiet_new])

end
