(* ===== verification/Rw_History.thy ===== *)
theory Rw_History
  imports Rw_Instances
begin

text \<open>
  The order of a history is the order of real time: the access that a call contributes to the
  history lies between the start of the call and its return, and there is exactly one.
\<close>

section \<open>The span of a call\<close>

text \<open>
  \<open>during M t s es s'\<close>: from \<open>s\<close>, where thread \<open>t\<close> has just called a method, the threads have
  come to \<open>s'\<close> in any interleaving, \<open>t\<close> without starting anything after the call; \<open>es\<close> are
  the accesses that \<open>t\<close> itself has added to the history.
\<close>

inductive during :: "'l mutex_ops \<Rightarrow> tid \<Rightarrow> ('c, 'l, 'r) sys \<Rightarrow> ('c, 'r) event list \<Rightarrow>
    ('c, 'l, 'r) sys \<Rightarrow> bool" for M :: "'l mutex_ops" and t :: tid and s :: "('c, 'l, 'r) sys" where
  during_start: "during M t s [] s"
| during_own: "during M t s es s1 \<Longrightarrow> pc s1 t \<noteq> Idle \<Longrightarrow> rw_step M t s1 s2 \<Longrightarrow> has_room s2 \<Longrightarrow>
    during M t s (es @ drop (length (hist s1)) (hist s2)) s2"
| during_other: "during M t s es s1 \<Longrightarrow> u \<noteq> t \<Longrightarrow> rw_step M u s1 s2 \<Longrightarrow> has_room s2 \<Longrightarrow>
    during M t s es s2"

lemma during_reach: "during M t s es s' \<Longrightarrow> reach M c s \<Longrightarrow> reach M c s'"
  by (induction rule: during.induct) (auto intro: reach_step)

text \<open>The history only grows.\<close>

lemma hist_step: "rw_step M t s s' \<Longrightarrow> \<exists>es. hist s' = hist s @ es"
  by (erule rw_step.cases) auto

lemma during_hist: "during M t s es s' \<Longrightarrow> \<exists>fs. hist s' = hist s @ fs \<and> set es \<subseteq> set fs"
proof (induction rule: during.induct)
  case (during_own es s1 s2)
  then obtain fs gs where "hist s1 = hist s @ fs" "set es \<subseteq> set fs" "hist s2 = hist s1 @ gs"
    using hist_step by blast
  then show ?case by (intro exI [of _ "fs @ gs"]) auto
next
  case (during_other es s1 u s2)
  then obtain fs gs where "hist s1 = hist s @ fs" "set es \<subseteq> set fs" "hist s2 = hist s1 @ gs"
    using hist_step by blast
  then show ?case by (intro exI [of _ "fs @ gs"]) auto
qed simp

section \<open>One access per call\<close>

text \<open>The call whose access to the contents is still to come.\<close>

fun pending_call :: "('c, 'r) pc \<Rightarrow> ('c, 'r) call option" where
  "pending_call (RSlot b) = Some (ReadCall b)"
| "pending_call (RPush b) = Some (ReadCall b)"
| "pending_call (RAdd i b) = Some (ReadCall b)"
| "pending_call (RLoad i b) = Some (ReadCall b)"
| "pending_call (RUndo i b) = Some (ReadCall b)"
| "pending_call (RBody i b) = Some (ReadCall b)"
| "pending_call (RFinish i b c) = Some (ReadCall b)"
| "pending_call (WLock d) = Some (WriteCall d)"
| "pending_call (WStore d) = Some (WriteCall d)"
| "pending_call (WRegLock d) = Some (WriteCall d)"
| "pending_call (WScan k d) = Some (WriteCall d)"
| "pending_call (WRetry d) = Some (WriteCall d)"
| "pending_call (WBreak d) = Some (WriteCall d)"
| "pending_call (WBody d) = Some (WriteCall d)"
| "pending_call (WCommit d c) = Some (WriteCall d)"
| "pending_call (UBody u) = Some (UnguardedCall u)"
| "pending_call (UFinish u c) = Some (UnguardedCall u)"
| "pending_call _ = None"

lemma pending_call_entry [simp]: "pending_call (call_entry m) = Some m"
  by (cases m) simp_all

text \<open>What the call will return, or has returned, once it has made its access.\<close>

fun answer :: "('c, 'r) pc \<Rightarrow> 'r outcome option \<Rightarrow> 'r outcome option" where
  "answer (RSub i r) x = Some r"
| "answer (WClear y) x = y"
| "answer (WUnlock y) x = y"
| "answer Idle x = x"
| "answer _ x = None"

definition call_state :: "('c, 'r) call \<Rightarrow> ('c, 'r) event list \<Rightarrow> ('c, 'r) pc \<Rightarrow>
    'r outcome option \<Rightarrow> bool" where
  "call_state m es p x \<longleftrightarrow> pending_call p = Some m \<and> es = [] \<or>
     (\<exists>e. es = [e] \<and> event_of m e \<and> answer p x = event_value e)"

text \<open>A call whose access is synchronised, and so part of the history.\<close>

fun guarded :: "('c, 'r) call \<Rightarrow> bool" where
  "guarded (UnguardedCall u) = False"
| "guarded _ = True"

lemma event_value_not_None: "event_of m e \<Longrightarrow> event_value e \<noteq> None"
  by (cases m; cases e) auto

lemma call_state_step:
  assumes "guarded m" "rw_step M t s s'" "pc s t \<noteq> Idle" "call_state m es (pc s t) (ret s t)"
  shows "call_state m (es @ drop (length (hist s)) (hist s')) (pc s' t) (ret s' t)"
  using assms(2,1,3,4) unfolding call_state_def
  by (cases rule: rw_step.cases) (auto dest: event_value_not_None)

lemma during_call_state:
  assumes "during M t s es s'" "guarded m" "call_state m [] (pc s t) (ret s t)"
  shows "call_state m es (pc s' t) (ret s' t)"
  using assms
proof (induction rule: during.induct)
  case (during_own es s1 s2)
  then show ?case using call_state_step by blast
next
  case (during_other es s1 u s2)
  then show ?case using step_others(1,4) [OF during_other(3)] by simp
qed

text \<open>The value in an event of a replayed history is the effect of its call on the contents there.\<close>

lemma replay_event_value:
  "replay (e # es) d = Some c \<Longrightarrow> event_of m e \<Longrightarrow> event_value e = Some (snd (effect m d))"
  by (cases m; cases e) (auto split: if_splits)

text \<open>
  Property C9.  A call takes effect exactly once, at a moment between its start and its return.
  However the other threads interleave with it: when a reading or writing method called in
  state \<open>s\<close> has returned in \<open>s'\<close>, it has added exactly one access \<open>e\<close> to the history, after
  every access that had ended before the call, and the call has returned the effect of its body
  on the contents \<open>d\<close> that the accesses before \<open>e\<close> have produced.
\<close>

theorem call_takes_effect_once:
  assumes "mutex_laws M" and "reach M c s" and "guarded m"
    and "pc s t = call_entry m" and "during M t s es s'" and "pc s' t = Idle"
  shows "\<exists>e h h' d. es = [e] \<and> event_of m e \<and> hist s' = hist s @ h @ e # h' \<and>
    replay (hist s @ h) c = Some d \<and> ret s' t = Some (snd (effect m d))"
proof -
  have "call_state m [] (pc s t) (ret s t)"
    by (simp add: call_state_def assms(4))
  then have "call_state m es (pc s' t) (ret s' t)" by (rule during_call_state [OF assms(5,3)])
  then obtain e where e: "es = [e]" "event_of m e" "ret s' t = event_value e"
    using assms(6) by (auto simp: call_state_def)
  obtain h h' where h: "hist s' = hist s @ h @ e # h'"
    using during_hist [OF assms(5)] e(1) by (metis list.set_intros(1) split_list subsetD)
  have "replay ((hist s @ h) @ e # h') c = Some (dirty s')"
    using replay_reach [OF assms(1) during_reach [OF assms(5,2)]] h by simp
  then obtain d where "replay (hist s @ h) c = Some d" "replay (e # h') d = Some (dirty s')"
    by (rule replay_prefix)
  then show ?thesis using e h replay_event_value by metis
qed

section \<open>A concrete interleaving\<close>

lemma during_schedule:
  assumes "during M t s es s1" "perform_all M as s1 = Some s2" "\<forall>(u, a) \<in> set as. u \<noteq> t \<or> a = Run"
    and "\<And>i. pins s1 i + length as + 1 < 2 ^ 64"
  shows "\<exists>es. during M t s es s2"
  using assms
proof (induction as arbitrary: es s1)
  case (Cons x as)
  obtain u a where x: "x = (u, a)" by (cases x)
  then obtain s' where s': "perform M u a s1 = Some s'" "perform_all M as s' = Some s2"
    using Cons.prems(2) by (auto split: option.splits)
  note step = perform_step [OF s'(1)]
  have room: "pins s' i + length as + 1 < 2 ^ 64" for i
    using pins_step [OF step, of i] Cons.prems(4) [of i] by simp
  then have "has_room s'" unfolding has_room_def
    by (meson add_le_mono1 le_add1 le_less_trans)
  moreover have "pc s1 t \<noteq> Idle" if "u = t"
    using Cons.prems(3) s'(1) that x by (auto simp: perform_Run)
  ultimately have "\<exists>es. during M t s es s'"
    using Cons.prems(1) step by (cases "u = t") (blast intro: during_own during_other)+
  then obtain es' where "during M t s es' s'" by blast
  moreover have "\<forall>(u, a) \<in> set as. u \<noteq> t \<or> a = Run" using Cons.prems(3) by auto
  ultimately show ?case using Cons.IH s'(2) room by blast
qed auto

text \<open>Thread 0 has called \<open>push(3)\<close> and waits; thread 1 pushes 5; then thread 0 goes on.\<close>

definition demo_called :: demo where
  "demo_called = goto 0 (WLock (\<lambda>m. (m @ [3], Finished []))) (sys_with owner_mutex 1 [7])"

lemma demo_called_reach: "reach owner_mutex [7] demo_called"
  by (rule perform_all_reach_new [of owner_mutex "[(0, Start (demo_push 3))]" 1])
    (simp_all add: demo demo_called_def)

lemma demo_overtaken:
  "\<exists>s. perform_all owner_mutex ((1, Start (demo_push 5)) # replicate 9 (1, Run) @ replicate 9 (0, Run))
     demo_called = Some s \<and> pc s 0 = Idle \<and> dirty s = [7, 5, 3]"
  by (simp add: eval_nat_numeral demo demo_called_def)

theorem call_takes_effect_once_witness:
  "\<exists>es s d. \<exists>h :: (nat list, nat list) event list. during owner_mutex 0 demo_called es s \<and> dirty s = [7, 5, 3] \<and> length es = 1 \<and>
     replay h [7] = Some d \<and> ret s 0 = Some (snd (effect (demo_push 3) d))"
proof -
  obtain s where s: "perform_all owner_mutex
      ((1, Start (demo_push 5)) # replicate 9 (1, Run) @ replicate 9 (0, Run)) demo_called = Some s"
    "pc s 0 = Idle" "dirty s = [7, 5, 3]"
    using demo_overtaken by blast
  obtain es where es: "during owner_mutex 0 demo_called es s"
    using during_schedule [OF during_start s(1)]
    by (auto simp: demo_called_def pins_def goto_def)
  have "pc demo_called 0 = call_entry (demo_push 3)"
    by (simp add: demo_called_def demo_push_def goto_def)
  note once = call_takes_effect_once [OF owner_mutex_laws demo_called_reach _ this es s(2)]
  have g: "guarded (demo_push 3)" by (simp add: demo_push_def)
  obtain e h d where e: "es = [e]" and h: "replay (hist demo_called @ h) [7] = Some d"
    "ret s 0 = Some (snd (effect (demo_push 3) d))"
    using once [OF g] by blast
  have "length es = 1" by (simp add: e)
  then show ?thesis using es s(3) h by blast
qed

end
