(* ===== verification/Rw_Progress.thy ===== *)
theory Rw_Progress
  imports Rw_History
begin

text \<open>
  The protocol does not lock itself up.  When no guard is alive and no body of a pending call
  wants to keep one, the calls in progress can all return: whatever they have done so far, there
  is a way for the threads to go on after which the container is free.
\<close>

section \<open>Light states\<close>

text \<open>
  No guard is alive or lost, and no call in progress will leave one behind.
\<close>

definition light :: "('c, 'l, 'r) sys \<Rightarrow> bool" where
  "light s \<longleftrightarrow> guards s = [] \<and> leaked s = [] \<and> (\<forall>t. \<not> wguard s t) \<and>
     (\<forall>t m c. pending_call (pc s t) = Some m \<longrightarrow> releases m c)"

lemma light_room: "light s \<Longrightarrow> has_room s"
  by (simp add: light_def has_room_def pins_def)

lemma light_pins: "light s \<Longrightarrow> pins s i = 0"
  by (simp add: light_def pins_def)

lemma light_body:
  assumes "light s"
  shows "pc s t = RFinish i b c \<Longrightarrow> b c = Unwound \<or> (\<exists>r. b c = Unpinned r)"
    and "pc s t = WCommit d c \<Longrightarrow> snd (d c) \<noteq> Held r"
proof -
  have m: "pending_call (pc s t) = Some m \<Longrightarrow> releases m c" for m
    using assms by (simp add: light_def)
  show "pc s t = RFinish i b c \<Longrightarrow> b c = Unwound \<or> (\<exists>r. b c = Unpinned r)"
    using m [of "ReadCall b"] by (cases "b c") (simp_all add: releases_def)
  show "pc s t = WCommit d c \<Longrightarrow> snd (d c) \<noteq> Held r"
    using m [of "WriteCall d"] by (auto simp: releases_def)
qed

lemma light_step:
  assumes "light s" "rw_step M t s s'" "pc s t \<noteq> Idle"
  shows "light s'"
proof -
  have "pending_call (pc s' t) = None \<or> pending_call (pc s' t) = pending_call (pc s t)"
    using assms(2,3) by (cases rule: rw_step.cases) simp_all
  then have "releases m c" if "pending_call (pc s' u) = Some m" for u m c
    using that assms(1) step_others(1) [OF assms(2), of u] by (cases "u = t") (auto simp: light_def)
  moreover have "guards s' = [] \<and> leaked s' = [] \<and> \<not> wguard s' u" for u
    using assms(2,1,3) light_body [OF assms(1), of t]
    by (cases rule: rw_step.cases) (fastforce simp: light_def)+
  ultimately show ?thesis by (simp add: light_def)
qed

text \<open>Nobody but \<open>t\<close> has touched a counter or holds a lock.\<close>

definition unhindered :: "tid \<Rightarrow> ('c, 'l, 'r) sys \<Rightarrow> bool" where
  "unhindered t s \<longleftrightarrow> (\<forall>u. u \<noteq> t \<longrightarrow> \<not> pinning (pc s u) \<and> \<not> w_owner (pc s u) \<and> \<not> r_owner (pc s u))"

text \<open>How far the call of a thread is from its return, when it is unhindered.\<close>

fun distance :: "nat \<Rightarrow> ('c, 'r) pc \<Rightarrow> nat" where
  "distance n Idle = 0"
| "distance n (RSlot b) = 7"
| "distance n (RPush b) = 6"
| "distance n (RUndo i b) = 6"
| "distance n (RAdd i b) = 5"
| "distance n (RLoad i b) = 4"
| "distance n (RBody i b) = 3"
| "distance n (RFinish i b c) = 2"
| "distance n (RSub i r) = 1"
| "distance n (WLock d) = n + 9"
| "distance n (WStore d) = n + 8"
| "distance n (WRetry d) = n + 8"
| "distance n (WRegLock d) = n + 7"
| "distance n (WScan k d) = n - k + 6"
| "distance n (WBreak d) = 5"
| "distance n (WBody d) = 4"
| "distance n (WCommit d c) = 3"
| "distance n (WClear x) = 2"
| "distance n (WUnlock x) = 1"
| "distance n (UBody u) = 2"
| "distance n (UFinish u c) = 1"

lemma unhindered_step:
  "unhindered t s \<Longrightarrow> rw_step M t s s' \<Longrightarrow> unhindered t s'"
  using step_others(1) by (fastforce simp: unhindered_def)

lemma unhindered_state:
  assumes inv: "rw_inv M s" and "light s" "unhindered t s"
  shows "\<not> w_owner (pc s t) \<Longrightarrow> mx_owner M (write_mutex s) = None"
    and "\<not> w_flag (pc s t) \<Longrightarrow> \<not> writing s"
    and "\<not> r_owner (pc s t) \<Longrightarrow> mx_owner M (reg_lock s) = None"
    and "\<not> pinning (pc s t) \<Longrightarrow> i < length (registry s) \<Longrightarrow> registry s ! i = 0"
proof -
  have w: "\<not> wguard s u" for u using assms(2) by (simp add: light_def)
  have u: "u = t \<or> \<not> pinning (pc s u) \<and> \<not> w_owner (pc s u) \<and> \<not> r_owner (pc s u)" for u
    using assms(3) by (auto simp: unhindered_def)
  show "mx_owner M (write_mutex s) = None" if "\<not> w_owner (pc s t)"
  proof -
    have "\<not> w_owner (pc s v)" for v using u [of v] that by blast
    then show ?thesis using inv w by (simp add: rw_inv_def inv_write_def held_by_def)
  qed
  show "\<not> writing s" if "\<not> w_flag (pc s t)"
  proof -
    have "\<not> w_flag (pc s v)" for v using u [of v] that w_flag_owner [of "pc s v"] by blast
    then show ?thesis using inv w by (simp add: rw_inv_def inv_flag_def)
  qed
  show "mx_owner M (reg_lock s) = None" if "\<not> r_owner (pc s t)"
  proof -
    have "\<not> r_owner (pc s v)" for v using u [of v] that by blast
    then show ?thesis using inv by (simp add: rw_inv_def inv_reg_def held_by_def)
  qed
  show "registry s ! i = 0" if np: "\<not> pinning (pc s t)" and i: "i < length (registry s)"
  proof -
    have sl: "inv_slot s" and cnt: "inv_count s" using inv by (simp_all add: rw_inv_def)
    obtain v where v: "slot s v = Some i" using inv_slotD(3) [OF sl i] by blast
    have "\<not> pinning (pc s v)" using u [of v] np by blast
    then show ?thesis using cnt v light_pins [OF assms(2), of i] by (simp add: inv_count_def)
  qed
qed

text \<open>An unhindered thread can take its next action, which brings it nearer to its return.\<close>

lemma unhindered_advances:
  assumes M: "mutex_laws M" and "rw_inv M s" "light s" "unhindered t s" "pc s t \<noteq> Idle"
  shows "\<exists>s'. rw_step M t s s' \<and>
    distance (length (registry s')) (pc s' t) < distance (length (registry s)) (pc s t)"
proof -
  note st = unhindered_state [OF assms(2-4)]
  have "\<exists>s'. advance_at M t (pc s t) s = Some s' \<and>
    distance (length (registry s')) (pc s' t) < distance (length (registry s)) (pc s t)"
  proof (cases "pc s t")
    case (RSlot b)
    then show ?thesis using st(3) mutex_lock_free [OF M, of "reg_lock s" t]
      by (cases "slot s t") (auto simp: action_defs)
  next
    case (WLock d)
    then show ?thesis using st(1) mutex_lock_free [OF M, of "write_mutex s" t]
      by (auto simp: action_defs)
  next
    case (WRegLock d)
    then show ?thesis using st(3) mutex_lock_free [OF M, of "reg_lock s" t]
      by (auto simp: action_defs)
  next
    case (RFinish i b c)
    then show ?thesis using light_body(1) [OF assms(3)] by (fastforce simp: action_defs Let_def)
  next
    case (WCommit d c)
    then show ?thesis using light_body(2) [OF assms(3) WCommit]
      by (cases "snd (d c)") (auto simp: action_defs Let_def)
  qed (use st(2,4) assms(5) in \<open>auto simp: action_defs Let_def\<close>)
  then show ?thesis using advance_step by blast
qed

lemma later_light_step:
  assumes "rw_step M t s s'" "light s" "pc s t \<noteq> Idle"
  shows "later M s s'" "light s'"
  using later_step [OF later_refl assms(1)] light_step [OF assms(2,1,3)] light_room by blast+

text \<open>So it returns.\<close>

lemma unhindered_returns:
  assumes M: "mutex_laws M" and "rw_inv M s" "light s" "unhindered t s"
  shows "\<exists>s'. later M s s' \<and> light s' \<and> pc s' = (pc s)(t := Idle)"
  using assms(2-)
proof (induction "distance (length (registry s)) (pc s t)" arbitrary: s rule: less_induct)
  case less
  show ?case
  proof (cases "pc s t = Idle")
    case True
    then show ?thesis using less.prems(2) by (intro exI [of _ s]) (simp add: later_refl fun_upd_idem)
  next
    case False
    obtain s1 where s1: "rw_step M t s s1"
      "distance (length (registry s1)) (pc s1 t) < distance (length (registry s)) (pc s t)"
      using unhindered_advances [OF M less.prems False] by blast
    note l = later_light_step [OF s1(1) less.prems(2) False]
    have "rw_inv M s1" using rw_inv_step [OF M less.prems(1) light_room s1(1)] less.prems(2) by blast
    then obtain s2 where s2: "later M s1 s2" "light s2" "pc s2 = (pc s1)(t := Idle)"
      using less.hyps [OF s1(2) _ l(2) unhindered_step [OF less.prems(3) s1(1)]] by blast
    have "pc s2 = (pc s)(t := Idle)"
      using s2(3) step_others(1) [OF s1(1)] by (auto simp: fun_eq_iff)
    then show ?thesis using s2 later_trans [OF s2(1) l(1)] by blast
  qed
qed

section \<open>Threads in the way\<close>

text \<open>
  A thread that has touched a counter, or that registers one, can step out of the way without
  waiting for anybody: this many actions it needs.
\<close>

fun in_the_way :: "('c, 'r) pc \<Rightarrow> nat" where
  "in_the_way (RLoad i b) = 4"
| "in_the_way (RBody i b) = 3"
| "in_the_way (RFinish i b c) = 2"
| "in_the_way (RSub i r) = 1"
| "in_the_way (RUndo i b) = 1"
| "in_the_way (RPush b) = 1"
| "in_the_way _ = 0"

lemma clear_of_the_way:
  "in_the_way p = 0 \<Longrightarrow> \<not> pinning p" "in_the_way p = 0 \<Longrightarrow> r_owner p \<Longrightarrow> w_owner p"
  by (cases p; simp)+

lemma steps_out:
  assumes "light s" "in_the_way (pc s t) \<noteq> 0"
  shows "\<exists>s'. rw_step M t s s' \<and> in_the_way (pc s' t) < in_the_way (pc s t)"
proof -
  have "\<exists>s'. advance_at M t (pc s t) s = Some s' \<and> in_the_way (pc s' t) < in_the_way (pc s t)"
  proof (cases "pc s t")
    case (RFinish i b c)
    then show ?thesis using light_body(1) [OF assms(1)] by (fastforce simp: action_defs Let_def)
  qed (use assms(2) in \<open>auto simp: action_defs Let_def\<close>)
  then show ?thesis using advance_step by blast
qed

lemma out_of_the_way:
  assumes "light s"
  shows "\<exists>s'. later M s s' \<and> light s' \<and> in_the_way (pc s' t) = 0 \<and> (\<forall>u. u \<noteq> t \<longrightarrow> pc s' u = pc s u)"
  using assms
proof (induction "in_the_way (pc s t)" arbitrary: s rule: less_induct)
  case less
  show ?case
  proof (cases "in_the_way (pc s t) = 0")
    case True
    then show ?thesis using less.prems later_refl by blast
  next
    case False
    then obtain s1 where s1: "rw_step M t s s1" "in_the_way (pc s1 t) < in_the_way (pc s t)"
      using steps_out [OF less.prems] by blast
    have "pc s t \<noteq> Idle" using False by auto
    note l = later_light_step [OF s1(1) less.prems this]
    obtain s2 where "later M s1 s2" "light s2" "in_the_way (pc s2 t) = 0"
      "\<forall>u. u \<noteq> t \<longrightarrow> pc s2 u = pc s1 u"
      using less.hyps [OF s1(2) l(2)] by blast
    then show ?thesis using step_others(1) [OF s1(1)] later_trans [OF _ l(1)] by metis
  qed
qed

definition busy :: "('c, 'l, 'r) sys \<Rightarrow> tid set" where
  "busy s = {t. pc s t \<noteq> Idle}"

lemma all_out_of_the_way:
  assumes "light s" "finite (busy s)"
  shows "\<exists>s'. later M s s' \<and> light s' \<and> busy s' \<subseteq> busy s \<and> (\<forall>t. in_the_way (pc s' t) = 0)"
  using assms
proof (induction "card {t. in_the_way (pc s t) \<noteq> 0}" arbitrary: s rule: less_induct)
  case less
  let ?W = "\<lambda>s. {t. in_the_way (pc s t) \<noteq> 0}"
  show ?case
  proof (cases "?W s = {}")
    case True
    then show ?thesis using less.prems(1) later_refl by blast
  next
    case False
    then obtain t where t: "in_the_way (pc s t) \<noteq> 0" by blast
    obtain s1 where s1: "later M s s1" "light s1" "in_the_way (pc s1 t) = 0"
      "\<And>u. u \<noteq> t \<Longrightarrow> pc s1 u = pc s u"
      using out_of_the_way [OF less.prems(1)] by blast
    have "pc s t \<noteq> Idle" using t by auto
    then have b: "busy s1 \<subseteq> busy s" using s1(4) unfolding busy_def by (metis (mono_tags) Collect_mono)
    have "?W s \<subseteq> busy s" unfolding busy_def by fastforce
    then have "finite (?W s)" using less.prems(2) finite_subset by blast
    moreover have "?W s1 \<subset> ?W s"
    proof
      show "?W s1 \<subseteq> ?W s"
      proof
        fix u assume "u \<in> ?W s1"
        then show "u \<in> ?W s" using s1(3,4) by (cases "u = t") auto
      qed
      show "?W s1 \<noteq> ?W s" using t s1(3) by blast
    qed
    ultimately have "card (?W s1) < card (?W s)" by (rule psubset_card_mono)
    then obtain s2 where "later M s1 s2" "light s2" "busy s2 \<subseteq> busy s1"
      "\<forall>t. in_the_way (pc s2 t) = 0"
      using less.hyps [OF _ s1(2) finite_subset [OF b less.prems(2)]] by blast
    then show ?thesis using b later_trans [OF _ s1(1)] by blast
  qed
qed

section \<open>Progress\<close>

lemma someone_unhindered:
  assumes "rw_inv M s" "\<And>t. in_the_way (pc s t) = 0" "busy s \<noteq> {}"
  shows "\<exists>t \<in> busy s. unhindered t s"
proof (cases "\<exists>t. w_owner (pc s t)")
  case True
  then obtain t where t: "w_owner (pc s t)" by blast
  have "held_by M (write_mutex s) (\<lambda>t. w_owner (pc s t) \<or> wguard s t)"
    using assms(1) by (simp add: rw_inv_def inv_write_def)
  then have "w_owner (pc s u) \<Longrightarrow> u = t" for u
    using held_by_unique [of M "write_mutex s" "\<lambda>t. w_owner (pc s t) \<or> wguard s t" u t] t by blast
  then have "unhindered t s"
    using clear_of_the_way assms(2) unfolding unhindered_def by metis
  moreover have "t \<in> busy s" using t by (auto simp: busy_def)
  ultimately show ?thesis by blast
next
  case False
  then have "unhindered t s" for t
    using clear_of_the_way assms(2) unfolding unhindered_def by metis
  then show ?thesis using assms(3) by blast
qed

lemma light_settles:
  assumes M: "mutex_laws M" and "reach M c s" "light s" "finite (busy s)"
  shows "\<exists>s'. later M s s' \<and> light s' \<and> busy s' = {}"
  using assms(2-)
proof (induction "card (busy s)" arbitrary: s rule: less_induct)
  case less
  obtain s1 where s1: "later M s s1" "light s1" "busy s1 \<subseteq> busy s"
    "\<And>t. in_the_way (pc s1 t) = 0"
    using all_out_of_the_way [OF less.prems(2,3), of M] by blast
  have r1: "reach M c s1" by (rule reach_later [OF s1(1) less.prems(1)])
  show ?case
  proof (cases "busy s1 = {}")
    case True
    then show ?thesis using s1 by blast
  next
    case False
    obtain t where t: "t \<in> busy s1" "unhindered t s1"
      using someone_unhindered [OF reach_rw_inv(1) [OF M r1] s1(4) False] by blast
    obtain s2 where s2: "later M s1 s2" "light s2" "pc s2 = (pc s1)(t := Idle)"
      using unhindered_returns [OF M reach_rw_inv(1) [OF M r1] s1(2) t(2)] by blast
    have "busy s2 = busy s1 - {t}" using s2(3) by (auto simp: busy_def)
    then have b: "busy s2 \<subset> busy s" using t(1) s1(3) by blast
    obtain s3 where "later M s2 s3" "light s3" "busy s3 = {}"
      using less.hyps [OF psubset_card_mono [OF less.prems(3) b] reach_later [OF s2(1) r1] s2(2)]
        finite_subset [OF psubset_imp_subset [OF b] less.prems(3)] by blast
    then show ?thesis using later_trans [OF later_trans [OF _ s2(1)] s1(1)] by blast
  qed
qed

text \<open>
  Property C10.  No deadlock: from every reachable state in which no guard is alive or lost and
  no call in progress will leave one behind, however many (finitely many) calls are in progress
  and wherever they are, the threads can go on in such a way that all the calls return and the
  container is free.
\<close>

theorem calls_can_all_return:
  assumes "mutex_laws M" and "reach M c s" and "light s" and "finite (busy s)"
  shows "\<exists>s'. later M s s' \<and> quiet s'"
proof -
  obtain s' where "later M s s'" "light s'" "busy s' = {}"
    using light_settles [OF assms] by blast
  then show ?thesis by (auto simp: quiet_def light_def busy_def)
qed

text \<open>A writer and a reader that are in each other's way: each has just found the other.\<close>

lemma demo_in_the_way:
  "\<exists>s :: demo. reach owner_mutex [7] s \<and> guards s = [] \<and> leaked s = [] \<and> (\<forall>u. \<not> wguard s u) \<and>
    (\<forall>u. pc s u = (if u = 0 then WRetry (\<lambda>m. (m @ [3], Finished []))
       else if u = 1 then RUndo 0 (\<lambda>m. Unpinned [length m]) else Idle))"
  by (rule reach_by_schedule [where i = 1 and as = "[(1, Start (ReadCall (\<lambda>m. Unpinned [length m]))),
      (1, Run), (1, Run), (1, Run), (0, Start (demo_push 3)), (0, Run), (0, Run), (0, Run), (0, Run),
      (1, Run)]"])
    (simp_all add: demo)

theorem calls_can_all_return_witness:
  "\<exists>s s' :: demo. scanning (pc s 0) \<and> pinning (pc s 1) \<and> later owner_mutex s s' \<and> quiet s'"
proof -
  obtain s :: demo where s: "reach owner_mutex [7] s" "guards s = []" "leaked s = []"
    "\<And>u. \<not> wguard s u" and pc: "\<And>u. pc s u = (if u = 0 then WRetry (\<lambda>m. (m @ [3], Finished []))
       else if u = 1 then RUndo 0 (\<lambda>m. Unpinned [length m]) else Idle)"
    using demo_in_the_way by blast
  have "light s" using s(2-4) by (auto simp: light_def pc releases_def split: if_splits)
  moreover have "busy s \<subseteq> {0, 1}" by (auto simp: busy_def pc split: if_splits)
  then have "finite (busy s)" by (rule finite_subset) simp
  ultimately obtain s' where "later owner_mutex s s'" "quiet s'"
    using calls_can_all_return [OF owner_mutex_laws s(1)] by blast
  moreover have "scanning (pc s 0)" "pinning (pc s 1)" by (simp_all add: pc)
  ultimately show ?thesis by blast
qed

end
