(* ===== verification/Rw_Spin.thy ===== *)
theory Rw_Spin
  imports Rw_Progress
begin

text \<open>
  Runs in which threads get in each other's way although no guard is alive: what the retry loops
  of \<open>begin_read\<close> and \<open>begin_write\<close> do not rule out.
\<close>

definition demo_len :: "(nat list, nat list) call" where
  "demo_len = ReadCall (\<lambda>m. Unpinned [length m])"

text \<open>A writer that is about to scan and a reader that is about to count itself.\<close>

definition spinning :: demo where
  "spinning = (sys_with owner_mutex 1 [7])\<lparr>writing := True, write_mutex := Some 0, registry := [0],
     slot := (\<lambda>_. None)(1 := Some 0),
     pc := (\<lambda>_. Idle)(0 := WRegLock (\<lambda>m. (m @ [3], Finished [])),
       1 := RAdd 0 (\<lambda>m. Unpinned [length m]))\<rparr>"

definition spin :: "(tid \<times> (nat list, nat list) action) list" where
  "spin = [(1, Run), (0, Run), (0, Run), (0, Run), (1, Run), (1, Run)]"

lemma sys_with_fields:
  "pc (sys_with M i c) = (\<lambda>_. Idle)" "slot (sys_with M i c) = (\<lambda>_. None)"
  by (simp_all add: fun_eq_iff)

lemma spinning_reached:
  "perform_all owner_mutex [(0, Start (demo_push 3)), (1, Start demo_len), (1, Run), (1, Run), (0, Run), (0, Run)]
     (sys_with owner_mutex 1 [7]) = Some spinning"
  by (simp add: demo demo_len_def spinning_def sys_with_fields fun_upd_twist)

lemma spin_round: "perform_all owner_mutex spin spinning = Some spinning"
  by (simp add: demo spin_def spinning_def fun_upd_twist)

lemma spin_rounds: "perform_all owner_mutex (concat (replicate n spin)) spinning = Some spinning"
  by (induction n) (simp_all add: perform_all_append spin_round)

lemma spinning_light: "light spinning" "busy spinning = {0, 1}"
  by (auto simp: light_def busy_def spinning_def releases_def sys_with_fields split: if_splits)

text \<open>
  Property C30.  The calls in progress can all return, but a fair scheduler is not enough to make
  them: a reader and a writer can go round for ever, the writer finding the reader's counter up
  in every scan and the reader finding the flag up every time.  No guard is alive, every round
  has actions of both threads, and it ends in the state in which it has begun.
\<close>

theorem retries_can_spin_for_ever:
  "\<exists>(s :: demo) round. reach owner_mutex [7] s \<and> light s \<and> busy s = {0, 1} \<and>
    (0, Run) \<in> set round \<and> (1, Run) \<in> set round \<and> set round \<subseteq> {(0, Run), (1, Run)} \<and>
    (\<forall>n. perform_all owner_mutex (concat (replicate n round)) s = Some s)"
proof (intro exI conjI allI)
  show "reach owner_mutex [7] spinning" by (rule perform_all_reach_new [OF spinning_reached]) simp
  show "perform_all owner_mutex (concat (replicate n spin)) spinning = Some spinning" for n
    by (rule spin_rounds)
qed (simp_all add: spinning_light, simp_all add: spin_def)

text \<open>
  The first read of a thread takes the lock of the registry: a thread that reads the container
  for the first time waits for another one that does.
\<close>

theorem first_readers_wait:
  "\<exists>s :: demo. reach owner_mutex [7] s \<and> (pc s 0 = call_entry demo_len \<and> slot s 0 = None \<and>
    r_owner (pc s 1) \<and> light s \<and> perform owner_mutex 0 Run s = None)"
proof -
  have "\<exists>s :: demo. reach owner_mutex [7] s \<and> (perform owner_mutex 0 Run s = None \<and> slot s 0 = None \<and>
      guards s = [] \<and> leaked s = [] \<and> wguard s = (\<lambda>_. False) \<and>
      pc s = (\<lambda>_. Idle)(0 := RSlot (\<lambda>m. Unpinned [length m]), 1 := RPush (\<lambda>m. Unpinned [length m])))"
    by (rule reach_by_schedule [where i = 1 and as = "[(0, Start demo_len), (1, Start demo_len), (1, Run)]"])
      (simp_all add: demo demo_len_def sys_with_fields fun_eq_iff)
  then obtain s :: demo where s: "reach owner_mutex [7] s" "perform owner_mutex 0 Run s = None"
    "slot s 0 = None" "guards s = []" "leaked s = []" "wguard s = (\<lambda>_. False)"
    "pc s = (\<lambda>_. Idle)(0 := RSlot (\<lambda>m. Unpinned [length m]), 1 := RPush (\<lambda>m. Unpinned [length m]))"
    by blast
  have "light s" by (auto simp: light_def s releases_def split: if_splits)
  then show ?thesis using s by (intro exI [of _ s]) (simp add: demo_len_def)
qed

end
