(* ===== verification/Rw_Reentrant.thy ===== *)
theory Rw_Reentrant
  imports Rw_Instances
begin

text \<open>
  Calls from inside a call.  The body of a method runs user code: \<open>PartialEq\<close> in \<open>contains\<close>, \<open>Hash\<close>,
  \<open>Eq\<close> and \<open>Ord\<close> in the methods of the maps, \<open>Debug\<close>, \<open>Serialize\<close> and \<open>Clone\<close> in the traits,
  destructors in \<open>set\<close> and \<open>clear\<close>.  Such code may use the same container again: then the thread is
  inside two calls, the outer one waiting for the inner one to return.  What the outer call will do
  is kept on a stack meanwhile.
\<close>

section \<open>Calls inside calls\<close>

text \<open>
  \<open>frames\<close>: for every thread the bodies that it has interrupted, the innermost first (the list is
  one of all threads).  The program counter of the thread is that of the innermost call, or \<open>Idle\<close>
  while user code runs that is in no call.
\<close>

record ('c, 'l, 'r) nested =
  core :: "('c, 'l, 'r) sys"
  frames :: "(tid \<times> ('c, 'r) pc) list"

text \<open>User code runs in a body, with the contents at hand.\<close>

fun runs_user_code :: "('c, 'r) pc \<Rightarrow> bool" where
  "runs_user_code (RFinish i b c) = True"
| "runs_user_code (WCommit d c) = True"
| "runs_user_code (UFinish u c) = True"
| "runs_user_code _ = False"

text \<open>
  \<open>Enter\<close>: the body calls user code.  \<open>Leave\<close>: the user code returns to the body.  In between the
  thread does what any thread can do between calls: start a call, which is inside the other one
  then, drop a guard, and so on.
\<close>

datatype ('c, 'r) nested_action = Plain "('c, 'r) action" | Enter | Leave

fun pop_frame :: "tid \<Rightarrow> (tid \<times> 'p) list \<Rightarrow> ('p \<times> (tid \<times> 'p) list) option" where
  "pop_frame t [] = None"
| "pop_frame t ((u, p) # fs) =
     (if u = t then Some (p, fs)
      else (case pop_frame t fs of None \<Rightarrow> None | Some (q, gs) \<Rightarrow> Some (q, (u, p) # gs)))"

definition nested_perform :: "'l mutex_ops \<Rightarrow> tid \<Rightarrow> ('c, 'r) nested_action \<Rightarrow>
    ('c, 'l, 'r) nested \<Rightarrow> ('c, 'l, 'r) nested option" where
  "nested_perform M t a n =
     (case a of
        Plain e \<Rightarrow> (case perform M t e (core n) of None \<Rightarrow> None | Some s \<Rightarrow> Some (n\<lparr>core := s\<rparr>))
      | Enter \<Rightarrow>
          (if runs_user_code (pc (core n) t)
           then Some \<lparr>core = goto t Idle (core n), frames = (t, pc (core n) t) # frames n\<rparr>
           else None)
      | Leave \<Rightarrow>
          (if is_idle (pc (core n) t)
           then (case pop_frame t (frames n) of
                   None \<Rightarrow> None
                 | Some (p, fs) \<Rightarrow> Some \<lparr>core = goto t p (core n), frames = fs\<rparr>)
           else None))"

text \<open>The interrupted calls of a thread, and the slots and the write lock that they still have.\<close>

definition stack_of :: "tid \<Rightarrow> (tid \<times> 'p) list \<Rightarrow> 'p list" where
  "stack_of t fs = map snd (filter (\<lambda>f. fst f = t) fs)"

fun frame_guards :: "(tid \<times> ('c, 'r) pc) list \<Rightarrow> (tid \<times> nat) list" where
  "frame_guards [] = []"
| "frame_guards ((t, RFinish i b c) # fs) = (t, i) # frame_guards fs"
| "frame_guards (f # fs) = frame_guards fs"

fun frame_writers :: "(tid \<times> ('c, 'r) pc) list \<Rightarrow> tid list" where
  "frame_writers [] = []"
| "frame_writers ((t, WCommit d c) # fs) = t # frame_writers fs"
| "frame_writers (f # fs) = frame_writers fs"

text \<open>
  For the other threads, and for the calls inside it, an interrupted body is as good as a guard: the
  state without frames, in which the slots of interrupted reading methods are read guards and the
  lock of an interrupted writing method is a write guard.
\<close>

definition lifted :: "(tid \<times> nat) list \<Rightarrow> tid list \<Rightarrow> ('c, 'l, 'r) sys \<Rightarrow> ('c, 'l, 'r) sys" where
  "lifted G W s = s\<lparr>guards := guards s @ G, wguard := (\<lambda>t. wguard s t \<or> t \<in> set W)\<rparr>"

definition flat :: "('c, 'l, 'r) nested \<Rightarrow> ('c, 'l, 'r) sys" where
  "flat n = lifted (frame_guards (frames n)) (frame_writers (frames n)) (core n)"

lemma lifted_simps [simp]:
  "guards (lifted G W s) = guards s @ G" "wguard (lifted G W s) = (\<lambda>t. wguard s t \<or> t \<in> set W)"
  "pc (lifted G W s) = pc s" "slot (lifted G W s) = slot s" "dirty (lifted G W s) = dirty s"
  "writing (lifted G W s) = writing s" "registry (lifted G W s) = registry s"
  "leaked (lifted G W s) = leaked s" "reg_lock (lifted G W s) = reg_lock s"
  "write_mutex (lifted G W s) = write_mutex s"
  by (simp_all add: lifted_def)

inductive nested_reach :: "'l mutex_ops \<Rightarrow> 'c \<Rightarrow> ('c, 'l, 'r) nested \<Rightarrow> bool"
  for M :: "'l mutex_ops" and c :: 'c where
  nested_start: "reach M c s \<Longrightarrow> nested_reach M c \<lparr>core = s, frames = []\<rparr>"
| nested_act: "nested_reach M c n \<Longrightarrow> nested_perform M t a n = Some n' \<Longrightarrow> has_room (flat n') \<Longrightarrow>
    nested_reach M c n'"

text \<open>The states that can follow a state, whatever any thread does.\<close>

inductive nested_later :: "'l mutex_ops \<Rightarrow> ('c, 'l, 'r) nested \<Rightarrow> ('c, 'l, 'r) nested \<Rightarrow> bool"
  for M :: "'l mutex_ops" and n :: "('c, 'l, 'r) nested" where
  nested_refl: "nested_later M n n"
| nested_step: "nested_later M n n1 \<Longrightarrow> nested_perform M t a n1 = Some n2 \<Longrightarrow> has_room (flat n2) \<Longrightarrow>
    nested_later M n n2"

section \<open>The invariant holds without the frames\<close>

lemma frames_append [simp]:
  "frame_guards (xs @ ys) = frame_guards xs @ frame_guards ys"
  "frame_writers (xs @ ys) = frame_writers xs @ frame_writers ys"
  by (induction xs rule: frame_guards.induct) auto

lemma pop_frame_split:
  "pop_frame t fs = Some (p, gs) \<Longrightarrow> \<exists>xs ys. fs = xs @ (t, p) # ys \<and> gs = xs @ ys \<and> t \<notin> fst ` set xs"
proof (induction fs arbitrary: gs)
  case (Cons f fs)
  obtain u q where f: "f = (u, q)" by (cases f)
  show ?case
  proof (cases "u = t")
    case True
    then show ?thesis using Cons.prems f by (intro exI [of _ "[]"] exI [of _ fs]) simp
  next
    case False
    then obtain hs where h: "pop_frame t fs = Some (p, hs)" "gs = f # hs"
      using Cons.prems f by (auto split: option.splits)
    from Cons.IH [OF h(1)] obtain xs ys where "fs = xs @ (t, p) # ys" "hs = xs @ ys" "t \<notin> fst ` set xs" by blast
    then show ?thesis using h(2) f False by (intro exI [of _ "f # xs"] exI [of _ ys]) auto
  qed
qed simp

lemma perform_lifted:
  assumes "perform M t a s = Some s'" "wguard s t \<Longrightarrow> t \<notin> set W"
  shows "perform M t a (lifted G W s) = Some (lifted G W s')"
proof (cases a)
  case Run
  show ?thesis using assms(1) unfolding Run perform_Run
    by (cases "pc s t"; auto simp: action_defs Let_def lifted_def fun_eq_iff
      split: option.splits read_out.splits write_out.splits)
next
  case DropWriteGuard
  then show ?thesis using assms by (auto simp: perform_def action_defs lifted_def fun_eq_iff split: if_splits)
qed (use assms in \<open>auto simp: perform_def action_defs lifted_def remove1_append split: if_splits\<close>)


text \<open>A reading method in its body and one that has been interrupted there; the same for writing methods.\<close>

lemma snapshots_out:
  assumes "pc s' = (pc s)(t := Idle)" "dirty s' = dirty s"
    and "\<And>i b c. pc s t = RFinish i b c \<Longrightarrow> c = dirty s" "\<And>d c. pc s t = WCommit d c \<Longrightarrow> c = dirty s"
  shows "inv_snap s' \<longleftrightarrow> inv_snap s"
proof
  assume "inv_snap s"
  then show "inv_snap s'" by (simp add: inv_snap_def assms(1,2))
next
  assume i: "inv_snap s'"
  have "c = dirty s" if r: "pc s u = RFinish i b c" for u i b c
  proof (cases "u = t")
    case False
    then have "pc s' u = RFinish i b c" using r assms(1) by simp
    then show ?thesis using i assms(2) unfolding inv_snap_def by metis
  qed (use r assms(3) in blast)
  moreover have "c = dirty s" if r: "pc s u = WCommit d c" for u d c
  proof (cases "u = t")
    case False
    then have "pc s' u = WCommit d c" using r assms(1) by simp
    then show ?thesis using i assms(2) unfolding inv_snap_def by metis
  qed (use r assms(4) in blast)
  ultimately show "inv_snap s" by (simp add: inv_snap_def)
qed

lemma rw_inv_read_frame:
  assumes pc: "pc s t = RFinish i b c" and sl: "slot s t = Some i" and c: "c = dirty s"
    and s': "s' = s\<lparr>pc := (pc s)(t := Idle), guards := gs\<rparr>"
    and gs: "set gs = insert (t, i) (set (guards s))"
      "\<And>j. count_list (map snd gs) j = count_list (map snd (guards s)) j + (if j = i then 1 else 0)"
  shows "rw_inv M s' \<longleftrightarrow> rw_inv M s"
proof -
  have pins: "pins s' j = pins s j + (if j = i then 1 else 0)" for j by (simp add: pins_def s' gs(2))
  have f: "w_owner (pc s' u) = w_owner (pc s u)" "w_flag (pc s' u) = w_flag (pc s u)"
    "w_excl (pc s' u) = w_excl (pc s u)" "r_owner (pc s' u) = r_owner (pc s u)"
    "in_read (pc s' u) = (in_read (pc s u) \<and> u \<noteq> t)" "wguard s' u = wguard s u"
    "pc_count (pc s' u) = (if u = t then None else pc_count (pc s u))"
    "(pc s' u = WScan k d) = (pc s u = WScan k d)" "(pc s' u = RPush e) = (pc s u = RPush e)" for u k d e
    by (simp_all add: s' pc)
  have "inv_write M s' = inv_write M s" "inv_flag s' = inv_flag s" "inv_reg M s' = inv_reg M s"
    unfolding inv_write_def inv_flag_def inv_reg_def held_by_def f by (simp_all add: s')
  moreover have "inv_slot s' \<longleftrightarrow> inv_slot s"
  proof -
    have "(\<forall>u i. pc_count (pc s' u) = Some i \<longrightarrow> slot s u = Some i) \<longleftrightarrow>
        (\<forall>u i. pc_count (pc s u) = Some i \<longrightarrow> slot s u = Some i)"
      unfolding f using sl pc by (metis option.distinct(1) pc_count.simps(5) option.inject)
    moreover have "(\<forall>u i. slot s u = Some i \<longrightarrow> i < length (registry s)) \<Longrightarrow> i < length (registry s)"
      using sl by blast
    ultimately show ?thesis unfolding inv_slot_def f(9) using gs(1) by (auto simp: s')
  qed
  moreover have "inv_count s' \<longleftrightarrow> inv_count s" if "inv_slot s"
  proof -
    have "pins s' j + (if pinning (pc s' u) then 1 else 0) = pins s j + (if pinning (pc s u) then 1 else 0)"
      if "slot s u = Some j" for u j
    proof (cases "u = t")
      case True
      then have "j = i" using sl that by simp
      then show ?thesis using True pins [of i] pc by (simp add: s')
    next
      case False
      then have "j \<noteq> i" using inv_slotD(2) [OF \<open>inv_slot s\<close> sl, of u] that by blast
      then show ?thesis using False pins [of j] by (simp add: s')
    qed
    then show ?thesis unfolding inv_count_def by (auto simp: s' simp del: of_nat_add)
  qed
  moreover have "inv_excl s' \<longleftrightarrow> inv_excl s"
  proof -
    have "in_read (pc s t)" "guards s' \<noteq> []" using pc gs(1) by (auto simp: s')
    then show ?thesis unfolding inv_excl_def f by blast
  qed
  moreover have "inv_scan s' \<longleftrightarrow> inv_scan s" if "inv_slot s"
  proof -
    have "(pins s' j = 0 \<and> (\<forall>u. slot s u = Some j \<longrightarrow> \<not> in_read (pc s' u))) \<longleftrightarrow>
        (pins s j = 0 \<and> (\<forall>u. slot s u = Some j \<longrightarrow> \<not> in_read (pc s u)))" for j
    proof (cases "j = i")
      case True
      then show ?thesis using pins sl pc by auto
    next
      case False
      then show ?thesis using pins sl f(5) by auto
    qed
    then show ?thesis unfolding inv_scan_def f by (simp add: s')
  qed
  moreover have "inv_snap s' \<longleftrightarrow> inv_snap s"
    by (rule snapshots_out [of _ _ t]) (use c pc in \<open>simp_all add: s'\<close>)
  ultimately show ?thesis unfolding rw_inv_def by blast
qed

lemma rw_inv_write_frame:
  assumes pc: "pc s t = WCommit d c" and c: "c = dirty s" and g: "\<not> wguard s t"
    and s': "s' = s\<lparr>pc := (pc s)(t := Idle), wguard := (wguard s)(t := True)\<rparr>"
  shows "rw_inv M s' \<longleftrightarrow> rw_inv M s"
proof -
  have f: "w_owner (pc s' u) \<or> wguard s' u \<longleftrightarrow> w_owner (pc s u) \<or> wguard s u"
    "w_owner (pc s' u) \<and> wguard s' u \<longleftrightarrow> w_owner (pc s u) \<and> wguard s u"
    "w_flag (pc s' u) \<or> wguard s' u \<longleftrightarrow> w_flag (pc s u) \<or> wguard s u"
    "w_excl (pc s' u) \<or> wguard s' u \<longleftrightarrow> w_excl (pc s u) \<or> wguard s u"
    "r_owner (pc s' u) = r_owner (pc s u)" "in_read (pc s' u) = in_read (pc s u)"
    "pinning (pc s' u) = pinning (pc s u)"
    "pc_count (pc s' u) = pc_count (pc s u)" "(pc s' u = WScan k e) = (pc s u = WScan k e)"
    "(pc s' u = RPush h) = (pc s u = RPush h)" for u k e h
    using g by (auto simp: s' pc)
  have same: "pins s' = pins s" by (simp add: s' pins_def fun_eq_iff)
  have fields: "write_mutex s' = write_mutex s" "writing s' = writing s" "reg_lock s' = reg_lock s"
    by (simp_all add: s')
  have "(\<forall>u. w_owner (pc s' u) \<longrightarrow> \<not> wguard s' u) = (\<forall>u. w_owner (pc s u) \<longrightarrow> \<not> wguard s u)"
    using f(2) by blast
  then have "inv_write M s' = inv_write M s" "inv_flag s' = inv_flag s" "inv_reg M s' = inv_reg M s"
    unfolding inv_write_def inv_flag_def inv_reg_def held_by_def f(1,3,5) fields by simp_all
  moreover have "inv_slot s' = inv_slot s" "inv_count s' = inv_count s" "inv_scan s' = inv_scan s"
    unfolding inv_slot_def inv_count_def inv_scan_def f(5-) same by (simp_all add: s')
  moreover have "inv_excl s' = inv_excl s" unfolding inv_excl_def f(4,6) by (simp add: s')
  moreover have "inv_snap s' = inv_snap s" by (rule snapshots_out [of _ _ t]) (use c pc in \<open>simp_all add: s'\<close>)
  ultimately show ?thesis unfolding rw_inv_def by blast
qed

lemma rw_inv_unguarded_frame:
  assumes pc: "pc s t = UFinish b c" and s': "s' = s\<lparr>pc := (pc s)(t := Idle)\<rparr>"
  shows "rw_inv M s' \<longleftrightarrow> rw_inv M s"
proof -
  have f: "w_owner (pc s' u) = w_owner (pc s u)" "w_flag (pc s' u) = w_flag (pc s u)"
    "w_excl (pc s' u) = w_excl (pc s u)" "r_owner (pc s' u) = r_owner (pc s u)"
    "in_read (pc s' u) = in_read (pc s u)" "pinning (pc s' u) = pinning (pc s u)"
    "pc_count (pc s' u) = pc_count (pc s u)" "(pc s' u = WScan k d) = (pc s u = WScan k d)"
    "(pc s' u = RPush e) = (pc s u = RPush e)" for u k d e
    by (simp_all add: s' pc)
  have same: "pins s' = pins s" by (simp add: s' pins_def fun_eq_iff)
  have "inv_write M s' = inv_write M s" "inv_flag s' = inv_flag s" "inv_reg M s' = inv_reg M s"
    "inv_slot s' = inv_slot s" "inv_count s' = inv_count s" "inv_excl s' = inv_excl s"
    "inv_scan s' = inv_scan s"
    unfolding inv_write_def inv_flag_def inv_reg_def inv_slot_def inv_count_def inv_excl_def inv_scan_def
      held_by_def f same by (simp_all add: s')
  moreover have "inv_snap s' = inv_snap s" by (rule snapshots_out [of _ _ t]) (use pc in \<open>simp_all add: s'\<close>)
  ultimately show ?thesis unfolding rw_inv_def by simp
qed

text \<open>
  What an interrupted call has read is still what is there, its counter is still that of its thread,
  and at most one writing method is interrupted.
\<close>

definition frame_ok :: "('c, 'l, 'r) sys \<Rightarrow> tid \<Rightarrow> ('c, 'r) pc \<Rightarrow> bool" where
  "frame_ok s t p \<longleftrightarrow> runs_user_code p \<and>
     (\<forall>i b c. p = RFinish i b c \<longrightarrow> c = dirty s \<and> slot s t = Some i) \<and>
     (\<forall>d c. p = WCommit d c \<longrightarrow> c = dirty s \<and> \<not> wguard s t)"

definition nested_inv :: "'l mutex_ops \<Rightarrow> ('c, 'l, 'r) nested \<Rightarrow> bool" where
  "nested_inv M n \<longleftrightarrow> rw_inv M (flat n) \<and> length (frame_writers (frames n)) \<le> 1 \<and>
     (\<forall>(t, p) \<in> set (frames n). frame_ok (core n) t p)"

lemma flat_simps [simp]:
  "guards (flat n) = guards (core n) @ frame_guards (frames n)"
  "wguard (flat n) = (\<lambda>t. wguard (core n) t \<or> t \<in> set (frame_writers (frames n)))"
  "pc (flat n) = pc (core n)" "slot (flat n) = slot (core n)" "dirty (flat n) = dirty (core n)"
  "writing (flat n) = writing (core n)" "leaked (flat n) = leaked (core n)"
  by (simp_all add: flat_def)

lemma frame_guardsI: "(t, RFinish i b c) \<in> set fs \<Longrightarrow> (t, i) \<in> set (frame_guards fs)"
  by (induction fs rule: frame_guards.induct) auto

lemma frame_writersI: "(t, WCommit d c) \<in> set fs \<Longrightarrow> t \<in> set (frame_writers fs)"
  by (induction fs rule: frame_writers.induct) auto

lemma frame_writersD: "t \<in> set (frame_writers fs) \<Longrightarrow> \<exists>d c. (t, WCommit d c) \<in> set fs"
  by (induction fs rule: frame_writers.induct) auto

lemma nested_invD:
  assumes "nested_inv M n"
  shows "inv_write M (flat n)" "inv_excl (flat n)" "inv_slot (flat n)" "inv_snap (flat n)"
    and "(t, p) \<in> set (frames n) \<Longrightarrow> frame_ok (core n) t p"
    and "t \<in> set (frame_writers (frames n)) \<Longrightarrow> \<not> wguard (core n) t \<and> \<not> w_owner (pc (core n) t)"
proof -
  show i: "inv_write M (flat n)" "inv_excl (flat n)" "inv_slot (flat n)" "inv_snap (flat n)"
    using assms by (simp_all add: nested_inv_def rw_inv_def)
  show ok: "frame_ok (core n) t p" if "(t, p) \<in> set (frames n)" for t p
    using assms that unfolding nested_inv_def by fast
  show "\<not> wguard (core n) t \<and> \<not> w_owner (pc (core n) t)" if t: "t \<in> set (frame_writers (frames n))"
  proof -
    obtain d c where "(t, WCommit d c) \<in> set (frames n)" using frame_writersD [OF t] by blast
    then show ?thesis using ok i(1) t unfolding frame_ok_def inv_write_def by force
  qed
qed

text \<open>No other thread writes below an interrupted call.\<close>

lemma frame_bars_writers:
  assumes "nested_inv M n" "(u, p) \<in> set (frames n)" "\<not> (\<exists>d c. p = UFinish d c)"
  shows "\<not> w_excl (pc (core n) t) \<and> \<not> wguard (core n) t"
proof (rule ccontr)
  note inv = nested_invD [OF assms(1)]
  assume "\<not> (\<not> w_excl (pc (core n) t) \<and> \<not> wguard (core n) t)"
  then have t: "w_excl (pc (flat n) t) \<or> wguard (flat n) t" and own: "w_owner (pc (core n) t) \<or> wguard (core n) t"
    using w_excl_owner by auto
  note ex = excl_alone [OF inv(1,2) t]
  have none: "(u, RFinish i b c) \<notin> set (frames n)" for i b c
    using ex(1) frame_guardsI [of u i b c "frames n"] by auto
  have "(u, WCommit d c) \<notin> set (frames n)" for d c
  proof
    assume "(u, WCommit d c) \<in> set (frames n)"
    then have "u \<in> set (frame_writers (frames n))" by (rule frame_writersI)
    then show False using ex(4) [of u] inv(6) [of u] own by (cases "u = t") auto
  qed
  then show False using none inv(5) [OF assms(2)] assms(2,3) by (cases p) (auto simp: frame_ok_def)
qed

lemma slot_stays:
  assumes "rw_step M t s s'" "\<And>b. pc s t = RPush b \<Longrightarrow> slot s t = None" "slot s u = Some i"
  shows "slot s' u = Some i"
  using assms(1) by (cases rule: rw_step.cases) (use assms(2,3) in auto)

lemma no_new_wguard:
  assumes "rw_step M t s s'" "\<not> wguard s u" "\<not> w_owner (pc s u)"
  shows "\<not> wguard s' u"
  using assms(1) by (cases rule: rw_step.cases) (use assms(2,3) in auto)

lemma plain_step:
  assumes "nested_inv M n" "perform M t e (core n) = Some s"
  shows "rw_step M t (flat n) (flat (n\<lparr>core := s\<rparr>))"
proof -
  have "perform M t e (flat n) = Some (flat (n\<lparr>core := s\<rparr>))"
    unfolding flat_def using perform_lifted [OF assms(2)] nested_invD(6) [OF assms(1)] by fastforce
  then show ?thesis by (rule perform_step)
qed

lemma nested_inv_plain:
  assumes M: "mutex_laws M" and inv: "nested_inv M n" and room: "has_room (flat n)"
    and s: "perform M t e (core n) = Some s"
  shows "nested_inv M (n\<lparr>core := s\<rparr>)"
proof -
  have "rw_inv M (flat (n\<lparr>core := s\<rparr>))"
    using rw_inv_step [OF M _ room plain_step [OF inv s]] inv by (simp add: nested_inv_def)
  moreover have "frame_ok s u p" if u: "(u, p) \<in> set (frames n)" for u p
  proof -
    note step = perform_step [OF s] and ok = nested_invD(5) [OF inv u]
    have "dirty s = dirty (core n)" if "\<not> (\<exists>d c. p = UFinish d c)"
      using dirty_changes_excl [OF step] frame_bars_writers [OF inv u that] by blast
    moreover have "slot s u = Some i" if "p = RFinish i b c" for i b c
      using slot_stays [OF step] inv_slotD(5) [OF nested_invD(3) [OF inv], of t] ok that by (simp add: frame_ok_def)
    moreover have "\<not> wguard s u" if "p = WCommit d c" for d c
      using no_new_wguard [OF step] nested_invD(6) [OF inv frame_writersI] u that by blast
    ultimately show ?thesis using ok by (auto simp: frame_ok_def)
  qed
  ultimately show ?thesis using inv by (auto simp: nested_inv_def)
qed

text \<open>Interrupting a body and going back to it are the two directions of one fact.\<close>

lemma nested_inv_frame:
  assumes pc: "runs_user_code p" and idle: "pc s t = Idle"
    and sl: "\<And>i b c. p = RFinish i b c \<Longrightarrow> slot s t = Some i"
    and c: "\<And>i b c. p = RFinish i b c \<Longrightarrow> c = dirty s" "\<And>d c. p = WCommit d c \<Longrightarrow> c = dirty s"
    and w: "\<And>d c. p = WCommit d c \<Longrightarrow> \<not> wguard s t \<and> t \<notin> set (frame_writers (xs @ ys))"
  shows "rw_inv M (flat \<lparr>core = s, frames = xs @ (t, p) # ys\<rparr>) \<longleftrightarrow>
    rw_inv M (flat \<lparr>core = goto t p s, frames = xs @ ys\<rparr>)"
proof -
  let ?out = "flat \<lparr>core = s, frames = xs @ (t, p) # ys\<rparr>" and ?inside = "flat \<lparr>core = goto t p s, frames = xs @ ys\<rparr>"
  have undo: "(pc s)(t := p, t := Idle) = pc s" using idle by (simp add: fun_upd_idem)
  show ?thesis
  proof (cases p)
    case (RFinish i b x)
    show ?thesis
      by (rule rw_inv_read_frame [where i = i and b = b and c = x and t = t and
          gs = "guards s @ frame_guards xs @ (t, i) # frame_guards ys"])
        (use RFinish sl c undo in \<open>auto simp: flat_def lifted_def goto_def\<close>)
  next
    case (WCommit d x)
    show ?thesis
      by (rule rw_inv_write_frame [where d = d and c = x and t = t])
        (use WCommit w c undo in \<open>auto simp: flat_def lifted_def goto_def fun_eq_iff\<close>)
  next
    case (UFinish b x)
    show ?thesis
      by (rule rw_inv_unguarded_frame [where b = b and c = x and t = t])
        (use UFinish undo in \<open>auto simp: flat_def lifted_def goto_def fun_eq_iff\<close>)
  qed (use pc in simp_all)
qed

lemma nested_inv_enter:
  assumes inv: "nested_inv M n" and p: "runs_user_code (pc (core n) t)"
  shows "nested_inv M \<lparr>core = goto t Idle (core n), frames = (t, pc (core n) t) # frames n\<rparr>"
proof -
  let ?s = "goto t Idle (core n)" and ?p = "pc (core n) t"
  note d = nested_invD [OF inv]
  have ok: "frame_ok (core n) t ?p"
    unfolding frame_ok_def
    using p inv_slotD(4) [OF d(3), of t] d(1,4) by (auto simp: inv_snap_def inv_write_def)
  have undo: "\<lparr>core = goto t ?p ?s, frames = frames n\<rparr> = n" by (simp add: goto_def)
  have none: "frame_writers (frames n) = []" if "?p = WCommit e c" for e c
  proof -
    have "w_excl (pc (flat n) t) \<or> wguard (flat n) t" using that by simp
    from excl_alone(4) [OF d(1,2) this] have "u \<notin> set (frame_writers (frames n))" for u
      using d(6) [of u] that by (cases "u = t") auto
    then show ?thesis by (metis list.set_intros(1) neq_Nil_conv)
  qed
  have "rw_inv M (flat \<lparr>core = ?s, frames = [] @ (t, ?p) # frames n\<rparr>)"
    by (subst nested_inv_frame) (use p ok none inv in \<open>auto simp: undo frame_ok_def nested_inv_def, auto simp: goto_def\<close>)
  moreover have "length (frame_writers ((t, ?p) # frames n)) \<le> 1"
    using none inv by (cases ?p) (auto simp: nested_inv_def)
  moreover have "frame_ok ?s u q = frame_ok (core n) u q" for u q by (simp add: frame_ok_def goto_def)
  ultimately show ?thesis using ok inv by (simp add: nested_inv_def)
qed

lemma nested_inv_leave:
  assumes inv: "nested_inv M n" and p: "pc (core n) t = Idle" "pop_frame t (frames n) = Some (p, fs)"
  shows "nested_inv M \<lparr>core = goto t p (core n), frames = fs\<rparr>"
proof -
  obtain xs ys where f: "frames n = xs @ (t, p) # ys" "fs = xs @ ys"
    using pop_frame_split [OF p(2)] by blast
  have ok: "frame_ok (core n) t p" using nested_invD(5) [OF inv, of t p] f(1) by simp
  have one: "length (frame_writers (xs @ (t, p) # ys)) \<le> 1" using inv f(1) by (simp add: nested_inv_def)
  have n: "n = \<lparr>core = core n, frames = xs @ (t, p) # ys\<rparr>" using f(1) by (cases n) simp
  have "rw_inv M (flat n)" using inv by (simp add: nested_inv_def)
  then have "rw_inv M (flat \<lparr>core = goto t p (core n), frames = xs @ ys\<rparr>)"
    by (subst (asm) n, subst (asm) nested_inv_frame)
      (use ok p(1) one in \<open>auto simp: frame_ok_def\<close>)
  moreover have "length (frame_writers (xs @ ys)) \<le> 1" using one by (cases p) simp_all
  moreover have "frame_ok (goto t p (core n)) u q = frame_ok (core n) u q" for u q by (simp add: frame_ok_def goto_def)
  ultimately show ?thesis using inv f by (auto simp: nested_inv_def)
qed

lemma nested_inv_step:
  assumes "mutex_laws M" "nested_inv M n" "has_room (flat n)" "nested_perform M t a n = Some n'"
  shows "nested_inv M n'"
proof (cases a)
  case (Plain e)
  then show ?thesis
    using assms(4) nested_inv_plain [OF assms(1-3)] by (auto simp: nested_perform_def split: option.splits)
next
  case Enter
  then show ?thesis
    using assms(4) nested_inv_enter [OF assms(2)] by (auto simp: nested_perform_def split: if_splits)
next
  case Leave
  then show ?thesis
    using assms(4) nested_inv_leave [OF assms(2)]
    by (auto simp: nested_perform_def split: if_splits option.splits)
qed

lemma flat_start: "flat \<lparr>core = s, frames = []\<rparr> = s"
  by (simp add: flat_def lifted_def)

lemma nested_reach_inv:
  assumes "mutex_laws M" "nested_reach M c n"
  shows "nested_inv M n \<and> has_room (flat n)"
  using assms(2)
proof (induction rule: nested_reach.induct)
  case (nested_start s)
  then show ?case using reach_rw_inv [OF assms(1) nested_start] by (simp add: nested_inv_def flat_start)
next
  case (nested_act n t a n')
  then show ?case using nested_inv_step [OF assms(1)] by blast
qed

section \<open>Waiting goes on\<close>

text \<open>The bodies that have been interrupted.\<close>

fun in_write_body :: "('c, 'r) pc \<Rightarrow> bool" where
  "in_write_body (WCommit d c) = True"
| "in_write_body _ = False"

fun in_read_body :: "('c, 'r) pc \<Rightarrow> bool" where
  "in_read_body (RFinish i b c) = True"
| "in_read_body _ = False"

lemma in_stack: "p \<in> set (stack_of t fs) \<longleftrightarrow> (t, p) \<in> set fs"
  by (force simp: stack_of_def)

lemma write_frame: "\<exists>p \<in> set (stack_of t fs). in_write_body p \<Longrightarrow> t \<in> set (frame_writers fs)"
  by (auto simp: in_stack elim!: in_write_body.elims intro: frame_writersI)

lemma read_frame: "\<exists>p \<in> set (stack_of t fs). in_read_body p \<Longrightarrow> frame_guards fs \<noteq> []"
  by (auto simp: in_stack elim!: in_read_body.elims dest!: frame_guardsI)

text \<open>A call that waits leaves its loop by a look at the flag, or by a scan that finds nobody.\<close>

lemma read_waits:
  assumes "rw_step M v s s'" "writing s" "awaits_read (pc s u)"
  shows "awaits_read (pc s' u)"
proof (cases "u = v")
  case True
  show ?thesis using assms(1) by (cases rule: rw_step.cases) (use assms(2,3) True in simp_all)
next
  case False
  then show ?thesis using step_others(1) [OF assms(1) False] assms(3) by simp
qed

lemma write_waits:
  assumes "rw_step M v s s'" "awaits_write (pc s u)"
  shows "awaits_write (pc s' u) \<or> w_excl (pc s' u)"
proof (cases "u = v")
  case True
  show ?thesis using assms(1) by (cases rule: rw_step.cases) (use assms(2) True in simp_all)
next
  case False
  then show ?thesis using step_others(1) [OF assms(1) False] assms(2) by simp
qed

text \<open>A thread that waits for its call neither interrupts a body nor goes back to one.\<close>

lemma waiting_keeps_stack:
  assumes "nested_perform M u a n = Some n'" "awaits_read (pc (core n) t) \<or> awaits_write (pc (core n) t)"
  shows "stack_of t (frames n') = stack_of t (frames n)"
    "nested_inv M n \<Longrightarrow> rw_step M u (flat n) (flat n') \<or> pc (core n') t = pc (core n) t"
proof -
  have "\<not> runs_user_code (pc (core n) t)" "pc (core n) t \<noteq> Idle" using assms(2) by (cases "pc (core n) t"; simp)+
  then have n: "u = t \<Longrightarrow> \<exists>e. a = Plain e"
    using assms(1) by (cases a) (auto simp: nested_perform_def split: if_splits)
  show "stack_of t (frames n') = stack_of t (frames n)"
    using assms(1) n
    by (cases a) (auto simp: nested_perform_def stack_of_def dest!: pop_frame_split split: option.splits if_splits)
  show "rw_step M u (flat n) (flat n') \<or> pc (core n') t = pc (core n) t" if inv: "nested_inv M n"
    using assms(1) n plain_step [OF inv, of u _]
    by (cases a) (auto simp: nested_perform_def goto_def split: option.splits if_splits)
qed

lemma inside_waits_step:
  assumes inv: "nested_inv M n" "nested_inv M n'" and step: "nested_perform M u a n = Some n'"
  shows "\<exists>p \<in> set (stack_of t (frames n)). in_write_body p \<Longrightarrow> awaits_read (pc (core n) t) \<Longrightarrow>
      awaits_read (pc (core n') t)"
    and "\<exists>p \<in> set (stack_of t (frames n)). in_write_body p \<or> in_read_body p \<Longrightarrow>
      awaits_write (pc (core n) t) \<Longrightarrow> awaits_write (pc (core n') t)"
    and "\<exists>p \<in> set (stack_of t (frames n)). in_read_body p \<Longrightarrow> awaits_read (pc (core n) t) \<Longrightarrow>
      scanning (pc (core n) w) \<Longrightarrow> awaits_read (pc (core n') t) \<and> scanning (pc (core n') w)"
proof -
  note keeps = waiting_keeps_stack [OF step]
  have rw: "rw_inv M (flat n)" using inv(1) by (simp add: nested_inv_def)
  then have flag: "writing (core n)" if "w_flag (pc (core n) v) \<or> v \<in> set (frame_writers (frames n))" for v
    using that by (auto simp: rw_inv_def inv_flag_def)
  {
    assume "\<exists>p \<in> set (stack_of t (frames n)). in_write_body p" and a: "awaits_read (pc (core n) t)"
    then have "writing (core n)" using flag write_frame by blast
    then show "awaits_read (pc (core n') t)"
      using keeps(2) [OF disjI1 [OF a] inv(1)] a read_waits [of M u "flat n" "flat n'" t] by auto
  }
  {
    assume p: "\<exists>p \<in> set (stack_of t (frames n)). in_write_body p \<or> in_read_body p"
      and a: "awaits_write (pc (core n) t)"
    show "awaits_write (pc (core n') t)"
      using keeps(2) [OF disjI2 [OF a] inv(1)]
    proof
      assume r: "rw_step M u (flat n) (flat n')"
      show ?thesis
      proof (cases "\<exists>p \<in> set (stack_of t (frames n)). in_read_body p")
        case True
        then show ?thesis using awaits_write_stays(1) [OF rw r, of t] a read_frame by auto
      next
        case False
        then have "t \<in> set (frame_writers (frames n'))"
          using p keeps(1) [OF disjI2 [OF a]] write_frame [of t "frames n'"] by auto
        then have "\<not> w_excl (pc (core n') t)" using nested_invD(6) [OF inv(2)] w_excl_owner by blast
        then show ?thesis using write_waits [OF r, of t] a by simp
      qed
    qed (use a in simp)
  }
  {
    assume p: "\<exists>p \<in> set (stack_of t (frames n)). in_read_body p"
      and a: "awaits_read (pc (core n) t)" and w: "scanning (pc (core n) w)"
    have "awaits_read (pc (core n') t)"
      using keeps(2) [OF disjI1 [OF a] inv(1)] a w awaits_read_stays [OF rw, of u "flat n'" w t] by auto
    moreover have "scanning (pc (core n') w)"
      using waiting_keeps_stack(2) [OF step _ inv(1), of w] w awaits_write_stays [OF rw, of u "flat n'" w] read_frame [OF p]
      by (auto simp: scanning_def)
    ultimately show "awaits_read (pc (core n') t) \<and> scanning (pc (core n') w)" by blast
  }
qed

lemma nested_later_invariant:
  assumes "nested_later M n n'" "mutex_laws M" "nested_reach M c n" "P n"
    and "\<And>n u a n'. nested_inv M n \<Longrightarrow> nested_inv M n' \<Longrightarrow> nested_perform M u a n = Some n' \<Longrightarrow> P n \<Longrightarrow> P n'"
  shows "nested_reach M c n' \<and> P n'"
  using assms(1)
proof (induction rule: nested_later.induct)
  case (nested_step n1 t a n2)
  have n1: "nested_reach M c n1" "P n1" using nested_step.IH by simp_all
  have n2: "nested_reach M c n2" by (rule nested_act [OF n1(1) nested_step.hyps(2,3)])
  note inv = nested_reach_inv [OF assms(2)]
  have "P n2"
    by (rule assms(5) [OF inv [OF n1(1), THEN conjunct1] inv [OF n2, THEN conjunct1] nested_step.hyps(2) n1(2)])
  then show ?case using n2 by simp
qed (use assms(3,4) in simp)

text \<open>
  Property C32.  A container that is used again from inside one of its own calls.  A thread that calls
  a method of the container out of the body of a writing method, or a writing method out of the body
  of a reading one, waits for ever; so does one that calls a reading method out of the body of a
  reading one while a writer scans, and that writer too.  The outer call is never resumed.
\<close>

theorem calls_from_inside_wait:
  assumes "mutex_laws M" and "nested_reach M c n" and "nested_later M n n'"
  shows "((\<exists>p \<in> set (stack_of t (frames n)). in_write_body p) \<longrightarrow> awaits_read (pc (core n) t) \<longrightarrow>
      awaits_read (pc (core n') t) \<and> stack_of t (frames n') = stack_of t (frames n)) \<and>
    ((\<exists>p \<in> set (stack_of t (frames n)). in_write_body p \<or> in_read_body p) \<longrightarrow> awaits_write (pc (core n) t) \<longrightarrow>
      awaits_write (pc (core n') t) \<and> stack_of t (frames n') = stack_of t (frames n)) \<and>
    ((\<exists>p \<in> set (stack_of t (frames n)). in_read_body p) \<longrightarrow> awaits_read (pc (core n) t) \<longrightarrow>
      scanning (pc (core n) w) \<longrightarrow> awaits_read (pc (core n') t) \<and> scanning (pc (core n') w) \<and>
      stack_of t (frames n') = stack_of t (frames n))"
proof -
  let ?st = "stack_of t (frames n)"
  note run = nested_later_invariant [OF assms(3,1,2)]
  have 1: "awaits_read (pc (core n') t) \<and> stack_of t (frames n') = ?st"
    if "\<exists>p \<in> set ?st. in_write_body p" "awaits_read (pc (core n) t)"
    using run [of "\<lambda>x. awaits_read (pc (core x) t) \<and> stack_of t (frames x) = ?st"]
      inside_waits_step(1) waiting_keeps_stack(1) that by (metis (no_types, lifting))
  have 2: "awaits_write (pc (core n') t) \<and> stack_of t (frames n') = ?st"
    if "\<exists>p \<in> set ?st. in_write_body p \<or> in_read_body p" "awaits_write (pc (core n) t)"
    using run [of "\<lambda>x. awaits_write (pc (core x) t) \<and> stack_of t (frames x) = ?st"]
      inside_waits_step(2) waiting_keeps_stack(1) that by (metis (no_types, lifting))
  have 3: "awaits_read (pc (core n') t) \<and> scanning (pc (core n') w) \<and> stack_of t (frames n') = ?st"
    if "\<exists>p \<in> set ?st. in_read_body p" "awaits_read (pc (core n) t)" "scanning (pc (core n) w)"
    using run [of "\<lambda>x. awaits_read (pc (core x) t) \<and> scanning (pc (core x) w) \<and> stack_of t (frames x) = ?st"]
      inside_waits_step(3) waiting_keeps_stack(1) that by (metis (no_types, lifting))
  show ?thesis using 1 2 3 by blast
qed

text \<open>
  The same under a write guard: a thread that calls any method of a container while it owns a
  write guard of it waits for ever, and the guard stays alive.
\<close>

theorem calls_under_write_guard_wait:
  assumes "mutex_laws M" and "reach M c s" and "wguard s t"
    and "awaits_read (pc s t) \<or> awaits_write (pc s t)" and "later M s s'"
  shows "(awaits_read (pc s' t) \<or> awaits_write (pc s' t)) \<and> wguard s' t"
proof (rule later_invariant [OF assms(5,2)])
  let ?P = "\<lambda>x. (awaits_read (pc x t) \<or> awaits_write (pc x t)) \<and> wguard x t"
  show "?P s" using assms(3,4) by blast
  fix x v x'
  assume r: "reach M c x" and step: "rw_step M v x x'" and P: "?P x"
  have inv: "inv_write M x" "inv_flag x" using reach_rw_inv(1) [OF assms(1) r] by (simp_all add: rw_inv_def)
  have flag: "writing x" "\<not> w_owner (pc x t)" using inv P unfolding inv_flag_def inv_write_def by blast+
  have "\<not> w_excl (pc x' t)" if a: "awaits_write (pc x t)"
  proof (cases "v = t")
    case True
    show ?thesis using step by (cases rule: rw_step.cases) (use True a flag(2) in simp_all)
  next
    case False
    then show ?thesis using step_others(1) [OF step, of t] a by (cases "pc x t") simp_all
  qed
  then have "awaits_read (pc x' t) \<or> awaits_write (pc x' t)"
    using read_waits [OF step flag(1)] write_waits [OF step] P by blast
  moreover have "wguard x' t"
    using step by (cases rule: rw_step.cases) (use P in \<open>auto split: if_splits\<close>)
  ultimately show "?P x'" by blast
qed

section \<open>Instances\<close>

fun nested_perform_all :: "'l mutex_ops \<Rightarrow> (tid \<times> ('c, 'r) nested_action) list \<Rightarrow>
    ('c, 'l, 'r) nested \<Rightarrow> ('c, 'l, 'r) nested option" where
  "nested_perform_all M [] n = Some n"
| "nested_perform_all M ((t, a) # as) n =
     (case nested_perform M t a n of None \<Rightarrow> None | Some n' \<Rightarrow> nested_perform_all M as n')"

lemma count_frame_guards: "count_list (map snd (frame_guards (f # fs))) i \<le> Suc (count_list (map snd (frame_guards fs)) i)"
  by (cases "f # fs" rule: frame_guards.cases) auto

lemma nested_pins:
  assumes "nested_inv M n" "nested_perform M t a n = Some n'"
  shows "pins (flat n') i \<le> Suc (pins (flat n) i)"
proof (cases a)
  case (Plain e)
  then show ?thesis using assms plain_step [OF assms(1)] pins_step
    by (fastforce simp: nested_perform_def split: option.splits)
next
  case Enter
  then show ?thesis using assms(2) count_frame_guards [of "(t, pc (core n) t)" "frames n" i]
    by (auto simp: nested_perform_def pins_def goto_def split: if_splits)
next
  case Leave
  then obtain p fs where p: "pop_frame t (frames n) = Some (p, fs)" "n' = \<lparr>core = goto t p (core n), frames = fs\<rparr>"
    using assms(2) by (auto simp: nested_perform_def split: if_splits option.splits)
  obtain xs ys where "frames n = xs @ (t, p) # ys" "fs = xs @ ys" using pop_frame_split [OF p(1)] by blast
  then show ?thesis by (cases p) (simp_all add: p(2) pins_def goto_def)
qed

lemma nested_perform_all_reach:
  assumes "mutex_laws M" "nested_reach M c n" "nested_perform_all M as n = Some n'"
    "\<And>i. pins (flat n) i + length as + 1 < 2 ^ 64"
  shows "nested_reach M c n'"
  using assms(2-4)
proof (induction as arbitrary: n)
  case (Cons a as)
  obtain t x where a: "a = (t, x)" by (cases a)
  then obtain n1 where n1: "nested_perform M t x n = Some n1" "nested_perform_all M as n1 = Some n'"
    using Cons.prems(2) by (auto split: option.splits)
  have room: "pins (flat n1) i + length as + 1 < 2 ^ 64" for i
    using nested_pins [OF _ n1(1), of i] nested_reach_inv [OF assms(1) Cons.prems(1)] Cons.prems(3) [of i] by simp
  then have "has_room (flat n1)" unfolding has_room_def by (meson add_le_mono1 le_add1 le_less_trans)
  then show ?case using Cons.IH [OF nested_act [OF Cons.prems(1) n1(1)] n1(2) room] by blast
qed simp

text \<open>
  Thread 0 pushes, and the user code in the body calls a reading method: the call gets as far as
  the counter of the thread, which goes up and down from then on.
\<close>

definition inside_push :: "(tid \<times> (nat list, nat list) nested_action) list" where
  "inside_push = [(0, Plain (Start (demo_push 3))), (0, Plain Run), (0, Plain Run), (0, Plain Run),
     (0, Plain Run), (0, Plain Run), (0, Plain Run), (0, Enter), (0, Plain (Start demo_ref))]"

lemma demo_inside_push:
  "\<exists>n :: (nat list, tid option, nat list) nested. nested_reach owner_mutex [7] n \<and>
    (\<exists>p \<in> set (stack_of 0 (frames n)). in_write_body p) \<and> pc (core n) 0 = call_entry demo_ref \<and>
    (\<exists>n'. nested_perform owner_mutex 0 (Plain Run) n = Some n' \<and> has_room (flat n'))"
proof -
  let ?n0 = "\<lparr>core = sys_with owner_mutex 1 [7], frames = []\<rparr> :: (nat list, tid option, nat list) nested"
  have "\<exists>n. nested_perform_all owner_mutex inside_push ?n0 = Some n \<and>
      (\<exists>p \<in> set (stack_of 0 (frames n)). in_write_body p) \<and> pc (core n) 0 = call_entry demo_ref \<and>
      (\<exists>n'. nested_perform owner_mutex 0 (Plain Run) n = Some n' \<and> has_room (flat n'))"
    by (simp add: inside_push_def nested_perform_def demo stack_of_def has_room_def pins_def)
  then obtain n where n: "nested_perform_all owner_mutex inside_push ?n0 = Some n"
    "\<exists>p \<in> set (stack_of 0 (frames n)). in_write_body p" "pc (core n) 0 = call_entry demo_ref"
    "\<exists>n'. nested_perform owner_mutex 0 (Plain Run) n = Some n' \<and> has_room (flat n')" by blast
  have "nested_reach owner_mutex [7] n"
    by (rule nested_perform_all_reach [OF owner_mutex_laws nested_start [OF reach_new] n(1)])
      (simp add: flat_start pins_def inside_push_def)
  then show ?thesis using n by blast
qed

theorem calls_from_inside_wait_witness:
  "\<exists>n n' :: (nat list, tid option, nat list) nested. nested_perform owner_mutex 0 (Plain Run) n = Some n' \<and>
    (\<exists>p \<in> set (stack_of 0 (frames n')). in_write_body p) \<and> awaits_read (pc (core n') 0)"
proof -
  obtain n n' :: "(nat list, tid option, nat list) nested" where n: "nested_reach owner_mutex [7] n"
    "\<exists>p \<in> set (stack_of 0 (frames n)). in_write_body p" "pc (core n) 0 = call_entry demo_ref"
    "nested_perform owner_mutex 0 (Plain Run) n = Some n'" "has_room (flat n')" using demo_inside_push by blast
  have "nested_later owner_mutex n n'" by (rule nested_step [OF nested_refl n(4,5)])
  from calls_from_inside_wait [OF owner_mutex_laws n(1) this, of 0]
  have "awaits_read (pc (core n) 0) \<longrightarrow>
      awaits_read (pc (core n') 0) \<and> stack_of 0 (frames n') = stack_of 0 (frames n)" using n(2) by blast
  then have "awaits_read (pc (core n') 0)" "stack_of 0 (frames n') = stack_of 0 (frames n)"
    using n(3) by (simp_all add: demo_ref_def)
  then show ?thesis using n(2,4) by metis
qed

lemma demo_holding:
  "\<exists>s :: demo. reach owner_mutex [7] s \<and> wguard s 0 \<and> awaits_read (pc s 0)"
  by (rule reach_by_schedule [where i = 1 and as = "[(0, Start (WriteCall (\<lambda>m. (m, Held m)))), (0, Run),
      (0, Run), (0, Run), (0, Run), (0, Run), (0, Run), (0, Run), (0, Start demo_ref)]"])
    (simp_all add: demo)

theorem calls_under_write_guard_wait_witness:
  "\<exists>s :: demo. reach owner_mutex [7] s \<and> wguard s 0 \<and> (awaits_read (pc s 0) \<or> awaits_write (pc s 0))"
  using demo_holding calls_under_write_guard_wait [OF owner_mutex_laws _ _ _ later_refl] by metis

end
