(* ===== verification/Rw_Stale.thy ===== *)
theory Rw_Stale
  imports Rw_Instances
begin

text \<open>
  The ordering of the releases.  A guard, an iterator and a reading method give their slot back
  with \<open>fetch_sub(1, Release)\<close>, and a writer's \<open>SeqCst\<close> load of the counter may see this late:
  the scan may find a counter up that has gone down already.  (It cannot find a counter down
  that has gone up before the flag was raised: the increment, the two accesses to the flag and
  the load are all \<open>SeqCst\<close>.)  What such a scan does is give up and begin again, so the actions
  of \<open>Rw_Lock\<close> and this one more cover both orders, and everything that is safe without it is safe
  with it.
\<close>

section \<open>Scans that see a release late\<close>

inductive stale_step :: "'l mutex_ops \<Rightarrow> tid \<Rightarrow> ('c, 'l, 'r) sys \<Rightarrow> ('c, 'l, 'r) sys \<Rightarrow> bool"
  for M :: "'l mutex_ops" and t :: tid and s :: "('c, 'l, 'r) sys" where
  in_order: "rw_step M t s s' \<Longrightarrow> stale_step M t s s'"
| sees_late: "pc s t = WScan k d \<Longrightarrow> k < length (registry s) \<Longrightarrow>
    stale_step M t s (s\<lparr>pc := (pc s)(t := WRetry d)\<rparr>)"

inductive stale_reach :: "'l mutex_ops \<Rightarrow> 'c \<Rightarrow> ('c, 'l, 'r) sys \<Rightarrow> bool"
  for M :: "'l mutex_ops" and c :: 'c where
  stale_new: "stale_reach M c (sys_with M i c)"
| stale_next: "stale_reach M c s \<Longrightarrow> stale_step M t s s' \<Longrightarrow> has_room s' \<Longrightarrow> stale_reach M c s'"
| stale_owned: "stale_reach M c s \<Longrightarrow> \<forall>t. pc s t = Idle \<and> \<not> wguard s t \<Longrightarrow> guards s = [] \<Longrightarrow>
     stale_reach M c (write_through f s)"

lemma reach_stale: "reach M c s \<Longrightarrow> stale_reach M c s"
  by (induction rule: reach.induct) (auto intro: stale_reach.intros in_order)

section \<open>The invariant\<close>

text \<open>Giving up a scan keeps every lock, the flag and the counters as they are.\<close>

lemma rw_inv_give_up:
  assumes "rw_inv M s" "pc s t = WScan k d"
  shows "rw_inv M (s\<lparr>pc := (pc s)(t := WRetry d)\<rparr>)"
proof -
  let ?s = "s\<lparr>pc := (pc s)(t := WRetry d)\<rparr>"
  have same: "w_owner (pc ?s u) = w_owner (pc s u)" "w_flag (pc ?s u) = w_flag (pc s u)"
    "r_owner (pc ?s u) = r_owner (pc s u)" "pc_count (pc ?s u) = pc_count (pc s u)"
    "pinning (pc ?s u) = pinning (pc s u)" "in_read (pc ?s u) = in_read (pc s u)"
    "w_excl (pc ?s u) = w_excl (pc s u)" "pc ?s u = RPush b \<longleftrightarrow> pc s u = RPush b"
    "pc ?s u = RFinish i b' x \<longleftrightarrow> pc s u = RFinish i b' x" "pc ?s u = WCommit e x \<longleftrightarrow> pc s u = WCommit e x"
    for u b i b' x e
    using assms(2) by (cases "u = t"; simp)+
  have scan: "pc s u = WScan j e" if "pc ?s u = WScan j e" for u j e
    using that by (cases "u = t") simp_all
  have fields: "write_mutex ?s = write_mutex s" "writing ?s = writing s" "reg_lock ?s = reg_lock s"
    "registry ?s = registry s" "slot ?s = slot s" "guards ?s = guards s" "leaked ?s = leaked s"
    "wguard ?s = wguard s" "dirty ?s = dirty s" by simp_all
  have i: "inv_write M s" "inv_flag s" "inv_reg M s" "inv_slot s" "inv_count s" "inv_excl s"
    "inv_scan s" "inv_snap s"
    using assms(1) by (simp_all add: rw_inv_def)
  have "inv_write M ?s" using i(1) unfolding inv_write_def same fields .
  moreover have "inv_flag ?s" using i(2) unfolding inv_flag_def same fields .
  moreover have "inv_reg M ?s" using i(3) unfolding inv_reg_def same fields .
  moreover have "inv_slot ?s" using i(4) unfolding inv_slot_def same fields .
  moreover have "inv_count ?s" using i(5) unfolding inv_count_def same fields pins_simps .
  moreover have "inv_excl ?s" using i(6) unfolding inv_excl_def same fields .
  moreover have "inv_scan ?s" using i(7) scan unfolding inv_scan_def same fields pins_simps by blast
  moreover have "inv_snap ?s" using i(8) unfolding inv_snap_def same fields .
  ultimately show ?thesis by (simp add: rw_inv_def)
qed

lemma stale_reach_inv:
  assumes "mutex_laws M" "stale_reach M c s"
  shows "rw_inv M s \<and> has_room s \<and> replay (hist s) c = Some (dirty s)"
  using assms(2)
proof (induction rule: stale_reach.induct)
  case (stale_new i)
  then show ?case by (simp add: rw_inv_new [OF assms(1)] has_room_new)
next
  case (stale_next s t s')
  have inv: "rw_inv M s" "has_room s" and hist: "replay (hist s) c = Some (dirty s)"
    using stale_next.IH by blast+
  show ?case
    using stale_next.hyps(2)
  proof (cases rule: stale_step.cases)
    case in_order
    have "inv_snap s" using inv(1) by (simp add: rw_inv_def)
    then show ?thesis
      using rw_inv_step [OF assms(1) inv in_order] replay_step [OF _ hist in_order] stale_next.hyps(3)
      by blast
  next
    case (sees_late k d)
    then show ?thesis using rw_inv_give_up [OF inv(1) sees_late(2)] hist stale_next.hyps(3) by simp
  qed
next
  case (stale_owned s f)
  then show ?case using rw_inv_owned [of M s f]
    by (simp add: write_through_def log_event_def replay_append has_room_def)
qed

text \<open>
  The protocol is safe with the releases in any order: also when scans see them
  late, no thread may read under a slot, or write, while another one may write, and the
  history, replayed one access after the other, gives every call the result that it had.
\<close>

theorem late_releases_are_safe:
  assumes "mutex_laws M" and "stale_reach M c s" and "may_write s t"
  shows "\<not> may_read s u \<and> (may_write s u \<longrightarrow> u = t) \<and> replay (hist s) c = Some (dirty s)"
proof -
  have inv: "inv_write M s" "inv_excl s" and hist: "replay (hist s) c = Some (dirty s)"
    using stale_reach_inv [OF assms(1,2)] by (simp_all add: rw_inv_def)
  show ?thesis using inv_exclusive [OF inv assms(3)] hist by blast
qed

section \<open>Instances\<close>

lemma stale_later: "later M s s' \<Longrightarrow> stale_reach M c s \<Longrightarrow> stale_reach M c s'"
  by (induction rule: later.induct) (auto intro: stale_next in_order)

text \<open>
  Thread 1 has read and released its slot; the writer's first scan sees the counter up all the
  same, gives up, and the second succeeds.
\<close>

definition give_up :: "demo \<Rightarrow> demo" where
  "give_up s = s\<lparr>pc := (pc s)(0 := WRetry (\<lambda>m. (m @ [3], Finished [])))\<rparr>"

lemma give_up_reach:
  assumes "reach owner_mutex [7] s" "pc s 0 = WScan 0 (\<lambda>m. (m @ [3], Finished []))"
    "registry s = [0]" "has_room (give_up s)"
  shows "stale_reach owner_mutex [7] (give_up s)"
proof -
  have "stale_step owner_mutex 0 s (s\<lparr>pc := (pc s)(0 := WRetry (\<lambda>m. (m @ [3], Finished [])))\<rparr>)"
    using assms(3) by (intro sees_late [OF assms(2)]) simp
  then have "stale_step owner_mutex 0 s (give_up s)" unfolding give_up_def .
  from stale_next [OF reach_stale [OF assms(1)] this assms(4)] show ?thesis .
qed

lemma give_up_room: "guards s = [] \<Longrightarrow> leaked s = [] \<Longrightarrow> has_room s \<Longrightarrow> has_room (give_up s)"
  by (simp add: has_room_def give_up_def)

lemma give_up_guards: "guards (give_up s) = guards s" "leaked (give_up s) = leaked s"
  by (simp_all add: give_up_def)

abbreviation retrying :: "(tid \<times> (nat list, nat list) action) list" where
  "retrying \<equiv> [(0, Run), (0, Run), (0, Run), (0, Run), (0, Run)]"

definition succeeds :: "demo option \<Rightarrow> bool" where
  "succeeds x = (case x of None \<Rightarrow> False | Some s \<Rightarrow> may_write s 0 \<and> registry s = [0])"

lemma succeeds_some: "succeeds x \<Longrightarrow> \<exists>s. x = Some s \<and> may_write s 0 \<and> registry s = [0]"
  by (cases x) (simp_all add: succeeds_def)

lemma demo_given_up:
  "\<exists>s :: demo. reach owner_mutex [7] s \<and>
      (pc s 0 = WScan 0 (\<lambda>m. (m @ [3], Finished [])) \<and> registry s = [0] \<and> guards s = [] \<and> leaked s = [] \<and>
       succeeds (perform_all owner_mutex retrying (give_up s)))"
  by (rule reach_by_schedule [where i = 1 and as = "[(1, Start demo_ref), (1, Run), (1, Run), (1, Run),
      (1, Run), (1, Run), (1, Run), (1, DropGuard 0), (0, Start (demo_push 3)), (0, Run), (0, Run),
      (0, Run)]"])
    (simp_all add: demo give_up_def succeeds_def)

lemma demo_late:
  "\<exists>s :: demo. stale_reach owner_mutex [7] s \<and> may_write s 0 \<and> registry s = [0]"
proof -
  obtain s :: demo where s: "reach owner_mutex [7] s" "pc s 0 = WScan 0 (\<lambda>m. (m @ [3], Finished []))"
    "registry s = [0]" "guards s = []" "leaked s = []"
    and go: "succeeds (perform_all owner_mutex retrying (give_up s))" using demo_given_up by blast
  obtain s' where s': "perform_all owner_mutex retrying (give_up s) = Some s'" "may_write s' 0" "registry s' = [0]"
    using succeeds_some [OF go] by blast
  have room: "has_room (give_up s)"
    by (rule give_up_room [OF s(4,5)]) (rule reach_rw_inv(2) [OF owner_mutex_laws s(1)])
  have quiet: "guards (give_up s) = []" "leaked (give_up s) = []" using s(4,5) by (simp_all only: give_up_guards)
  have "later owner_mutex (give_up s) s'" by (rule perform_all_later [OF _ s'(1)]) (simp add: quiet pins_def)
  then have "stale_reach owner_mutex [7] s'" using give_up_reach [OF s(1-3) room] by (rule stale_later)
  then show ?thesis using s'(2,3) by blast
qed

theorem late_releases_are_safe_witness:
  "\<exists>s :: demo. stale_reach owner_mutex [7] s \<and> may_write s 0 \<and> \<not> may_read s 1 \<and> \<not> may_write s 1"
  using demo_late late_releases_are_safe [OF owner_mutex_laws] by (metis zero_neq_one)

end
