(* ===== verification/Rw_Happens.thy ===== *)
theory Rw_Happens
  imports Rw_Stale
begin

text \<open>
  Happens-before.  The theories before this one order the actions of threads in time; the memory
  model of the language calls two accesses a data race when no synchronisation orders them, be
  they far apart in time.  Here every thread and every atomic location carries the set of the
  accesses to the contents that happen before it: a release operation passes the knowledge of its
  thread on to the location, an acquire operation takes over that of the location.  The orderings
  are those of the source; \<open>begin_read\<close> and \<open>begin_write\<close> use \<open>SeqCst\<close>, the release of a slot is
  \<open>fetch_sub(1, Release)\<close>.
\<close>

section \<open>What is known where\<close>

text \<open>
  An access: its thread, whether it is made under the write lock (it counts as a write then), and
  the accesses that happened before it.  The accesses under a slot, a guard or the write lock
  (field \<open>accesses\<close>) are numbered in the order in which they begin.
\<close>

record access =
  by_thread :: tid
  is_store :: bool
  before :: "nat set"

record knowledge =
  know :: "tid \<Rightarrow> nat set"
  at_mutex :: "nat set"
  at_flag :: "nat set"
  at_registry :: "nat set"
  at_count :: "nat \<Rightarrow> nat set"
  accesses :: "access list"
  loose :: "access list"

definition nothing_known :: knowledge where
  "nothing_known = \<lparr>know = (\<lambda>_. {}), at_mutex = {}, at_flag = {}, at_registry = {},
     at_count = (\<lambda>_. {}), accesses = [], loose = []\<rparr>"

definition acquire :: "tid \<Rightarrow> nat set \<Rightarrow> knowledge \<Rightarrow> knowledge" where
  "acquire t K v = v\<lparr>know := (know v)(t := know v t \<union> K)\<rparr>"

definition do_access :: "tid \<Rightarrow> bool \<Rightarrow> knowledge \<Rightarrow> knowledge" where
  "do_access t w v = v\<lparr>accesses := accesses v @ [\<lparr>by_thread = t, is_store = w, before = know v t\<rparr>],
     know := (know v)(t := insert (length (accesses v)) (know v t))\<rparr>"

text \<open>
  \<open>Index::index\<close> and \<open>get_uncheck\<close> take no slot and no lock.  Their accesses have a list of their
  own: nothing orders them with the others.
\<close>

definition do_loose_access :: "tid \<Rightarrow> knowledge \<Rightarrow> knowledge" where
  "do_loose_access t v = v\<lparr>loose := loose v @ [\<lparr>by_thread = t, is_store = False, before = know v t\<rparr>]\<rparr>"

text \<open>
  A read-modify-write with \<open>Release\<close> adds to what the location passes on (it continues the release
  sequences of the writes before it); one with \<open>SeqCst\<close> takes over as well.
\<close>

definition count_release :: "tid \<Rightarrow> nat \<Rightarrow> knowledge \<Rightarrow> knowledge" where
  "count_release t i v = v\<lparr>at_count := (at_count v)(i := at_count v i \<union> know v t)\<rparr>"

definition count_seq_cst :: "tid \<Rightarrow> nat \<Rightarrow> knowledge \<Rightarrow> knowledge" where
  "count_seq_cst t i v = count_release t i (acquire t (at_count v i) v)"

section \<open>The orderings of the source\<close>

text \<open>
  What the next action of a call does: the mutexes acquire and release, a store of the flag
  passes on what its thread knows, a load takes over.
\<close>

fun run_order :: "tid \<Rightarrow> ('c, 'l, 'r) sys \<Rightarrow> ('c, 'r) pc \<Rightarrow> knowledge \<Rightarrow> knowledge" where
  "run_order t s (RSlot b) v = (if slot s t = None then acquire t (at_registry v) v else v)"
| "run_order t s (RPush b) v = v\<lparr>at_registry := know v t\<rparr>"
| "run_order t s (RAdd i b) v = count_seq_cst t i v"
| "run_order t s (RLoad i b) v = acquire t (at_flag v) v"
| "run_order t s (RUndo i b) v = count_seq_cst t i v"
| "run_order t s (RBody i b) v = do_access t False v"
| "run_order t s (RSub i r) v = count_release t i v"
| "run_order t s (WLock b) v = acquire t (at_mutex v) v"
| "run_order t s (WStore b) v = v\<lparr>at_flag := know v t\<rparr>"
| "run_order t s (WRegLock b) v = acquire t (at_registry v) v"
| "run_order t s (WScan k b) v = (if k < length (registry s) then acquire t (at_count v k) v else v)"
| "run_order t s (WRetry b) v = v\<lparr>at_registry := know v t\<rparr>"
| "run_order t s (WBreak b) v = v\<lparr>at_registry := know v t\<rparr>"
| "run_order t s (WBody b) v = do_access t True v"
| "run_order t s (WClear r) v = v\<lparr>at_flag := know v t\<rparr>"
| "run_order t s (WUnlock r) v = v\<lparr>at_mutex := know v t\<rparr>"
| "run_order t s (UBody u) v = do_loose_access t v"
| "run_order t s _ v = v"

text \<open>
  Between calls: a guard is dropped with \<open>Release\<close>, whatever moves a guard to another thread
  orders the two, and a store through a write guard is an access.
\<close>

fun order_of :: "tid \<Rightarrow> ('c, 'r) action \<Rightarrow> ('c, 'l, 'r) sys \<Rightarrow> knowledge \<Rightarrow> knowledge" where
  "order_of t Run s v = run_order t s (pc s t) v"
| "order_of t (DropGuard i) s v = count_release t i v"
| "order_of t (SendGuard i u) s v = acquire u (know v t) v"
| "order_of t (WriteThrough f) s v = do_access t True v"
| "order_of t _ s v = v"

section \<open>Executions\<close>

text \<open>
  Besides the actions of \<open>Rw_Lock\<close>: a thread reads through a guard that it owns (under the write
  lock this counts as a write); a scan sees a counter late and takes over less; threads
  synchronise by other means; and the owner of the container uses it through \<open>&mut self\<close>, which
  everything before and after is ordered with.
\<close>

definition owned_access :: "knowledge \<Rightarrow> knowledge" where
  "owned_access v = v\<lparr>accesses := accesses v @ [\<lparr>by_thread = 0, is_store = True, before = {..<length (accesses v)}\<rparr>],
     know := (\<lambda>_. {..length (accesses v)})\<rparr>"

inductive hb_reach :: "'l mutex_ops \<Rightarrow> 'c \<Rightarrow> ('c, 'l, 'r) sys \<Rightarrow> knowledge \<Rightarrow> bool"
  for M :: "'l mutex_ops" and c :: 'c where
  hb_new: "hb_reach M c (sys_with M i c) nothing_known"
| hb_act: "hb_reach M c s v \<Longrightarrow> perform M t a s = Some s' \<Longrightarrow> has_room s' \<Longrightarrow>
    hb_reach M c s' (order_of t a s v)"
| hb_deref: "hb_reach M c s v \<Longrightarrow> pc s t = Idle \<Longrightarrow> (t, i) \<in> set (guards s) \<Longrightarrow>
    hb_reach M c s (do_access t False v)"
| hb_deref_write: "hb_reach M c s v \<Longrightarrow> pc s t = Idle \<Longrightarrow> wguard s t \<Longrightarrow>
    hb_reach M c s (do_access t True v)"
| hb_late: "hb_reach M c s v \<Longrightarrow> pc s t = WScan k d \<Longrightarrow> k < length (registry s) \<Longrightarrow> K \<subseteq> at_count v k \<Longrightarrow>
    hb_reach M c (s\<lparr>pc := (pc s)(t := WRetry d)\<rparr>) (acquire t K v)"
| hb_sync: "hb_reach M c s v \<Longrightarrow> hb_reach M c s (acquire u (know v t) v)"
| hb_owned: "hb_reach M c s v \<Longrightarrow> \<forall>t. pc s t = Idle \<and> \<not> wguard s t \<Longrightarrow> guards s = [] \<Longrightarrow>
    hb_reach M c (write_through f s) (owned_access v)"

section \<open>The invariant\<close>

definition stores :: "knowledge \<Rightarrow> nat set" where
  "stores v = {j. j < length (accesses v) \<and> is_store (accesses v ! j)}"

definition owns_write :: "('c, 'l, 'r) sys \<Rightarrow> tid \<Rightarrow> bool" where
  "owns_write s t \<longleftrightarrow> w_owner (pc s t) \<or> wguard s t"

definition raised :: "('c, 'l, 'r) sys \<Rightarrow> tid \<Rightarrow> bool" where
  "raised s t \<longleftrightarrow> w_flag (pc s t) \<or> wguard s t"

definition alone :: "('c, 'l, 'r) sys \<Rightarrow> tid \<Rightarrow> bool" where
  "alone s t \<longleftrightarrow> w_excl (pc s t) \<or> wguard s t"

definition inside :: "('c, 'l, 'r) sys \<Rightarrow> tid \<Rightarrow> nat \<Rightarrow> bool" where
  "inside s t i \<longleftrightarrow> in_read (pc s t) \<and> pc_count (pc s t) = Some i \<or> (t, i) \<in> set (guards s)"

text \<open>
  Counter \<open>i\<close> answers for the access \<open>j\<close>: it passes the access on, or it is not going to be zero
  before somebody who knows the access has released it, if ever.
\<close>

definition answers :: "('c, 'l, 'r) sys \<Rightarrow> knowledge \<Rightarrow> nat \<Rightarrow> nat \<Rightarrow> bool" where
  "answers s v i j \<longleftrightarrow> i < length (registry s) \<and>
     (j \<in> at_count v i \<or> i \<in> set (leaked s) \<or> (\<exists>t. inside s t i \<and> j \<in> know v t))"

text \<open>
  The threads that have the write lock know the stores, and so does who takes it next; the same
  for readers and the flag; each access is known to the scan or ahead of it; and who has the
  contents for itself knows every access.
\<close>

definition hb_inv :: "('c, 'l, 'r) sys \<Rightarrow> knowledge \<Rightarrow> bool" where
  "hb_inv s v \<longleftrightarrow>
     (\<forall>t. owns_write s t \<longrightarrow> stores v \<subseteq> know v t) \<and>
     ((\<forall>t. \<not> owns_write s t) \<longrightarrow> (\<forall>t. stores v \<subseteq> at_mutex v \<union> know v t)) \<and>
     ((\<forall>t. \<not> raised s t) \<longrightarrow> (\<forall>t. stores v \<subseteq> at_flag v \<union> know v t)) \<and>
     (\<forall>t i. inside s t i \<longrightarrow> stores v \<subseteq> know v t) \<and>
     (\<forall>j < length (accesses v). j \<in> stores v \<or> (\<exists>i. answers s v i j)) \<and>
     (\<forall>t k d. pc s t = WScan k d \<longrightarrow>
        (\<forall>j < length (accesses v). j \<in> know v t \<or> (\<exists>i \<ge> k. answers s v i j))) \<and>
     (\<forall>t. alone s t \<longrightarrow> {..<length (accesses v)} \<subseteq> know v t)"

text \<open>Data-race freedom: of two accesses one of which is a store, the earlier happens before the later.\<close>

definition race_free :: "knowledge \<Rightarrow> bool" where
  "race_free v \<longleftrightarrow> (\<forall>j < length (accesses v). \<forall>i < j.
     is_store (accesses v ! i) \<or> is_store (accesses v ! j) \<longrightarrow> i \<in> before (accesses v ! j))"

lemma hb_invD:
  assumes "hb_inv s v"
  shows "owns_write s t \<Longrightarrow> stores v \<subseteq> know v t"
    and "(\<And>t. \<not> owns_write s t) \<Longrightarrow> stores v \<subseteq> at_mutex v \<union> know v t"
    and "(\<And>t. \<not> raised s t) \<Longrightarrow> stores v \<subseteq> at_flag v \<union> know v t"
    and "inside s t i \<Longrightarrow> stores v \<subseteq> know v t"
    and "j < length (accesses v) \<Longrightarrow> j \<notin> stores v \<Longrightarrow> \<exists>i. answers s v i j"
    and "pc s t = WScan k d \<Longrightarrow> j < length (accesses v) \<Longrightarrow> j \<notin> know v t \<Longrightarrow> \<exists>i \<ge> k. answers s v i j"
    and "alone s t \<Longrightarrow> j < length (accesses v) \<Longrightarrow> j \<in> know v t"
  using assms unfolding hb_inv_def by (blast, blast, blast, blast, blast, blast, blast)

lemma hb_invI:
  assumes "\<And>t. owns_write s t \<Longrightarrow> stores v \<subseteq> know v t"
    and "\<And>t. (\<And>t. \<not> owns_write s t) \<Longrightarrow> stores v \<subseteq> at_mutex v \<union> know v t"
    and "\<And>t. (\<And>t. \<not> raised s t) \<Longrightarrow> stores v \<subseteq> at_flag v \<union> know v t"
    and "\<And>t i. inside s t i \<Longrightarrow> stores v \<subseteq> know v t"
    and "\<And>j. j < length (accesses v) \<Longrightarrow> j \<notin> stores v \<Longrightarrow> \<exists>i. answers s v i j"
    and "\<And>t k d j. pc s t = WScan k d \<Longrightarrow> j < length (accesses v) \<Longrightarrow> j \<notin> know v t \<Longrightarrow> \<exists>i \<ge> k. answers s v i j"
    and "\<And>t j. alone s t \<Longrightarrow> j < length (accesses v) \<Longrightarrow> j \<in> know v t"
  shows "hb_inv s v"
  using assms unfolding hb_inv_def by blast

text \<open>Steps that are no access: nothing is forgotten, and what becomes true of the thread is justified.\<close>

lemma hb_inv_frame:
  assumes inv: "hb_inv s v"
    and others: "\<And>u. u \<noteq> t \<Longrightarrow> pc s' u = pc s u" "\<And>u. u \<noteq> t \<Longrightarrow> wguard s' u = wguard s u"
    and acc: "accesses v' = accesses v" and know: "\<And>u. know v u \<subseteq> know v' u"
    and writer: "owns_write s' t \<Longrightarrow> owns_write s t \<or> stores v \<subseteq> know v' t"
    and mutex: "\<not> owns_write s' t \<Longrightarrow>
      (at_mutex v' = at_mutex v \<and> \<not> owns_write s t) \<or> stores v \<subseteq> at_mutex v'"
    and flag: "\<not> raised s' t \<Longrightarrow>
      (at_flag v' = at_flag v \<and> \<not> raised s t) \<or> stores v \<subseteq> at_flag v'"
    and reader: "\<And>u i. inside s' u i \<Longrightarrow> (\<exists>i. inside s u i) \<or> stores v \<subseteq> know v' u"
    and answer: "\<And>i j. answers s v i j \<Longrightarrow> answers s' v' i j"
    and scan: "\<And>k d j. pc s' t = WScan k d \<Longrightarrow> j < length (accesses v) \<Longrightarrow> j \<notin> know v' t \<Longrightarrow>
      \<exists>i \<ge> k. answers s' v' i j"
    and excl: "\<And>j. alone s' t \<Longrightarrow> j < length (accesses v) \<Longrightarrow> alone s t \<or> j \<in> know v' t"
  shows "hb_inv s' v'"
proof -
  note d = hb_invD [OF inv]
  have st: "stores v' = stores v" by (simp add: stores_def acc)
  have same: "owns_write s' u = owns_write s u" "raised s' u = raised s u" "alone s' u = alone s u" if "u \<noteq> t" for u
    using others that by (simp_all add: owns_write_def raised_def alone_def)
  show ?thesis
  proof (rule hb_invI, unfold st acc)
    show "stores v \<subseteq> know v' u" if "owns_write s' u" for u
      using that writer d(1) [of u] know [of u] same(1) [of u] by (cases "u = t") blast+
    show "stores v \<subseteq> at_mutex v' \<union> know v' u" if free: "\<And>x. \<not> owns_write s' x" for u
      using mutex [OF free [of t]]
    proof
      assume *: "at_mutex v' = at_mutex v \<and> \<not> owns_write s t"
      then have "\<not> owns_write s x" for x using free [of x] same(1) [of x] by (cases "x = t") blast+
      from d(2) [OF this, of u] show ?thesis using * know [of u] by blast
    qed blast
    show "stores v \<subseteq> at_flag v' \<union> know v' u" if free: "\<And>x. \<not> raised s' x" for u
      using flag [OF free [of t]]
    proof
      assume *: "at_flag v' = at_flag v \<and> \<not> raised s t"
      then have "\<not> raised s x" for x using free [of x] same(2) [of x] by (cases "x = t") blast+
      from d(3) [OF this, of u] show ?thesis using * know [of u] by blast
    qed blast
    show "stores v \<subseteq> know v' u" if "inside s' u i" for u i
      using reader [OF that] d(4) [of u] know [of u] by blast
    show "\<exists>i. answers s' v' i j" if "j < length (accesses v)" "j \<notin> stores v" for j
      using d(5) [OF that] answer by blast
    show "\<exists>i \<ge> k. answers s' v' i j"
      if "pc s' u = WScan k e" "j < length (accesses v)" "j \<notin> know v' u" for u k e j
    proof (cases "u = t")
      case True
      then show ?thesis using scan that by blast
    next
      case False
      then have "pc s u = WScan k e" using others(1) that(1) by simp
      then show ?thesis using d(6) [of u k e j] that(2,3) know [of u] answer by blast
    qed
    show "j \<in> know v' u" if "alone s' u" "j < length (accesses v)" for u j
      using that excl d(7) [of u j] know [of u] same(3) [of u] by (cases "u = t") blast+
  qed
qed

lemma answers_mono:
  assumes "answers s v i j" "length (registry s) \<le> length (registry s')" "set (leaked s) \<subseteq> set (leaked s')"
    "at_count v i \<subseteq> at_count v' i" "\<And>u. know v u \<subseteq> know v' u" "\<And>u. inside s u i \<Longrightarrow> inside s' u i"
  shows "answers s' v' i j"
  using assms(1) unfolding answers_def
proof (elim conjE disjE exE)
  fix u assume "inside s u i" "j \<in> know v u" "i < length (registry s)"
  then show "i < length (registry s') \<and> (j \<in> at_count v' i \<or> i \<in> set (leaked s') \<or>
      (\<exists>t. inside s' t i \<and> j \<in> know v' t))"
    using assms(2,5,6) by (meson less_le_trans subsetD)
qed (use assms(2-4) in auto)

end
