(* ===== verification/Rw_Race_Free.thy ===== *)
theory Rw_Race_Free
  imports Rw_Happens
begin

text \<open>
  Every step of \<open>Rw_Happens\<close> keeps its invariant, so that conflicting accesses to the contents are
  ordered by the synchronisation of the source.
\<close>

section \<open>Accesses\<close>

text \<open>The access of a thread does not change where the threads are.\<close>

definition same_places :: "('c, 'l, 'r) sys \<Rightarrow> ('c, 'l, 'r) sys \<Rightarrow> bool" where
  "same_places s s' \<longleftrightarrow> owns_write s' = owns_write s \<and> raised s' = raised s \<and> alone s' = alone s \<and>
     inside s' = inside s \<and> length (registry s) \<le> length (registry s') \<and> leaked s' = leaked s \<and>
     (\<forall>t k d. pc s' t = WScan k d \<longrightarrow> pc s t = WScan k d)"

lemma do_access_simps [simp]:
  "accesses (do_access t w v) = accesses v @ [\<lparr>by_thread = t, is_store = w, before = know v t\<rparr>]"
  "know (do_access t w v) = (know v)(t := insert (length (accesses v)) (know v t))"
  "at_mutex (do_access t w v) = at_mutex v" "at_flag (do_access t w v) = at_flag v"
  "at_count (do_access t w v) = at_count v"
  by (simp_all add: do_access_def)

lemma stores_do_access:
  "stores (do_access t w v) = (if w then insert (length (accesses v)) (stores v) else stores v)"
  by (auto simp: stores_def nth_append less_Suc_eq)

lemma know_do_access: "know v u \<subseteq> know (do_access t w v) u"
  by auto

lemma inside_not_alone:
  assumes "rw_inv M s" "inside s t i"
  shows "\<not> alone s u"
proof
  assume "alone s u"
  then have "guards s = []" "\<not> in_read (pc s t)"
    using excl_alone [of M s u] assms(1) by (auto simp: alone_def rw_inv_def)
  then show False using assms(2) by (simp add: inside_def)
qed

lemma inside_ahead:
  assumes "rw_inv M s" "inside s t i" "pc s u = WScan k d"
  shows "k \<le> i" "i < length (registry s)"
proof -
  have sc: "\<forall>i < k. pins s i = 0 \<and> (\<forall>x. slot s x = Some i \<longrightarrow> \<not> in_read (pc s x))"
    using assms(1,3) by (auto simp: rw_inv_def inv_scan_def)
  have sl: "inv_slot s" using assms(1) by (simp add: rw_inv_def)
  have "\<not> i < k"
  proof
    assume "i < k"
    then have none: "pins s i = 0" "\<And>x. slot s x = Some i \<Longrightarrow> \<not> in_read (pc s x)" using sc by blast+
    have "(t, i) \<notin> set (guards s)"
      using none(1) by (force simp: pins_def count_list_0_iff)
    moreover have "\<not> (in_read (pc s t) \<and> pc_count (pc s t) = Some i)"
      using none(2) [of t] sl by (auto simp: inv_slot_def)
    ultimately show False using assms(2) by (simp add: inside_def)
  qed
  then show "k \<le> i" by simp
  show "i < length (registry s)" using assms(2) sl by (force simp: inside_def inv_slot_def)
qed

lemma inside_slot: "rw_inv M s \<Longrightarrow> inside s t i \<Longrightarrow> i < length (registry s)"
  by (force simp: inside_def inv_slot_def rw_inv_def)

lemma hb_inv_read:
  assumes rw: "rw_inv M s" and inv: "hb_inv s v" and t: "inside s t i" and same: "same_places s s'"
  shows "hb_inv s' (do_access t False v)"
proof -
  note d = hb_invD [OF inv] and k = know_do_access [of v _ t False]
  have st: "stores (do_access t False v) = stores v" by (simp add: stores_do_access)
  have s': "owns_write s' = owns_write s" "raised s' = raised s" "alone s' = alone s" "inside s' = inside s"
    "\<And>x k e. pc s' x = WScan k e \<Longrightarrow> pc s x = WScan k e"
    using same by (auto simp: same_places_def)
  have ans: "answers s' (do_access t False v) a j" if "answers s v a j" for a j
    using that by (rule answers_mono) (use same in \<open>auto simp: same_places_def\<close>)
  have own: "answers s' (do_access t False v) i (length (accesses v))"
    unfolding answers_def using inside_slot [OF rw t] t same by (auto simp: same_places_def)
  show ?thesis
  proof (rule hb_invI, unfold st s'(1-4))
    show "stores v \<subseteq> know (do_access t False v) u" if "owns_write s u" for u
      using d(1) [OF that] k [of u] by blast
    show "stores v \<subseteq> at_mutex (do_access t False v) \<union> know (do_access t False v) u"
      if "\<And>t. \<not> owns_write s t" for u using d(2) [OF that, of u] k [of u] by auto
    show "stores v \<subseteq> at_flag (do_access t False v) \<union> know (do_access t False v) u"
      if "\<And>t. \<not> raised s t" for u using d(3) [OF that, of u] k [of u] by auto
    show "stores v \<subseteq> know (do_access t False v) u" if "inside s u a" for u a
      using d(4) [OF that] k [of u] by blast
    show "\<exists>a. answers s' (do_access t False v) a j"
      if "j < length (accesses (do_access t False v))" "j \<notin> stores v" for j
      using that own ans d(5) [of j] by (cases "j = length (accesses v)") auto
    show "\<exists>a \<ge> k. answers s' (do_access t False v) a j"
      if "pc s' u = WScan k e" "j < length (accesses (do_access t False v))" "j \<notin> know (do_access t False v) u"
      for u k e j
    proof (cases "j = length (accesses v)")
      case True
      then show ?thesis using own inside_ahead(1) [OF rw t s'(5) [OF that(1)]] by blast
    next
      case False
      then have "j < length (accesses v)" "j \<notin> know v u" using that(2,3) know_do_access [of v u t False] by auto
      then show ?thesis using d(6) [OF s'(5) [OF that(1)]] ans by blast
    qed
    show "j \<in> know (do_access t False v) u" if "alone s u" for u j
      using inside_not_alone [OF rw t] that by blast
  qed
qed

lemma hb_inv_store:
  assumes rw: "rw_inv M s" and inv: "hb_inv s v" and t: "alone s t" and same: "same_places s s'"
  shows "hb_inv s' (do_access t True v)"
proof -
  note d = hb_invD [OF inv] and k = know_do_access [of v _ t True]
  have s': "owns_write s' = owns_write s" "raised s' = raised s" "alone s' = alone s" "inside s' = inside s"
    "\<And>x k e. pc s' x = WScan k e \<Longrightarrow> pc s x = WScan k e"
    using same by (auto simp: same_places_def)
  have i: "inv_write M s" "inv_excl s" using rw by (simp_all add: rw_inv_def)
  note ex = excl_alone [OF i t [unfolded alone_def]]
  have owner: "owns_write s u \<longleftrightarrow> u = t" for u
    using ex(4) [of u] t w_excl_flag w_flag_owner by (auto simp: owns_write_def alone_def)
  have up: "raised s t" using t w_excl_flag by (auto simp: raised_def alone_def)
  have out: "\<not> inside s u a" for u a using ex(1,3) by (simp add: inside_def)
  have all: "j \<in> know (do_access t True v) t" if "j < length (accesses (do_access t True v))" for j
    using that d(7) [OF t, of j] by (auto simp: less_Suc_eq)
  have in_log: "j < length (accesses v')" if "j \<in> stores v'" for j v' using that by (simp add: stores_def)
  have ans: "answers s' (do_access t True v) a j" if "answers s v a j" for a j
    using that by (rule answers_mono) (use same in \<open>auto simp: same_places_def\<close>)
  show ?thesis
  proof (rule hb_invI, unfold s'(1-4))
    show "stores (do_access t True v) \<subseteq> know (do_access t True v) u" if "owns_write s u" for u
    proof
      fix j assume "j \<in> stores (do_access t True v)"
      from all [OF in_log [OF this]] show "j \<in> know (do_access t True v) u" using that by (simp only: owner)
    qed
    show "\<exists>a. answers s' (do_access t True v) a j"
      if "j < length (accesses (do_access t True v))" "j \<notin> stores (do_access t True v)" for j
      using that ans d(5) [of j] by (cases "j = length (accesses v)") (auto simp: stores_do_access)
    show "\<exists>a \<ge> k. answers s' (do_access t True v) a j" if "pc s' u = WScan k e" for u k e j
    proof -
      have "pc s u = WScan k e" using s'(5) that .
      then have "u = t" using owner [of u] by (simp add: owns_write_def)
      then show ?thesis using t \<open>pc s u = WScan k e\<close> i(1) by (simp add: alone_def inv_write_def)
    qed
    show "j \<in> know (do_access t True v) u" if "alone s u" "j < length (accesses (do_access t True v))" for u j
      using all [OF that(2)] owner [of u] that(1) w_excl_flag w_flag_owner
      by (auto simp: alone_def owns_write_def)
  qed (use owner up out in blast)+
qed

lemma race_free_append:
  assumes "race_free v" "accesses v' = accesses v @ [a]"
    "\<And>i. i < length (accesses v) \<Longrightarrow> is_store (accesses v ! i) \<or> is_store a \<Longrightarrow> i \<in> before a"
  shows "race_free v'"
  using assms by (auto simp: race_free_def nth_append less_Suc_eq)

lemma race_free_read:
  assumes "hb_inv s v" "race_free v" "inside s t i"
  shows "race_free (do_access t False v)"
proof (rule race_free_append [OF assms(2) do_access_simps(1)])
  fix j assume "j < length (accesses v)"
    "is_store (accesses v ! j) \<or> is_store \<lparr>by_thread = t, is_store = False, before = know v t\<rparr>"
  then have "j \<in> stores v" by (simp add: stores_def)
  then show "j \<in> before \<lparr>by_thread = t, is_store = False, before = know v t\<rparr>"
    using hb_invD(4) [OF assms(1,3)] by auto
qed

lemma race_free_store:
  assumes "hb_inv s v" "race_free v" "alone s t"
  shows "race_free (do_access t True v)"
  by (rule race_free_append [OF assms(2) do_access_simps(1)])
    (use hb_invD(7) [OF assms(1,3)] in simp)

section \<open>Every step keeps it\<close>

lemma acquire_simps [simp]:
  "accesses (acquire t K v) = accesses v" "know (acquire t K v) = (know v)(t := know v t \<union> K)"
  "at_mutex (acquire t K v) = at_mutex v" "at_flag (acquire t K v) = at_flag v"
  "at_count (acquire t K v) = at_count v" "stores (acquire t K v) = stores v"
  by (simp_all add: acquire_def stores_def)

lemma count_release_simps [simp]:
  "accesses (count_release t i v) = accesses v" "know (count_release t i v) = know v"
  "at_mutex (count_release t i v) = at_mutex v" "at_flag (count_release t i v) = at_flag v"
  "at_count (count_release t i v) = (at_count v)(i := at_count v i \<union> know v t)"
  "stores (count_release t i v) = stores v"
  by (simp_all add: count_release_def stores_def)

lemma do_loose_access_simps [simp]:
  "accesses (do_loose_access t v) = accesses v" "know (do_loose_access t v) = know v"
  "at_mutex (do_loose_access t v) = at_mutex v" "at_flag (do_loose_access t v) = at_flag v"
  "at_count (do_loose_access t v) = at_count v" "stores (do_loose_access t v) = stores v"
  by (simp_all add: do_loose_access_def stores_def)

text \<open>More knowledge does no harm.\<close>

lemma hb_inv_more:
  assumes inv: "hb_inv s v" and "accesses v' = accesses v" "\<And>u. know v u \<subseteq> know v' u"
    "at_mutex v' = at_mutex v" "at_flag v' = at_flag v" "\<And>i. at_count v i \<subseteq> at_count v' i"
  shows "hb_inv s v'"
proof (rule hb_inv_frame [OF inv, of undefined])
  show "answers s v' i j" if "answers s v i j" for i j
    using that by (rule answers_mono) (use assms in auto)
  then show "\<exists>i \<ge> k. answers s v' i j"
    if "pc s undefined = WScan k d" "j < length (accesses v)" "j \<notin> know v' undefined" for k d j
    using hb_invD(6) [OF inv that(1,2)] that(3) assms(3) by blast
qed (use assms in auto)

lemma no_store_no_race: "race_free v \<Longrightarrow> accesses v' = accesses v \<Longrightarrow> race_free v'"
  by (simp add: race_free_def)

lemma hb_inv_calm:
  assumes inv: "hb_inv s v" and same: "same_places s s'"
  shows "hb_inv s' v"
proof -
  have s': "owns_write s' = owns_write s" "raised s' = raised s" "alone s' = alone s" "inside s' = inside s"
    "\<And>x k e. pc s' x = WScan k e \<Longrightarrow> pc s x = WScan k e"
    using same by (auto simp: same_places_def)
  have ans: "answers s' v i j" if "answers s v i j" for i j
    using that by (rule answers_mono) (use same in \<open>auto simp: same_places_def\<close>)
  note d = hb_invD [OF inv]
  show ?thesis
  proof (rule hb_invI, unfold s'(1-4))
    show "\<exists>i. answers s' v i j" if "j < length (accesses v)" "j \<notin> stores v" for j
      using d(5) [OF that] ans by blast
    show "\<exists>i \<ge> k. answers s' v i j" if "pc s' u = WScan k e" "j < length (accesses v)" "j \<notin> know v u" for u k e j
      using d(6) [OF s'(5) [OF that(1)] that(2,3)] ans by blast
  qed (use d in blast)+
qed

lemma same_placesI:
  assumes "\<And>u. u \<noteq> t \<Longrightarrow> pc s' u = pc s u" "\<And>u. u \<noteq> t \<Longrightarrow> wguard s' u = wguard s u"
    "owns_write s' t = owns_write s t" "raised s' t = raised s t" "alone s' t = alone s t"
    "\<And>u i. inside s' u i = inside s u i" "length (registry s) \<le> length (registry s')" "leaked s' = leaked s"
    "\<And>k d. pc s' t \<noteq> WScan k d"
  shows "same_places s s'"
proof -
  have "owns_write s' u = owns_write s u" "raised s' u = raised s u" "alone s' u = alone s u" for u
    using assms(1-5) by (cases "u = t"; simp add: owns_write_def raised_def alone_def)+
  then show ?thesis unfolding same_places_def using assms(1,6-9) by (auto simp: fun_eq_iff) (metis)
qed

lemmas places = owns_write_def raised_def alone_def inside_def

text \<open>The steps that leave every thread where it is, as far as the invariant can tell.\<close>

fun calm :: "('c, 'l, 'r) sys \<Rightarrow> ('c, 'r) pc \<Rightarrow> bool" where
  "calm s (RLoad i b) = writing s"
| "calm s (RFinish i b c) = (b c \<noteq> ReadPanic)"
| "calm s (RSub i r) = False"
| "calm s (WLock b) = False"
| "calm s (WStore b) = False"
| "calm s (WRegLock b) = False"
| "calm s (WScan k b) = False"
| "calm s (WClear r) = False"
| "calm s (WUnlock r) = False"
| "calm s _ = True"

lemma run_calm:
  assumes "perform M t Run s = Some s'" "calm s (pc s t)" "inv_write M s"
  shows "same_places s s'"
proof (rule same_placesI)
  have "\<And>u. w_owner (pc s u) \<Longrightarrow> \<not> wguard s u" using assms(3) by (auto simp: inv_write_def)
  note own = this [of t]
  show "pc s' u = pc s u" "wguard s' u = wguard s u" if "u \<noteq> t" for u
    using step_others(1,2) [OF perform_step [OF assms(1)] that] .
  show "owns_write s' t = owns_write s t" "raised s' t = raised s t" "alone s' t = alone s t"
    "inside s' u i = inside s u i" "length (registry s) \<le> length (registry s')" "leaked s' = leaked s"
    "pc s' t \<noteq> WScan k d" for u i k d
    using assms(1,2) own
    by (cases "pc s t"; auto simp: perform_Run action_defs Let_def places
      split: option.splits read_out.splits write_out.splits if_splits)+
qed

lemma run_order_calm:
  assumes "calm s p" "\<And>i b. p \<noteq> RBody i b" "\<And>b. p \<noteq> WBody b"
  shows "accesses (run_order t s p v) = accesses v" "know v u \<subseteq> know (run_order t s p v) u"
    "at_mutex (run_order t s p v) = at_mutex v" "at_flag (run_order t s p v) = at_flag v"
    "at_count v i \<subseteq> at_count (run_order t s p v) i"
  using assms by (cases p; auto simp: count_seq_cst_def)+

lemma hb_calm_run:
  assumes inv: "hb_inv s v" and rw: "rw_inv M s" and step: "perform M t Run s = Some s'"
    and c: "calm s (pc s t)" and race: "race_free v"
  shows "hb_inv s' (run_order t s (pc s t) v) \<and> race_free (run_order t s (pc s t) v)"
proof -
  have same: "same_places s s'" using run_calm [OF step c] rw by (simp add: rw_inv_def)
  consider (read) i b where "pc s t = RBody i b" | (store) b where "pc s t = WBody b"
    | (none) "\<And>i b. pc s t \<noteq> RBody i b" "\<And>b. pc s t \<noteq> WBody b" by blast
  then show ?thesis
  proof cases
    case read
    then have "inside s t i" by (simp add: inside_def)
    then show ?thesis using hb_inv_read [OF rw inv _ same] race_free_read [OF inv race] read by simp
  next
    case store
    then have "alone s t" by (simp add: alone_def)
    then show ?thesis using hb_inv_store [OF rw inv _ same] race_free_store [OF inv race] store by simp
  next
    case none
    note more = run_order_calm [OF c none]
    show ?thesis using hb_inv_more [OF hb_inv_calm [OF inv same] more(1) more(2) more(3) more(4) more(5)]
      no_store_no_race [OF race more(1)] by blast
  qed
qed

text \<open>The steps of a writer that matter.\<close>

lemma hb_w_lock:
  assumes inv: "hb_inv s v" and free: "\<And>u. \<not> owns_write s u" and pc: "pc s t = WLock d"
  shows "hb_inv (s\<lparr>write_mutex := l, pc := (pc s)(t := WStore d)\<rparr>) (acquire t (at_mutex v) v)"
proof (rule hb_inv_frame [OF inv, of t])
  let ?s = "s\<lparr>write_mutex := l, pc := (pc s)(t := WStore d)\<rparr>"
  show "owns_write s t \<or> stores v \<subseteq> know (acquire t (at_mutex v) v) t"
    using hb_invD(2) [OF inv free, of t] by auto
  show "answers ?s (acquire t (at_mutex v) v) i j" if "answers s v i j" for i j
    using that by (rule answers_mono) (use pc in \<open>auto simp: places\<close>)
  show "(\<exists>i. inside s u i) \<or> stores v \<subseteq> know (acquire t (at_mutex v) v) u" if "inside ?s u i" for u i
    using that pc by (auto simp: places split: if_splits)
qed (use pc free [of t] in \<open>auto simp: places\<close>)

lemma hb_w_store:
  assumes inv: "hb_inv s v" and pc: "pc s t = WStore d"
  shows "hb_inv (s\<lparr>writing := True, pc := (pc s)(t := WRegLock d)\<rparr>) (v\<lparr>at_flag := know v t\<rparr>)"
proof (rule hb_inv_frame [OF inv, of t])
  let ?s = "s\<lparr>writing := True, pc := (pc s)(t := WRegLock d)\<rparr>" and ?v = "v\<lparr>at_flag := know v t\<rparr>"
  show "answers ?s ?v i j" if "answers s v i j" for i j
    using that by (rule answers_mono) (use pc in \<open>auto simp: places\<close>)
  show "(\<exists>i. inside s u i) \<or> stores v \<subseteq> know ?v u" if "inside ?s u i" for u i
    using that pc by (auto simp: places split: if_splits)
qed (use pc in \<open>auto simp: places\<close>)

lemma hb_w_reg_lock:
  assumes inv: "hb_inv s v" and pc: "pc s t = WRegLock d"
  shows "hb_inv (s\<lparr>reg_lock := l, pc := (pc s)(t := WScan 0 d)\<rparr>) (acquire t (at_registry v) v)"
proof (rule hb_inv_frame [OF inv, of t])
  let ?s = "s\<lparr>reg_lock := l, pc := (pc s)(t := WScan 0 d)\<rparr>" and ?v = "acquire t (at_registry v) v"
  show ans: "answers ?s ?v i j" if "answers s v i j" for i j
    using that by (rule answers_mono) (use pc in \<open>auto simp: places\<close>)
  show "(\<exists>i. inside s u i) \<or> stores v \<subseteq> know ?v u" if "inside ?s u i" for u i
    using that pc by (auto simp: places split: if_splits)
  show "\<exists>i \<ge> k. answers ?s ?v i j" if "pc ?s t = WScan k e" "j < length (accesses v)" "j \<notin> know ?v t" for k e j
  proof -
    have "stores v \<subseteq> know v t" using hb_invD(1) [OF inv, of t] pc by (simp add: places)
    then have "j \<notin> stores v" using that(3) by auto
    then show ?thesis using hb_invD(5) [OF inv that(2)] ans that(1) by auto
  qed
qed (use pc in \<open>auto simp: places\<close>)

lemma scanned_answers:
  assumes "rw_inv M s" "pc s u = WScan k d" "answers s v i j" "i < k"
  shows "j \<in> at_count v i"
proof -
  have "pins s i = 0" using assms(1,2,4) by (auto simp: rw_inv_def inv_scan_def)
  then have "i \<notin> set (leaked s)" by (auto simp: pins_def count_list_0_iff)
  moreover have "\<not> inside s x i" for x using inside_ahead(1) [OF assms(1) _ assms(2), of x i] assms(4) by auto
  ultimately show ?thesis using assms(3) by (auto simp: answers_def)
qed

text \<open>Moving on in a scan changes no place but the position of the scan.\<close>

lemma scan_places:
  assumes "pc s t = WScan k d" "\<not> w_excl q" "w_owner q" "w_flag q" "\<not> in_read q"
  shows "owns_write (s\<lparr>pc := (pc s)(t := q)\<rparr>) = owns_write s" "raised (s\<lparr>pc := (pc s)(t := q)\<rparr>) = raised s"
    "alone (s\<lparr>pc := (pc s)(t := q)\<rparr>) = alone s" "inside (s\<lparr>pc := (pc s)(t := q)\<rparr>) = inside s"
  using assms by (auto simp: fun_eq_iff places)

lemma hb_w_scan_zero:
  assumes inv: "hb_inv s v" and pc: "pc s t = WScan k d" 
    and rw: "rw_inv M (s\<lparr>pc := (pc s)(t := WScan (Suc k) d)\<rparr>)"
  shows "hb_inv (s\<lparr>pc := (pc s)(t := WScan (Suc k) d)\<rparr>) (acquire t (at_count v k) v)"
proof (rule hb_inv_frame [OF inv, of t])
  let ?s = "s\<lparr>pc := (pc s)(t := WScan (Suc k) d)\<rparr>" and ?v = "acquire t (at_count v k) v"
  note places = scan_places [OF pc, of "WScan (Suc k) d", simplified]
  show ans: "answers ?s ?v i j" if "answers s v i j" for i j
    using that by (rule answers_mono) (auto simp: places)
  show "(\<exists>i. inside s u i) \<or> stores v \<subseteq> know ?v u" if "inside ?s u i" for u i
    using that by (auto simp: places)
  show "\<exists>i \<ge> l. answers ?s ?v i j" if l: "pc ?s t = WScan l e" "j < length (accesses v)" "j \<notin> know ?v t" for l e j
  proof -
    obtain i where i: "i \<ge> k" "answers s v i j" using hb_invD(6) [OF inv pc l(2)] l(3) by auto
    have "i \<noteq> k"
    proof
      assume "i = k"
      then have "j \<in> at_count ?v k"
        using scanned_answers [OF rw, of t "Suc k" d ?v k j] ans [OF i(2)] by simp
      then show False using l(3) by simp
    qed
    then have "i \<ge> l" using l(1) i(1) by simp
    then show ?thesis using ans [OF i(2)] by blast
  qed
qed (use scan_places [OF pc, of "WScan (Suc k) d", simplified] in auto)

lemma hb_w_scan_back:
  assumes inv: "hb_inv s v" and pc: "pc s t = WScan k d"
  shows "hb_inv (s\<lparr>pc := (pc s)(t := WRetry d)\<rparr>) (acquire t K v)"
proof (rule hb_inv_frame [OF inv, of t])
  note places = scan_places [OF pc, of "WRetry d", simplified]
  show "answers (s\<lparr>pc := (pc s)(t := WRetry d)\<rparr>) (acquire t K v) i j" if "answers s v i j" for i j
    using that by (rule answers_mono) (auto simp: places)
  show "(\<exists>i. inside s u i) \<or> stores v \<subseteq> know (acquire t K v) u"
    if "inside (s\<lparr>pc := (pc s)(t := WRetry d)\<rparr>) u i" for u i
    using that by (auto simp: places)
qed (use scan_places [OF pc, of "WRetry d", simplified] in auto)

lemma hb_w_scan_end:
  assumes inv: "hb_inv s v" and pc: "pc s t = WScan k d" and k: "\<not> k < length (registry s)"
  shows "hb_inv (s\<lparr>pc := (pc s)(t := WBreak d)\<rparr>) v"
proof (rule hb_inv_frame [OF inv, of t])
  let ?s = "s\<lparr>pc := (pc s)(t := WBreak d)\<rparr>"
  show "answers ?s v i j" if "answers s v i j" for i j
    using that by (rule answers_mono) (use pc in \<open>auto simp: places\<close>)
  show "(\<exists>i. inside s u i) \<or> stores v \<subseteq> know v u" if "inside ?s u i" for u i
    using that pc by (auto simp: places split: if_splits)
  show "alone s t \<or> j \<in> know v t" if "j < length (accesses v)" for j
    using hb_invD(6) [OF inv pc that] k by (auto simp: answers_def)
qed (use pc in \<open>auto simp: places\<close>)

lemma hb_w_clear:
  assumes inv: "hb_inv s v" and pc: "pc s t = WClear x"
  shows "hb_inv (s\<lparr>writing := False, pc := (pc s)(t := WUnlock x)\<rparr>) (v\<lparr>at_flag := know v t\<rparr>)"
proof (rule hb_inv_frame [OF inv, of t])
  let ?s = "s\<lparr>writing := False, pc := (pc s)(t := WUnlock x)\<rparr>" and ?v = "v\<lparr>at_flag := know v t\<rparr>"
  show "answers ?s ?v i j" if "answers s v i j" for i j
    using that by (rule answers_mono) (use pc in \<open>auto simp: places\<close>)
  show "(\<exists>i. inside s u i) \<or> stores v \<subseteq> know ?v u" if "inside ?s u i" for u i
    using that pc by (auto simp: places split: if_splits)
  show "at_flag ?v = at_flag v \<and> \<not> raised s t \<or> stores v \<subseteq> at_flag ?v"
    using hb_invD(1) [OF inv, of t] pc by (simp add: places)
qed (use pc in \<open>auto simp: places\<close>)

lemma hb_w_unlock:
  assumes inv: "hb_inv s v" and pc: "pc s t = WUnlock x"
  shows "hb_inv (s\<lparr>write_mutex := l, pc := (pc s)(t := Idle), ret := r\<rparr>) (v\<lparr>at_mutex := know v t\<rparr>)"
proof (rule hb_inv_frame [OF inv, of t])
  let ?s = "s\<lparr>write_mutex := l, pc := (pc s)(t := Idle), ret := r\<rparr>" and ?v = "v\<lparr>at_mutex := know v t\<rparr>"
  show "answers ?s ?v i j" if "answers s v i j" for i j
    using that by (rule answers_mono) (use pc in \<open>auto simp: places\<close>)
  show "(\<exists>i. inside s u i) \<or> stores v \<subseteq> know ?v u" if "inside ?s u i" for u i
    using that pc by (auto simp: places split: if_splits)
  show "at_mutex ?v = at_mutex v \<and> \<not> owns_write s t \<or> stores v \<subseteq> at_mutex ?v"
    using hb_invD(1) [OF inv, of t] pc by (simp add: places)
qed (use pc in \<open>auto simp: places\<close>)

text \<open>The steps of a reader that matter.\<close>

lemma hb_r_enter:
  assumes inv: "hb_inv s v" and down: "\<And>u. \<not> raised s u" and pc: "pc s t = RLoad i b"
  shows "hb_inv (s\<lparr>pc := (pc s)(t := RBody i b)\<rparr>) (acquire t (at_flag v) v)"
proof (rule hb_inv_frame [OF inv, of t])
  let ?s = "s\<lparr>pc := (pc s)(t := RBody i b)\<rparr>" and ?v = "acquire t (at_flag v) v"
  show "answers ?s ?v i j" if "answers s v i j" for i j
    using that by (rule answers_mono) (use pc in \<open>auto simp: places\<close>)
  have "stores v \<subseteq> know ?v t" using hb_invD(3) [OF inv down, of t] by auto
  then show "(\<exists>i. inside s u i) \<or> stores v \<subseteq> know ?v u" if "inside ?s u i" for u i
    using that by (cases "u = t") (auto simp: places)
qed (use pc in \<open>auto simp: places\<close>)

text \<open>A slot is given up: its counter passes on what the thread knows, or is lost.\<close>

lemma hb_leave:
  assumes inv: "hb_inv s v"
    and others: "\<And>u. u \<noteq> t \<Longrightarrow> pc s' u = pc s u" "wguard s' = wguard s"
    and pc: "owns_write s' t = owns_write s t" "raised s' t = raised s t" "alone s' t = alone s t"
      "\<And>k d. pc s' t \<noteq> WScan k d"
    and ins: "\<And>u k. inside s' u k \<Longrightarrow> inside s u k" "\<And>u k. inside s u k \<Longrightarrow> inside s' u k \<or> u = t \<and> k = i"
    and reg: "length (registry s') = length (registry s)" "set (leaked s) \<subseteq> set (leaked s')"
    and out: "v' = count_release t i v \<or> v' = v \<and> i \<in> set (leaked s')"
  shows "hb_inv s' v'"
proof (rule hb_inv_frame [OF inv, of t])
  have v': "know v' = know v" "accesses v' = accesses v" "at_mutex v' = at_mutex v" "at_flag v' = at_flag v"
    "at_count v k \<subseteq> at_count v' k" for k using out by auto
  show "answers s' v' k j" if "answers s v k j" for k j
    using that unfolding answers_def reg(1)
  proof (elim conjE disjE exE)
    fix u assume u: "inside s u k" "j \<in> know v u" "k < length (registry s)"
    then show "k < length (registry s) \<and> (j \<in> at_count v' k \<or> k \<in> set (leaked s') \<or>
        (\<exists>t. inside s' t k \<and> j \<in> know v' t))"
      using ins(2) [OF u(1)] out v'(1) by auto
  qed (use v'(5) reg(2) in auto)
  show "accesses v' = accesses v" "know v u \<subseteq> know v' u" for u using v' by simp_all
  show "(\<exists>k. inside s u k) \<or> stores v \<subseteq> know v' u" if "inside s' u k" for u k using that ins(1) by blast
  show "at_mutex v' = at_mutex v \<and> \<not> owns_write s t \<or> stores v \<subseteq> at_mutex v'" if "\<not> owns_write s' t"
    using that pc(1) v' by simp
  show "at_flag v' = at_flag v \<and> \<not> raised s t \<or> stores v \<subseteq> at_flag v'" if "\<not> raised s' t"
    using that pc(2) v' by simp
qed (use others pc in auto)

lemma hb_r_sub:
  assumes inv: "hb_inv s v" and pc: "pc s t = RSub i r"
  shows "hb_inv (s\<lparr>registry := (registry s)[i := x], pc := (pc s)(t := Idle), ret := y\<rparr>) (count_release t i v)"
  by (rule hb_leave [OF inv, where t = t and i = i]) (use pc in \<open>auto simp: places split: if_splits\<close>)

lemma hb_r_panic:
  assumes inv: "hb_inv s v" and pc: "pc s t = RFinish i b c"
  shows "hb_inv (s\<lparr>hist := h, leaked := i # leaked s, pc := (pc s)(t := Idle), ret := y\<rparr>) v"
  by (rule hb_leave [OF inv, where t = t and i = i]) (use pc in \<open>auto simp: places split: if_splits\<close>)

lemma in_remove1: "x \<in> set (remove1 y xs) \<Longrightarrow> x \<in> set xs" "x \<in> set xs \<Longrightarrow> x \<in> set (remove1 y xs) \<or> x = y"
  by (auto dest: subsetD [OF set_remove1_subset])

lemma hb_guard_drop:
  assumes inv: "hb_inv s v" and pc: "pc s t = Idle"
  shows "hb_inv (s\<lparr>guards := remove1 (t, i) (guards s), registry := (registry s)[i := x]\<rparr>) (count_release t i v)"
  by (rule hb_leave [OF inv, where t = t and i = i])
    (use pc in_remove1 [where y = "(t, i)" and xs = "guards s"] in \<open>auto simp: places\<close>)

lemma hb_guard_forget:
  assumes inv: "hb_inv s v" and pc: "pc s t = Idle"
  shows "hb_inv (s\<lparr>guards := remove1 (t, i) (guards s), leaked := i # leaked s\<rparr>) v"
  by (rule hb_leave [OF inv, where t = t and i = i])
    (use pc in_remove1 [where y = "(t, i)" and xs = "guards s"] in \<open>auto simp: places\<close>)

lemma hb_guard_send:
  assumes inv: "hb_inv s v" and pc: "pc s t = Idle" and g: "(t, i) \<in> set (guards s)"
  shows "hb_inv (s\<lparr>guards := (u, i) # remove1 (t, i) (guards s)\<rparr>) (acquire u (know v t) v)"
proof (rule hb_inv_frame [OF inv, of t])
  let ?s = "s\<lparr>guards := (u, i) # remove1 (t, i) (guards s)\<rparr>" and ?v = "acquire u (know v t) v"
  note r = in_remove1 [where y = "(t, i)" and xs = "guards s"]
  show "answers ?s ?v k j" if "answers s v k j" for k j
    using that unfolding answers_def
  proof (elim conjE disjE exE)
    fix x assume x: "inside s x k" "j \<in> know v x" "k < length (registry s)"
    show "k < length (registry ?s) \<and> (j \<in> at_count ?v k \<or> k \<in> set (leaked ?s) \<or>
        (\<exists>t. inside ?s t k \<and> j \<in> know ?v t))"
    proof (cases "inside ?s x k")
      case True
      then show ?thesis using x by auto
    next
      case False
      then have "x = t" "k = i" using x(1) r(2) [where x = "(x, k)"] by (auto simp: inside_def)
      moreover have "inside ?s u i" by (simp add: inside_def)
      ultimately show ?thesis using x by auto
    qed
  qed auto
  have "stores v \<subseteq> know v t" by (rule hb_invD(4) [OF inv, of t i]) (simp add: inside_def g)
  then show "(\<exists>k. inside s x k) \<or> stores v \<subseteq> know ?v x" if "inside ?s x k" for x k
    using that r(1) [where x = "(x, k)"] by (cases "x = u") (auto simp: inside_def)
qed (use pc in \<open>auto simp: places\<close>)

lemma run_order_accesses:
  "\<forall>i b. p \<noteq> RBody i b \<Longrightarrow> \<forall>b. p \<noteq> WBody b \<Longrightarrow> accesses (run_order t s p v) = accesses v"
  by (cases p) (simp_all add: count_seq_cst_def)

lemma hb_run:
  assumes M: "mutex_laws M" and step: "perform M t Run s = Some s'"
    and rw: "rw_inv M s" "rw_inv M s'" and inv: "hb_inv s v" and race: "race_free v"
  shows "hb_inv s' (run_order t s (pc s t) v) \<and> race_free (run_order t s (pc s t) v)"
proof (cases "calm s (pc s t)")
  case True
  then show ?thesis by (rule hb_calm_run [OF inv rw(1) step _ race])
next
  case False
  then have "accesses (run_order t s (pc s t) v) = accesses v"
    by (intro run_order_accesses) auto
  then have free: "race_free (run_order t s (pc s t) v)" by (rule no_store_no_race [OF race])
  have "hb_inv s' (run_order t s (pc s t) v)"
  proof (cases "pc s t")
    case (RLoad i b)
    then have w: "\<not> writing s" using False by simp
    then have "\<not> raised s u" for u using rw(1) by (auto simp: raised_def rw_inv_def inv_flag_def)
    moreover have "s' = s\<lparr>pc := (pc s)(t := RBody i b)\<rparr>"
      using step RLoad w by (simp add: perform_Run action_defs)
    ultimately show ?thesis using hb_r_enter [OF inv _ RLoad] RLoad by simp
  next
    case (RFinish i b c)
    then have "b c = ReadPanic" using False by simp
    then show ?thesis using step RFinish hb_r_panic [OF inv RFinish]
      by (auto simp: perform_Run action_defs Let_def)
  next
    case (RSub i r)
    then show ?thesis using step hb_r_sub [OF inv RSub] by (auto simp: perform_Run action_defs)
  next
    case (WLock d)
    then obtain l where l: "mx_lock M t (write_mutex s) = Some l"
      and s': "s' = s\<lparr>write_mutex := l, pc := (pc s)(t := WStore d)\<rparr>"
      using step by (auto simp: perform_Run action_defs split: option.splits)
    have "held_by M (write_mutex s) (\<lambda>t. owns_write s t)"
      using rw(1) by (simp add: rw_inv_def inv_write_def owns_write_def)
    from held_by_lock_none [OF M this l] show ?thesis using hb_w_lock [OF inv _ WLock] WLock s' by simp
  next
    case (WStore d)
    then show ?thesis using step hb_w_store [OF inv WStore] by (auto simp: perform_Run action_defs)
  next
    case (WRegLock d)
    then show ?thesis using step hb_w_reg_lock [OF inv WRegLock]
      by (auto simp: perform_Run action_defs split: option.splits)
  next
    case (WScan k d)
    show ?thesis
    proof (cases "k < length (registry s)")
      case True
      show ?thesis
      proof (cases "registry s ! k = 0")
        case zero: True
        then have s': "s' = s\<lparr>pc := (pc s)(t := WScan (Suc k) d)\<rparr>"
          using step WScan True by (simp add: perform_Run action_defs)
        show ?thesis using hb_w_scan_zero [OF inv WScan rw(2) [unfolded s']] WScan True s' by simp
      next
        case False
        then have "s' = s\<lparr>pc := (pc s)(t := WRetry d)\<rparr>"
          using step WScan True by (simp add: perform_Run action_defs)
        then show ?thesis using hb_w_scan_back [OF inv WScan] WScan True by simp
      qed
    next
      case False
      then have "s' = s\<lparr>pc := (pc s)(t := WBreak d)\<rparr>"
        using step WScan by (simp add: perform_Run action_defs)
      then show ?thesis using hb_w_scan_end [OF inv WScan False] WScan False by simp
    qed
  next
    case (WClear x)
    then show ?thesis using step hb_w_clear [OF inv WClear] by (auto simp: perform_Run action_defs)
  next
    case (WUnlock x)
    then show ?thesis using step hb_w_unlock [OF inv WUnlock] by (auto simp: perform_Run action_defs)
  qed (use False in simp_all)
  with free show ?thesis by blast
qed

lemma hb_client:
  assumes step: "perform M t a s = Some s'" and a: "a \<noteq> Run"
    and rw: "rw_inv M s" and inv: "hb_inv s v" and race: "race_free v"
  shows "hb_inv s' (order_of t a s v) \<and> race_free (order_of t a s v)"
proof -
  have idle: "pc s t = Idle" using step a by (cases a) (auto simp: perform_def split: if_splits)
  then have c: "client_step t a s = Some s'" using step a by (simp add: perform_client)
  have own: "\<not> w_owner (pc s u)" if "wguard s u" for u using that rw by (auto simp: rw_inv_def inv_write_def)
  show ?thesis
  proof (cases a)
    case (Start m)
    have s': "s' = s\<lparr>pc := (pc s)(t := call_entry m)\<rparr>" using c Start by (simp add: action_defs)
    have "same_places s s'"
      by (rule same_placesI [of t]) (auto simp: s' places idle)
    then show ?thesis using hb_inv_calm [OF inv] race Start by simp
  next
    case (DropGuard i)
    then show ?thesis using c hb_guard_drop [OF inv idle, of i] no_store_no_race [OF race]
      by (auto simp: action_defs split: if_splits)
  next
    case (SendGuard i u)
    then show ?thesis using c hb_guard_send [OF inv idle, of i u] no_store_no_race [OF race]
      by (auto simp: action_defs split: if_splits)
  next
    case (ForgetGuard i)
    then show ?thesis using c hb_guard_forget [OF inv idle, of i] race
      by (auto simp: action_defs split: if_splits)
  next
    case (WriteThrough f)
    then have w: "wguard s t" "s' = write_through f s" using c by (auto split: if_splits)
    have "same_places s s'" unfolding w(2)
      by (auto simp: same_places_def places fun_eq_iff write_through_def log_event_def)
    then show ?thesis using hb_inv_store [OF rw inv, of t] race_free_store [OF inv race, of t] w(1) WriteThrough
      by (simp add: alone_def)
  next
    case DropWriteGuard
    then have "same_places s s'" using c idle
      by (intro same_placesI [of t]) (auto simp: action_defs places split: if_splits)
    then show ?thesis using hb_inv_calm [OF inv] race DropWriteGuard by simp
  qed (use a in simp)
qed

lemma hb_reach_stale:
  assumes "mutex_laws M" "hb_reach M c s v"
  shows "stale_reach M c s"
  using assms(2)
proof (induction rule: hb_reach.induct)
  case (hb_late s v t k d K)
  have "has_room s" using stale_reach_inv [OF assms(1) hb_late.IH] by blast
  then have "has_room (s\<lparr>pc := (pc s)(t := WRetry d)\<rparr>)" by (simp add: has_room_def)
  then show ?case using stale_next [OF hb_late.IH sees_late [OF hb_late.hyps(2,3)]] by blast
qed (auto intro: stale_new stale_next stale_owned in_order perform_step)

lemma hb_inv_owned:
  assumes inv: "hb_inv s v" and idle: "\<forall>t. pc s t = Idle \<and> \<not> wguard s t" "guards s = []"
  shows "hb_inv (write_through f s) (owned_access v)"
proof (rule hb_invI)
  let ?s = "write_through f s" and ?v = "owned_access v"
  have s: "pc ?s = pc s" "wguard ?s = wguard s" "guards ?s = guards s" "registry ?s = registry s" "leaked ?s = leaked s"
    by (simp_all add: write_through_def log_event_def)
  have v: "accesses ?v = accesses v @ [\<lparr>by_thread = 0, is_store = True, before = {..<length (accesses v)}\<rparr>]"
    "know ?v u = {..length (accesses v)}" "at_count ?v = at_count v" for u
    by (simp_all add: owned_access_def)
  have all: "stores ?v \<subseteq> know ?v u" for u by (auto simp: stores_def v)
  show "stores ?v \<subseteq> know ?v t" for t by (rule all)
  show "stores ?v \<subseteq> at_mutex ?v \<union> know ?v t" "stores ?v \<subseteq> at_flag ?v \<union> know ?v t" for t using all by blast+
  show "stores ?v \<subseteq> know ?v t" for t by (rule all)
  show "\<exists>i. answers ?s ?v i j" if "j < length (accesses ?v)" "j \<notin> stores ?v" for j
  proof -
    have "j < length (accesses v)" "j \<notin> stores v"
      using that by (auto simp: stores_def v nth_append less_Suc_eq split: if_splits)
    then obtain i where "answers s v i j" using hb_invD(5) [OF inv] by blast
    then have "answers ?s ?v i j" using idle by (auto simp: answers_def inside_def s v)
    then show ?thesis by blast
  qed
  show "\<exists>i \<ge> k. answers ?s ?v i j" if "pc ?s t = WScan k d" for t k d j using that idle by (simp add: s)
  show "j \<in> know ?v t" if "alone ?s t" for t j using that idle by (simp add: alone_def s)
qed

lemma hb_reach_inv:
  assumes M: "mutex_laws M" and "hb_reach M c s v"
  shows "hb_inv s v \<and> race_free v"
  using assms(2)
proof (induction rule: hb_reach.induct)
  case (hb_new i)
  show ?case
    by (auto simp: hb_inv_def race_free_def stores_def nothing_known_def)
next
  case (hb_act s v t a s')
  have rw: "rw_inv M s" "rw_inv M s'"
    using stale_reach_inv [OF M hb_reach_stale [OF M hb_act.hyps(1)]]
      stale_reach_inv [OF M hb_reach_stale [OF M hb_reach.hb_act [OF hb_act.hyps]]] by blast+
  show ?case
  proof (cases "a = Run")
    case True
    then show ?thesis using hb_run [OF M _ rw] hb_act by simp
  next
    case False
    then show ?thesis using hb_client [OF hb_act.hyps(2) _ rw(1)] hb_act.IH by simp
  qed
next
  case (hb_deref s v t i)
  have rw: "rw_inv M s" using stale_reach_inv [OF M hb_reach_stale [OF M hb_deref.hyps(1)]] by blast
  have "inside s t i" using hb_deref.hyps(3) by (simp add: inside_def)
  then show ?case using hb_inv_read [OF rw] race_free_read hb_deref.IH by (auto simp: same_places_def)
next
  case (hb_deref_write s v t)
  have rw: "rw_inv M s" using stale_reach_inv [OF M hb_reach_stale [OF M hb_deref_write.hyps(1)]] by blast
  have "alone s t" using hb_deref_write.hyps(3) by (simp add: alone_def)
  then show ?case using hb_inv_store [OF rw] race_free_store hb_deref_write.IH by (auto simp: same_places_def)
next
  case (hb_late s v t k d K)
  then show ?case using hb_w_scan_back no_store_no_race [of v] by (metis acquire_simps(1))
next
  case (hb_sync s v u t)
  then show ?case using hb_inv_more [of s v "acquire u (know v t) v"] no_store_no_race [of v] by auto
next
  case (hb_owned s v f)
  have "race_free (owned_access v)"
    by (rule race_free_append [of v]) (use hb_owned.IH in \<open>auto simp: owned_access_def\<close>)
  then show ?case using hb_inv_owned hb_owned by blast
qed

text \<open>
  Property C4.  The synchronised accesses do not race in the sense of the memory model: with the
  orderings of the source, of two accesses that are made under a reader slot, through a guard or
  under the write lock, one of them under the write lock, the earlier happens before the later, also
  when scans see counters late.  (The accesses of \<open>Index::index\<close> and \<open>get_uncheck\<close> are in \<open>loose\<close>.)
\<close>

theorem accesses_happen_before:
  assumes "mutex_laws M" and "hb_reach M c s v" and "j < length (accesses v)" and "i < j"
    and "is_store (accesses v ! i) \<or> is_store (accesses v ! j)"
  shows "i \<in> before (accesses v ! j)"
  using hb_reach_inv [OF assms(1,2)] assms(3-5) by (auto simp: race_free_def)

section \<open>Instances\<close>

fun hb_perform_all :: "'l mutex_ops \<Rightarrow> (tid \<times> ('c, 'r) action) list \<Rightarrow>
    ('c, 'l, 'r) sys \<Rightarrow> knowledge \<Rightarrow> (('c, 'l, 'r) sys \<times> knowledge) option" where
  "hb_perform_all M [] s v = Some (s, v)"
| "hb_perform_all M ((t, a) # as) s v =
     (case perform M t a s of None \<Rightarrow> None | Some s' \<Rightarrow> hb_perform_all M as s' (order_of t a s v))"

lemma hb_perform_all_reach:
  assumes "hb_reach M c s v" "\<And>i. pins s i + length as + 1 < 2 ^ 64" "hb_perform_all M as s v = Some (s', v')"
  shows "hb_reach M c s' v'"
  using assms
proof (induction as arbitrary: s v)
  case (Cons a as)
  obtain t x where a: "a = (t, x)" by (cases a)
  then obtain s1 where s1: "perform M t x s = Some s1" "hb_perform_all M as s1 (order_of t x s v) = Some (s', v')"
    using Cons.prems(3) by (auto split: option.splits)
  have room: "pins s1 i + length as + 1 < 2 ^ 64" for i
    using pins_step [OF perform_step [OF s1(1)], of i] Cons.prems(2) [of i] by simp
  then have "has_room s1" unfolding has_room_def by (meson add_le_mono1 le_add1 le_less_trans)
  then show ?case using Cons.IH [OF hb_act [OF Cons.prems(1) s1(1)] room s1(2)] by blast
qed simp

text \<open>
  The accesses of \<open>Index::index\<close> do race: thread 0 has pushed, and thread 1 indexes afterwards, but
  nothing makes the push happen before it.
\<close>

theorem index_access_is_unordered:
  "\<exists>(s :: demo) v. hb_reach owner_mutex [7] s v \<and> quiet s \<and>
    accesses v = [\<lparr>by_thread = 0, is_store = True, before = {}\<rparr>] \<and>
    loose v = [\<lparr>by_thread = 1, is_store = False, before = {}\<rparr>]"
proof -
  let ?as = "[(0, Start (demo_push 3)), (0, Run), (0, Run), (0, Run), (0, Run), (0, Run), (0, Run), (0, Run),
    (0, Run), (0, Run), (1, Start (UnguardedCall Returned)), (1, Run), (1, Run)] :: (tid \<times> (nat list, nat list) action) list"
  have "\<exists>s v. hb_perform_all owner_mutex ?as (sys_with owner_mutex 1 [7]) nothing_known = Some (s :: demo, v) \<and>
      quiet s \<and> accesses v = [\<lparr>by_thread = 0, is_store = True, before = {}\<rparr>] \<and>
      loose v = [\<lparr>by_thread = 1, is_store = False, before = {}\<rparr>]"
    by (simp add: demo nothing_known_def acquire_def do_access_def do_loose_access_def)
  then obtain s :: demo and v where run: "hb_perform_all owner_mutex ?as (sys_with owner_mutex 1 [7]) nothing_known = Some (s, v)"
    and v: "quiet s" "accesses v = [\<lparr>by_thread = 0, is_store = True, before = {}\<rparr>]"
      "loose v = [\<lparr>by_thread = 1, is_store = False, before = {}\<rparr>]" by blast
  have "hb_reach owner_mutex [7] s v" by (rule hb_perform_all_reach [OF hb_new _ run]) (simp add: pins_def)
  then show ?thesis using v by blast
qed

text \<open>Thread 1 reads through a guard and drops it, thread 0 pushes, and thread 2 reads.\<close>

definition hb_demo :: "(tid \<times> (nat list, nat list) action) list" where
  "hb_demo = [(1, Start demo_ref), (1, Run), (1, Run), (1, Run), (1, Run), (1, Run), (1, Run),
     (1, DropGuard 0), (0, Start (demo_push 3)), (0, Run), (0, Run), (0, Run), (0, Run), (0, Run),
     (0, Run), (0, Run), (0, Run), (0, Run), (0, Run), (2, Start demo_ref), (2, Run), (2, Run), (2, Run), (2, Run), (2, Run)]"

lemma hb_demo_run:
  "\<exists>s v. hb_perform_all owner_mutex hb_demo (sys_with owner_mutex 1 [7]) nothing_known =
     Some (s :: demo, v) \<and> accesses v = [\<lparr>by_thread = 1, is_store = False, before = {}\<rparr>,
       \<lparr>by_thread = 0, is_store = True, before = {0}\<rparr>, \<lparr>by_thread = 2, is_store = False, before = {0, 1}\<rparr>]"
  by (simp add: hb_demo_def demo nothing_known_def acquire_def do_access_def count_seq_cst_def count_release_def
    insert_commute)

theorem accesses_happen_before_witness:
  "\<exists>(s :: demo) v. hb_reach owner_mutex [7] s v \<and> is_store (accesses v ! 1) \<and> by_thread (accesses v ! 0) = 1 \<and>
     by_thread (accesses v ! 1) = 0 \<and> 0 \<in> before (accesses v ! 1)"
proof -
  obtain s :: demo and v where run: "hb_perform_all owner_mutex hb_demo (sys_with owner_mutex 1 [7]) nothing_known = Some (s, v)"
    and v: "accesses v = [\<lparr>by_thread = 1, is_store = False, before = {}\<rparr>,
       \<lparr>by_thread = 0, is_store = True, before = {0}\<rparr>, \<lparr>by_thread = 2, is_store = False, before = {0, 1}\<rparr>]"
    using hb_demo_run by blast
  have r: "hb_reach owner_mutex [7] s v"
    by (rule hb_perform_all_reach [OF hb_new _ run]) (simp add: pins_def hb_demo_def)
  have "0 \<in> before (accesses v ! 1)"
    by (rule accesses_happen_before [OF owner_mutex_laws r]) (simp_all add: v)
  then show ?thesis by (intro exI [of _ s] exI [of _ v]) (simp add: r v)
qed

end
