(* ===== verification/Reader_Slots.thy ===== *)
theory Reader_Slots
  imports Prelude
begin

text \<open>
  The reader slots of \<open>src/src/sync/mod.rs\<close>: the source of container ids, the thread-local
  tables that remember where a thread's counter of a container is, and \<open>reader_count_for\<close>.
  Counters are boxes on the heap, so that what is shown here is about pointers: the reference
  that \<open>reader_count_for\<close> returns points into the registry of the container it was called for,
  although the table keeps entries of containers that are gone and addresses are reused.
\<close>

section \<open>The thread-local table\<close>

text \<open>An address of a \<open>Box<AtomicUsize>\<close>; the null pointer of \<open>last\<close> is \<open>None\<close>.\<close>

type_synonym addr = nat

record slots =
  last_slot :: "usize \<times> addr option"
  all_slots :: "(usize \<times> addr) list"

text \<open>\<open>thread_local! { static SLOTS }\<close>: \<open>usize::MAX\<close> and the null pointer.\<close>

definition new_slots :: slots where
  "new_slots = \<lparr>last_slot = (- 1, None), all_slots = []\<rparr>"

text \<open>
  \<open>reader_count_for(id, registry)\<close>, for a thread whose table is \<open>s\<close>; \<open>a\<close> is the address that
  \<open>Box::new(AtomicUsize::new(0))\<close> gets if a counter has to be made.  The result is the pointer
  together with the registry and the table afterwards.
\<close>

definition reader_count_for :: "usize \<Rightarrow> addr list \<Rightarrow> addr \<Rightarrow> slots \<Rightarrow> addr \<times> addr list \<times> slots" where
  "reader_count_for i reg a s =
     (case last_slot s of (last_id, last_ptr) \<Rightarrow>
        if last_id = i \<and> last_ptr \<noteq> None then (the last_ptr, reg, s)
        else (case List.find (\<lambda>(k, _). k = i) (all_slots s) of
                Some (_, c) \<Rightarrow> (c, reg, s\<lparr>last_slot := (i, Some c)\<rparr>)
              | None \<Rightarrow>
                  (a, reg @ [a], s\<lparr>all_slots := all_slots s @ [(i, a)], last_slot := (i, Some a)\<rparr>)))"

text \<open>The table of a thread is in order: one entry per id, and the cache is one of the entries.\<close>

definition slots_ok :: "slots \<Rightarrow> bool" where
  "slots_ok s \<longleftrightarrow> distinct (map fst (all_slots s)) \<and>
     (\<forall>k p. last_slot s = (k, Some p) \<longrightarrow> (k, p) \<in> set (all_slots s))"

lemma slots_ok_new: "slots_ok new_slots"
  by (simp add: slots_ok_def new_slots_def)

lemma find_key: "List.find (\<lambda>(k, _). k = i) xs = map_option (Pair i) (map_of xs i)"
  by (induction xs) auto

lemma reader_count_for_known:
  assumes "slots_ok s" "(i, p) \<in> set (all_slots s)"
  shows "reader_count_for i reg a s = (p, reg, s\<lparr>last_slot := (i, Some p)\<rparr>)"
proof -
  have m: "map_of (all_slots s) i = Some p" using assms by (simp add: slots_ok_def)
  show ?thesis
  proof (cases "fst (last_slot s) = i \<and> snd (last_slot s) \<noteq> None")
    case True
    then obtain q where q: "last_slot s = (i, Some q)" by (cases "last_slot s") auto
    then have "(i, q) \<in> set (all_slots s)" using assms(1) by (simp add: slots_ok_def)
    then have "q = p" using assms m by (simp add: slots_ok_def)
    then show ?thesis using q by (simp add: reader_count_for_def)
  next
    case False
    then show ?thesis using m
      by (cases "last_slot s") (auto simp: reader_count_for_def find_key)
  qed
qed

lemma reader_count_for_new:
  assumes "slots_ok s" "i \<notin> fst ` set (all_slots s)"
  shows "reader_count_for i reg a s =
    (a, reg @ [a], s\<lparr>all_slots := all_slots s @ [(i, a)], last_slot := (i, Some a)\<rparr>)"
proof -
  have "map_of (all_slots s) i = None" using assms(2) by (simp add: map_of_eq_None_iff)
  moreover have "last_slot s \<noteq> (i, Some q)" for q
    using assms by (force simp: slots_ok_def)
  ultimately show ?thesis
    by (cases "last_slot s"; cases "snd (last_slot s)") (auto simp: reader_count_for_def find_key)
qed

lemma slots_ok_reader_count_for:
  assumes "slots_ok s" "reader_count_for i reg a s = (p, reg', s')"
  shows "slots_ok s'"
proof (cases "i \<in> fst ` set (all_slots s)")
  case True
  then obtain q where q: "(i, q) \<in> set (all_slots s)" by auto
  show ?thesis
    using assms reader_count_for_known [OF assms(1) q, of reg a] q by (auto simp: slots_ok_def)
next
  case False
  then show ?thesis
    using assms reader_count_for_new [OF assms(1) False, of reg a] by (auto simp: slots_ok_def)
qed

text \<open>
  Property C20.  The cache never changes the answer: with the cache emptied, the counter, the registry and the
  tables that come out are the same.
\<close>

theorem slot_cache_transparent:
  assumes "slots_ok s"
  shows "reader_count_for i reg a s = reader_count_for i reg a (s\<lparr>last_slot := (- 1, None)\<rparr>)"
proof -
  let ?s = "s\<lparr>last_slot := (- 1, None)\<rparr>"
  have ok: "slots_ok ?s" using assms by (simp add: slots_ok_def)
  show ?thesis
  proof (cases "i \<in> fst ` set (all_slots s)")
    case True
    then obtain q where q: "(i, q) \<in> set (all_slots s)" by auto
    then show ?thesis
      using reader_count_for_known [OF assms q] reader_count_for_known [OF ok, of i q] by simp
  next
    case False
    then show ?thesis
      using reader_count_for_new [OF assms False] reader_count_for_new [OF ok, of i] by simp
  qed
qed

section \<open>All containers and all threads\<close>

text \<open>
  \<open>next_id\<close> is \<open>CONTAINER_ID\<close>.  A live container is known by the number \<open>o\<close> of its creation
  and has its \<open>id\<close> and its registry; \<open>heap\<close> holds the live counters.
\<close>

record world =
  next_id :: usize
  created :: nat
  conts :: "nat \<Rightarrow> (usize \<times> addr list) option"
  heap :: "addr \<Rightarrow> usize option"
  tls :: "tid \<Rightarrow> slots"

definition new_world :: world where
  "new_world = \<lparr>next_id = 0, created = 0, conts = (\<lambda>_. None), heap = (\<lambda>_. None),
     tls = (\<lambda>_. new_slots)\<rparr>"

text \<open>\<open>CONTAINER_ID.fetch_add(1, Relaxed)\<close> and the empty registry, in every constructor.\<close>

definition create_container :: "world \<Rightarrow> world" where
  "create_container w = w\<lparr>next_id := next_id w + 1, created := Suc (created w),
     conts := (conts w)(created w \<mapsto> (next_id w, []))\<rparr>"

text \<open>Dropping a container drops its registry and with it every box of the registry.\<close>

definition drop_container :: "nat \<Rightarrow> world \<Rightarrow> world" where
  "drop_container n w =
     (case conts w n of
        None \<Rightarrow> w
      | Some (i, reg) \<Rightarrow> w\<lparr>conts := (conts w)(n := None), heap := (heap w) |` (- set reg)\<rparr>)"

text \<open>The call of \<open>reader_count_for\<close> in the \<open>begin_read\<close> of container \<open>n\<close> by thread \<open>t\<close>.\<close>

definition slot_lookup :: "tid \<Rightarrow> nat \<Rightarrow> addr \<Rightarrow> world \<Rightarrow> (addr \<times> world) option" where
  "slot_lookup t n a w =
     (case conts w n of
        None \<Rightarrow> None
      | Some (i, reg) \<Rightarrow>
          (case reader_count_for i reg a (tls w t) of (p, reg', s') \<Rightarrow>
             Some (p, w\<lparr>conts := (conts w)(n \<mapsto> (i, reg')), tls := (tls w)(t := s'),
               heap := (if length reg' = length reg then heap w else (heap w)(a \<mapsto> 0))\<rparr>)))"

text \<open>
  When a thread ends its table is destroyed, but not the counters that it has registered; the
  number of the thread may then be given to a new one, which starts with an empty table.
\<close>

definition end_thread :: "tid \<Rightarrow> world \<Rightarrow> world" where
  "end_thread t w = w\<lparr>tls := (tls w)(t := new_slots)\<rparr>"

inductive world_step :: "world \<Rightarrow> world \<Rightarrow> bool" where
  step_create: "world_step w (create_container w)"
| step_drop: "world_step w (drop_container n w)"
| step_lookup: "heap w a = None \<Longrightarrow> slot_lookup t n a w = Some (p, w') \<Longrightarrow> world_step w w'"
| step_end: "world_step w (end_thread t w)"
| step_count: "heap w p \<noteq> None \<Longrightarrow> world_step w (w\<lparr>heap := (heap w)(p \<mapsto> v)\<rparr>)"

inductive world_reach :: "world \<Rightarrow> bool" where
  world_start: "world_reach new_world"
| world_next: "world_reach w \<Longrightarrow> world_step w w' \<Longrightarrow> world_reach w'"

text \<open>
  The invariant, as long as no more than \<open>2 ^ 64\<close> containers have been created: ids are the
  numbers of creation, live registries are disjoint sets of live boxes, and what a thread has
  recorded for the id of a live container is a box of that container that no other thread has.
\<close>

definition conts_ok :: "world \<Rightarrow> bool" where
  "conts_ok w \<longleftrightarrow> next_id w = of_nat (created w) \<and>
     (\<forall>n i reg. conts w n = Some (i, reg) \<longrightarrow>
        n < created w \<and> i = of_nat n \<and> distinct reg \<and> (\<forall>p \<in> set reg. heap w p \<noteq> None)) \<and>
     (\<forall>n m i j r1 r2. conts w n = Some (i, r1) \<longrightarrow> conts w m = Some (j, r2) \<longrightarrow> n \<noteq> m \<longrightarrow>
        set r1 \<inter> set r2 = {})"

definition records :: "world \<Rightarrow> tid \<Rightarrow> usize \<Rightarrow> addr \<Rightarrow> bool" where
  "records w t k p \<longleftrightarrow> (k, p) \<in> set (all_slots (tls w t))"

definition tls_ok :: "world \<Rightarrow> bool" where
  "tls_ok w \<longleftrightarrow> (\<forall>t. slots_ok (tls w t)) \<and>
     (\<forall>t k p. records w t k p \<longrightarrow> (\<exists>n < created w. k = of_nat n)) \<and>
     (\<forall>t n i reg p. conts w n = Some (i, reg) \<longrightarrow> records w t i p \<longrightarrow> p \<in> set reg) \<and>
     (\<forall>t u n i reg p. conts w n = Some (i, reg) \<longrightarrow> records w t i p \<longrightarrow> records w u i p \<longrightarrow> t = u)"

lemma records_simps [simp]:
  "records (w\<lparr>next_id := i\<rparr>) = records w" "records (w\<lparr>created := c\<rparr>) = records w"
  "records (w\<lparr>conts := f\<rparr>) = records w" "records (w\<lparr>heap := h\<rparr>) = records w"
  by (simp_all add: fun_eq_iff records_def)

lemma tls_okI:
  assumes "\<And>t. slots_ok (tls w t)"
    and "\<And>t k p. records w t k p \<Longrightarrow> \<exists>n < created w. k = of_nat n"
    and "\<And>t n i reg p. conts w n = Some (i, reg) \<Longrightarrow> records w t i p \<Longrightarrow> p \<in> set reg"
    and "\<And>t u n i reg p. conts w n = Some (i, reg) \<Longrightarrow> records w t i p \<Longrightarrow> records w u i p \<Longrightarrow> t = u"
  shows "tls_ok w"
  using assms unfolding tls_ok_def by blast

lemma tls_okD:
  assumes "tls_ok w"
  shows "slots_ok (tls w t)"
    and "records w t k p \<Longrightarrow> \<exists>n < created w. k = of_nat n"
    and "conts w n = Some (i, reg) \<Longrightarrow> records w t i p \<Longrightarrow> p \<in> set reg"
    and "conts w n = Some (i, reg) \<Longrightarrow> records w t i p \<Longrightarrow> records w u i p \<Longrightarrow> t = u"
  using assms unfolding tls_ok_def by blast+

lemma conts_okD:
  assumes "conts_ok w"
  shows "next_id w = of_nat (created w)"
    and "conts w n = Some (i, reg) \<Longrightarrow> n < created w"
    and "conts w n = Some (i, reg) \<Longrightarrow> i = of_nat n"
    and "conts w n = Some (i, reg) \<Longrightarrow> p \<in> set reg \<Longrightarrow> heap w p \<noteq> None"
    and "conts w n = Some (i, reg) \<Longrightarrow> conts w m = Some (j, r) \<Longrightarrow> n \<noteq> m \<Longrightarrow> set reg \<inter> set r = {}"
  using assms unfolding conts_ok_def by (blast, blast, blast, blast, blast)

lemma of_nat_usize_inj: "n < 2 ^ 64 \<Longrightarrow> m < 2 ^ 64 \<Longrightarrow> (of_nat n :: usize) = of_nat m \<longleftrightarrow> n = m"
  by (simp add: word_of_nat_eq_iff take_bit_nat_eq_self)

lemma world_ok_new: "conts_ok new_world" "tls_ok new_world"
  by (simp_all add: conts_ok_def tls_ok_def records_def new_world_def slots_ok_new)
    (simp add: new_slots_def)

lemma world_ok_create:
  assumes "conts_ok w" "tls_ok w" "created w < 2 ^ 64"
  shows "conts_ok (create_container w)" "tls_ok (create_container w)"
proof -
  let ?w = "create_container w"
  show "conts_ok ?w"
    using assms(1) by (auto simp: conts_ok_def create_container_def less_SucI split: if_splits)
  have same: "records ?w = records w" "tls ?w = tls w" "created ?w = Suc (created w)"
    by (auto simp: fun_eq_iff records_def create_container_def)
  have new: "\<not> records w t (of_nat (created w)) p" for t p
  proof
    assume "records w t (of_nat (created w)) p"
    then obtain n where "n < created w" "(of_nat (created w) :: usize) = of_nat n"
      using tls_okD(2) [OF assms(2)] by blast
    then show False using of_nat_usize_inj [of "created w" n] assms(3) by simp
  qed
  show "tls_ok ?w"
  proof (rule tls_okI)
    show "slots_ok (tls ?w t)" for t using tls_okD(1) [OF assms(2)] by (simp add: same)
    show "\<exists>n < created ?w. k = of_nat n" if "records ?w t k p" for t k p
      using that tls_okD(2) [OF assms(2)] unfolding same by (meson less_SucI)
    show "p \<in> set reg" if "conts ?w n = Some (i, reg)" "records ?w t i p" for t n i reg p
      using that new tls_okD(3) [OF assms(2)] conts_okD(1) [OF assms(1)]
      by (auto simp: same create_container_def split: if_splits)
    show "t = u" if "conts ?w n = Some (i, reg)" "records ?w t i p" "records ?w u i p"
      for t u n i reg p
      using that new tls_okD(4) [OF assms(2)] conts_okD(1) [OF assms(1)]
      by (auto simp: same create_container_def split: if_splits)
  qed
qed

lemma world_ok_drop:
  assumes "conts_ok w" "tls_ok w"
  shows "conts_ok (drop_container n w)" "tls_ok (drop_container n w)"
proof -
  let ?w = "drop_container n w"
  show "conts_ok ?w"
    using assms(1) unfolding conts_ok_def drop_container_def
    by (auto simp: restrict_map_def split: option.splits if_splits) blast+
  have same: "records ?w = records w" "tls ?w = tls w" "created ?w = created w"
    by (auto simp: fun_eq_iff records_def drop_container_def split: option.splits)
  have "conts w m = Some x" if "conts ?w m = Some x" for m x
    using that by (auto simp: drop_container_def split: option.splits if_splits)
  then show "tls_ok ?w"
    using tls_okD [OF assms(2)] by (intro tls_okI) (auto simp: same, blast+)
qed

lemma world_ok_end:
  assumes "conts_ok w" "tls_ok w"
  shows "conts_ok (end_thread t w)" "tls_ok (end_thread t w)"
proof -
  let ?w = "end_thread t w"
  show "conts_ok ?w" using assms(1) by (simp add: conts_ok_def end_thread_def)
  have rec: "records w u k p" if "records ?w u k p" for u k p
    using that by (auto simp: records_def end_thread_def new_slots_def split: if_splits)
  have same: "conts ?w = conts w" "created ?w = created w" by (simp_all add: end_thread_def)
  show "tls_ok ?w"
  proof (rule tls_okI)
    show "slots_ok (tls ?w u)" for u
      using tls_okD(1) [OF assms(2)] slots_ok_new by (simp add: end_thread_def)
  qed (use rec tls_okD(2-) [OF assms(2)] in \<open>unfold same, blast+\<close>)
qed

lemma slot_lookup_known:
  assumes "tls_ok w" "conts w n = Some (i, reg)" "records w t i p"
  shows "slot_lookup t n a w = Some (p, w\<lparr>tls := (tls w)(t := (tls w t)\<lparr>last_slot := (i, Some p)\<rparr>)\<rparr>)"
proof -
  have "slots_ok (tls w t)" using assms(1) by (simp add: tls_ok_def)
  then show ?thesis
    using assms(2) reader_count_for_known [OF _ assms(3) [unfolded records_def]]
    by (simp add: slot_lookup_def fun_upd_idem)
qed

lemma slot_lookup_new:
  assumes "tls_ok w" "conts w n = Some (i, reg)" "\<And>p. \<not> records w t i p"
  shows "slot_lookup t n a w = Some (a, w\<lparr>conts := (conts w)(n \<mapsto> (i, reg @ [a])),
    heap := (heap w)(a \<mapsto> 0), tls := (tls w)(t := (tls w t)\<lparr>all_slots :=
      all_slots (tls w t) @ [(i, a)], last_slot := (i, Some a)\<rparr>)\<rparr>)"
proof -
  have "slots_ok (tls w t)" using assms(1) by (simp add: tls_ok_def)
  moreover have "i \<notin> fst ` set (all_slots (tls w t))" using assms(3) by (auto simp: records_def)
  ultimately show ?thesis
    using assms(2) reader_count_for_new by (simp add: slot_lookup_def)
qed

lemma world_ok_lookup:
  assumes ok: "conts_ok w" "tls_ok w" and a: "heap w a = None" and cr: "created w \<le> 2 ^ 64"
    and lookup: "slot_lookup t n a w = Some (p, w')"
  shows "conts_ok w' \<and> tls_ok w' \<and> created w' = created w \<and>
    (\<exists>i reg. conts w' n = Some (i, reg) \<and> p \<in> set reg \<and> heap w' p \<noteq> None \<and> records w' t i p)"
proof -
  obtain i reg where n: "conts w n = Some (i, reg)"
    using lookup by (auto simp: slot_lookup_def split: option.splits)
  show ?thesis
  proof (cases "\<exists>q. records w t i q")
    case True
    then obtain q where q: "records w t i q" by blast
    have w': "w' = w\<lparr>tls := (tls w)(t := (tls w t)\<lparr>last_slot := (i, Some q)\<rparr>)\<rparr>" "p = q"
      using slot_lookup_known [OF ok(2) n q, of a] lookup by simp_all
    have same: "records w' = records w" by (auto simp: fun_eq_iff records_def w'(1))
    have reg: "q \<in> set reg" using tls_okD(3) [OF ok(2) n q] .
    then have "heap w q \<noteq> None" using conts_okD(4) [OF ok(1) n] by blast
    moreover have "conts_ok w'" using ok(1) by (simp add: w'(1) conts_ok_def)
    moreover have "tls_ok w'"
    proof (rule tls_okI)
      show "slots_ok (tls w' u)" for u
        using tls_okD(1) [OF ok(2), of u] q by (auto simp: w'(1) slots_ok_def records_def)
      show "\<exists>m < created w'. k = of_nat m" if "records w' u k p" for u k p
        using that tls_okD(2) [OF ok(2)] by (simp add: same) (simp add: w'(1))
      show "p \<in> set r" if "conts w' m = Some (j, r)" "records w' u j p" for u m j r p
        using that tls_okD(3) [OF ok(2)] by (simp add: same) (simp add: w'(1))
      show "u = v" if "conts w' m = Some (j, r)" "records w' u j p" "records w' v j p"
        for u v m j r p
        using that tls_okD(4) [OF ok(2)] by (simp add: same) (simp add: w'(1))
    qed
    ultimately show ?thesis using n q reg by (simp add: same) (simp add: w')
  next
    case False
    have w': "w' = w\<lparr>conts := (conts w)(n \<mapsto> (i, reg @ [a])), heap := (heap w)(a \<mapsto> 0),
        tls := (tls w)(t := (tls w t)\<lparr>all_slots := all_slots (tls w t) @ [(i, a)],
          last_slot := (i, Some a)\<rparr>)\<rparr>" "p = a"
      using slot_lookup_new [OF ok(2) n, of t a] False lookup by simp_all
    have rec: "records w' u k q \<longleftrightarrow> records w u k q \<or> u = t \<and> k = i \<and> q = a" for u k q
      by (auto simp: records_def w'(1))
    have fresh: "a \<notin> set r" if "conts w m = Some (j, r)" for m j r
      using conts_okD(4) [OF ok(1) that] a by blast
    have other: "conts w m = Some (j, r) \<and> j \<noteq> i" if "conts w' m = Some (j, r)" "m \<noteq> n" for m j r
    proof -
      have m: "conts w m = Some (j, r)" using that by (simp add: w'(1))
      have "m < 2 ^ 64" "n < 2 ^ 64"
        using conts_okD(2) [OF ok(1) m] conts_okD(2) [OF ok(1) n] cr by auto
      then show ?thesis
        using of_nat_usize_inj [of m n] that(2) m conts_okD(3) [OF ok(1)] n by blast
    qed
    have own: "i = j \<and> r = reg @ [a]" if "conts w' n = Some (j, r)" for j r
      using that by (simp add: w'(1))
    have "conts_ok w'"
      using ok(1) n fresh unfolding conts_ok_def w'(1) by (auto split: if_splits)
    moreover have "tls_ok w'"
    proof (rule tls_okI)
      show "slots_ok (tls w' u)" for u
        using tls_okD(1) [OF ok(2), of u] False
        by (auto simp: w'(1) slots_ok_def records_def)
      show "\<exists>m < created w'. k = of_nat m" if "records w' u k q" for u k q
        using that tls_okD(2) [OF ok(2), of u k q] conts_okD(2,3) [OF ok(1) n]
        by (auto simp: rec) (auto simp: w'(1))
      show "q \<in> set r" if "conts w' m = Some (j, r)" "records w' u j q" for u m j r q
        using that rec other own tls_okD(3) [OF ok(2)] n by (cases "m = n") fastforce+
      show "u = v" if "conts w' m = Some (j, r)" "records w' u j q" "records w' v j q"
        for u v m j r q
      proof (cases "m = n")
        case True
        have "q \<noteq> a" if "records w x i q" for x
          using tls_okD(3) [OF ok(2) n that] fresh [OF n] by blast
        then show ?thesis using that True rec own tls_okD(4) [OF ok(2) n] by blast
      next
        case False
        then show ?thesis using that rec other tls_okD(4) [OF ok(2)] by blast
      qed
    qed
    ultimately show ?thesis using n by (simp add: rec) (simp add: w')
  qed
qed

lemma created_mono: "world_step w w' \<Longrightarrow> created w \<le> created w'"
  by (induction rule: world_step.induct)
    (auto simp: create_container_def drop_container_def slot_lookup_def end_thread_def
      split: option.splits prod.splits)

lemma world_ok_step:
  assumes "conts_ok w \<and> tls_ok w" "world_step w w'" "created w' \<le> 2 ^ 64"
  shows "conts_ok w' \<and> tls_ok w'"
  using assms(2)
proof (cases rule: world_step.cases)
  case step_create
  then show ?thesis using world_ok_create [of w] assms(1,3) by (simp add: create_container_def)
next
  case (step_drop n)
  then show ?thesis using world_ok_drop assms(1) by blast
next
  case (step_lookup a t n p)
  then show ?thesis
    using world_ok_lookup created_mono [OF assms(2)] assms(1,3) le_trans by blast
next
  case (step_end t)
  then show ?thesis using world_ok_end assms(1) by blast
next
  case (step_count p v)
  have "conts_ok w'" using assms(1) by (auto simp: step_count(1) conts_ok_def)
  moreover have "tls_ok w'"
    using assms(1) by (simp add: step_count(1) tls_ok_def)
  ultimately show ?thesis by blast
qed

lemma world_reach_ok:
  assumes "world_reach w" "created w \<le> 2 ^ 64"
  shows "conts_ok w \<and> tls_ok w"
  using assms
proof (induction rule: world_reach.induct)
  case world_start
  then show ?case using world_ok_new by blast
next
  case (world_next w w')
  then show ?case using world_ok_step created_mono le_trans by blast
qed

section \<open>What readers get\<close>

text \<open>
  The pointer that a thread gets is a live counter of the container it asked for, whatever
  containers have been dropped and whatever addresses have been reused before.
\<close>

theorem reader_count_valid:
  assumes "world_reach w" and "created w \<le> 2 ^ 64" and "heap w a = None"
    and "slot_lookup t n a w = Some (p, w')"
  shows "(\<exists>i reg. conts w' n = Some (i, reg) \<and> p \<in> set reg) \<and> heap w' p \<noteq> None"
proof -
  have ok: "conts_ok w" "tls_ok w" using world_reach_ok [OF assms(1,2)] by blast+
  show ?thesis using world_ok_lookup [OF ok assms(3,2,4)] by blast
qed

text \<open>
  Counters are private: two threads never share a counter, and neither do two
  containers.
\<close>

theorem reader_count_private:
  assumes "world_reach w" and "created w \<le> 2 ^ 64" and "heap w a = None"
    and "slot_lookup t n a w = Some (p, w1)" and "heap w1 b = None"
    and "slot_lookup u m b w1 = Some (q, w2)" and "(t, n) \<noteq> (u, m)"
  shows "p \<noteq> q"
proof
  assume pq: "p = q"
  have ok: "conts_ok w" "tls_ok w" using world_reach_ok [OF assms(1,2)] by blast+
  from world_ok_lookup [OF ok assms(3,2,4)] obtain i reg
    where 1: "conts_ok w1" "tls_ok w1" "created w1 = created w"
      "conts w1 n = Some (i, reg)" "p \<in> set reg" "records w1 t i p" by blast
  then have cr: "created w1 \<le> 2 ^ 64" using assms(2) by simp
  from world_ok_lookup [OF 1(1,2) assms(5) cr assms(6)] obtain j r
    where 2: "conts_ok w2" "tls_ok w2" "conts w2 m = Some (j, r)" "q \<in> set r" "records w2 u j q"
    by blast
  have keep: "\<exists>reg2. conts w2 n = Some (i, reg2) \<and> p \<in> set reg2" "records w2 t i p"
    using assms(6) 1(4-6)
    by (auto simp: slot_lookup_def reader_count_for_def records_def split: option.splits prod.splits if_splits)
  have "n = m" using keep(1) 2(3,4) conts_okD(5) [OF 2(1)] pq by blast
  moreover from this have "t = u" using tls_okD(4) [OF 2(2,3)] keep 2(3,5) pq by auto
  ultimately show False using assms(7) by blast
qed

lemma records_step:
  "world_step w w' \<Longrightarrow> w' \<noteq> end_thread t w \<Longrightarrow> records w t i p \<Longrightarrow> records w' t i p"
  by (induction rule: world_step.induct)
    (auto simp: create_container_def drop_container_def slot_lookup_def reader_count_for_def records_def
      end_thread_def split: option.splits prod.splits if_splits)

text \<open>The worlds that can follow a world while thread \<open>t\<close> runs.\<close>

inductive world_later :: "tid \<Rightarrow> world \<Rightarrow> world \<Rightarrow> bool" for t :: tid and w :: world where
  world_later_refl: "world_later t w w"
| world_later_step: "world_later t w w' \<Longrightarrow> world_step w' w'' \<Longrightarrow> w'' \<noteq> end_thread t w' \<Longrightarrow>
    world_later t w w''"

lemma world_reach_later: "world_later t w w' \<Longrightarrow> world_reach w \<Longrightarrow> world_reach w'"
  by (induction rule: world_later.induct) (auto intro: world_next)

lemma records_later: "world_later t w w' \<Longrightarrow> records w t i p \<Longrightarrow> records w' t i p"
  by (induction rule: world_later.induct) (auto intro: records_step)

text \<open>
  A thread keeps its counter for as long as the container and the thread live: whatever happens
  between two calls of \<open>reader_count_for\<close>, the second returns the pointer of the first.
\<close>

theorem reader_count_stable:
  assumes "world_reach w" and "heap w a = None" and "slot_lookup t n a w = Some (p, w1)"
    and "world_later t w1 w2" and "created w2 \<le> 2 ^ 64" and "slot_lookup t n b w2 = Some (q, w3)"
  shows "q = p"
proof -
  have r1: "world_reach w1" using assms(1-3) by (blast intro: world_next step_lookup)
  have r2: "world_reach w2" using assms(4) r1 by (rule world_reach_later)
  have "created w1 \<le> created w2" using assms(4) created_mono
    by (induction rule: world_later.induct) (auto intro: le_trans)
  moreover have "created w \<le> created w1" using assms(2,3) by (blast intro: created_mono step_lookup)
  ultimately have cr: "created w \<le> 2 ^ 64" "created w1 \<le> 2 ^ 64" using assms(5) by simp_all
  have ok: "conts_ok w" "tls_ok w" using world_reach_ok [OF assms(1) cr(1)] by blast+
  from world_ok_lookup [OF ok assms(2) cr(1) assms(3)] obtain i reg
    where 1: "conts_ok w1" "conts w1 n = Some (i, reg)" "records w1 t i p" by blast
  have ok2: "conts_ok w2" "tls_ok w2" using world_reach_ok [OF r2 assms(5)] by blast+
  obtain j r where 2: "conts w2 n = Some (j, r)"
    using assms(6) by (auto simp: slot_lookup_def split: option.splits)
  have "j = i" using conts_okD(3) [OF ok2(1) 2] conts_okD(3) [OF 1(1,2)] by simp
  then have "records w2 t j p" using records_later [OF assms(4) 1(3)] by simp
  then show ?thesis using slot_lookup_known [OF ok2(2) 2, of t p b] assms(6) by simp
qed

section \<open>Counters by position\<close>

text \<open>
  Theory \<open>Rw_Lock\<close> names a counter by its position in the registry of its container.  This is
  the position that the table of thread \<open>t\<close> stands for.
\<close>

definition position :: "addr list \<Rightarrow> addr \<Rightarrow> nat" where
  "position reg p = length (takeWhile (\<lambda>x. x \<noteq> p) reg)"

definition slot_position :: "world \<Rightarrow> tid \<Rightarrow> nat \<Rightarrow> nat option" where
  "slot_position w t n =
     (case conts w n of
        None \<Rightarrow> None
      | Some (i, reg) \<Rightarrow> map_option (position reg) (map_of (all_slots (tls w t)) i))"

lemma position_nth: "p \<in> set reg \<Longrightarrow> position reg p < length reg \<and> reg ! position reg p = p"
  unfolding position_def by (induction reg) auto

lemma position_append: "p \<in> set reg \<Longrightarrow> position (reg @ qs) p = position reg p"
  by (simp add: position_def takeWhile_append1)

lemma position_new: "p \<notin> set reg \<Longrightarrow> position (reg @ [p]) p = length reg"
  unfolding position_def by (induction reg) auto

lemma map_of_records: "slots_ok (tls w t) \<Longrightarrow> map_of (all_slots (tls w t)) i = Some p \<longleftrightarrow> records w t i p"
  by (auto simp: slots_ok_def records_def dest: map_of_SomeD)

text \<open>
  \<open>reader_count_for\<close> implements the two cases of \<open>slot_step\<close> and \<open>push_step\<close>: a thread with a
  slot gets the counter at that position and nothing changes; a thread without one gets a new
  counter, zero, at the end of the registry.
\<close>

theorem slot_lookup_by_position:
  assumes "world_reach w" and "created w \<le> 2 ^ 64" and "heap w a = None"
    and "conts w n = Some (i, reg)" and "slot_lookup t n a w = Some (p, w')"
  shows "case slot_position w t n of
      Some k \<Rightarrow> conts w' = conts w \<and> heap w' = heap w \<and> p = reg ! k \<and> k < length reg \<and>
        slot_position w' t n = Some k
    | None \<Rightarrow> conts w' n = Some (i, reg @ [p]) \<and> heap w' p = Some 0 \<and>
        slot_position w' t n = Some (length reg)"
proof -
  have ok: "conts_ok w" "tls_ok w" using world_reach_ok [OF assms(1,2)] by blast+
  have table: "slots_ok (tls w t)" using tls_okD(1) [OF ok(2)] .
  show ?thesis
  proof (cases "map_of (all_slots (tls w t)) i")
    case (Some q)
    then have q: "records w t i q" using map_of_records [OF table] by simp
    have in_reg: "q \<in> set reg" using tls_okD(3) [OF ok(2) assms(4) q] .
    have "w' = w\<lparr>tls := (tls w)(t := (tls w t)\<lparr>last_slot := (i, Some q)\<rparr>)\<rparr>" "p = q"
      using slot_lookup_known [OF ok(2) assms(4) q, of a] assms(5) by simp_all
    then show ?thesis
      using Some position_nth [OF in_reg] assms(4) by (simp add: slot_position_def)
  next
    case None
    then have "\<not> records w t i q" for q using map_of_records [OF table, of i q] by simp
    from slot_lookup_new [OF ok(2) assms(4) this, of a] assms(5)
    have w': "w' = w\<lparr>conts := (conts w)(n \<mapsto> (i, reg @ [a])), heap := (heap w)(a \<mapsto> 0),
        tls := (tls w)(t := (tls w t)\<lparr>all_slots := all_slots (tls w t) @ [(i, a)],
          last_slot := (i, Some a)\<rparr>)\<rparr>" "p = a"
      by simp_all
    have "a \<notin> set reg" using conts_okD(4) [OF ok(1) assms(4)] assms(3) by blast
    then show ?thesis
      using None assms(4) by (simp add: slot_position_def w' map_add_def position_new)
  qed
qed

section \<open>When the ids wrap around\<close>

lemma churn:
  assumes "world_reach w" "conts w = (\<lambda>_. None)"
  shows "\<exists>w'. world_reach w' \<and> created w' = created w + k \<and> next_id w' = next_id w + of_nat k \<and>
    tls w' = tls w \<and> heap w' = heap w \<and> conts w' = (\<lambda>_. None)"
proof (induction k)
  case 0
  then show ?case using assms by auto
next
  case (Suc k)
  then obtain w' where w': "world_reach w'" "created w' = created w + k"
    "next_id w' = next_id w + of_nat k" "tls w' = tls w" "heap w' = heap w" "conts w' = (\<lambda>_. None)"
    by blast
  let ?w = "drop_container (created w') (create_container w')"
  have "world_reach ?w" using w'(1) by (blast intro: world_next step_create step_drop)
  moreover have "heap ?w = heap w'" "conts ?w = (\<lambda>_. None)" "tls ?w = tls w'"
    "created ?w = Suc (created w')" "next_id ?w = next_id w' + 1"
    by (auto simp: drop_container_def create_container_def w'(6))
  ultimately show ?case using w' by (auto intro!: exI [of _ ?w])
qed

text \<open>
  Property C38.  The bound \<open>2 ^ 64\<close> is needed: after that many creations \<open>CONTAINER_ID\<close> starts again at 0, and a
  thread that has read the first container gets, for a new one, the dangling pointer that its
  table still holds.
\<close>

theorem reader_count_dangles_after_wraparound:
  "\<exists>w t n a p w'. world_reach w \<and> created w = 2 ^ 64 + 1 \<and> heap w a = None \<and>
     slot_lookup t n a w = Some (p, w') \<and> heap w' p = None"
proof -
  define w1 where "w1 = create_container new_world"
  define w2 where "w2 = snd (the (slot_lookup 0 0 5 w1))"
  define w3 where "w3 = drop_container 0 w2"
  have "world_reach w1" unfolding w1_def by (blast intro: world_next world_start step_create)
  moreover have "heap w1 5 = None" by (simp add: w1_def create_container_def new_world_def)
  ultimately have w1: "world_reach w1" "heap w1 5 = None" by blast+
  have w2: "slot_lookup 0 0 5 w1 = Some (5, w2)"
    by (simp add: w2_def w1_def create_container_def new_world_def slot_lookup_def
        reader_count_for_def new_slots_def)
  then have "world_reach w3" unfolding w3_def
    using w1 by (blast intro: world_next step_lookup step_drop)
  moreover have w3: "created w3 = 1" "next_id w3 = 1" "heap w3 = (\<lambda>_. None)" "conts w3 = (\<lambda>_. None)"
    "all_slots (tls w3 0) = [(0, 5)]" "last_slot (tls w3 0) = (0, Some 5)"
    by (auto simp: w3_def w2_def w1_def create_container_def drop_container_def new_world_def
        slot_lookup_def reader_count_for_def new_slots_def)
  ultimately obtain w4 where w4: "world_reach w4" "created w4 = 2 ^ 64" "next_id w4 = 0"
    "tls w4 = tls w3" "heap w4 = (\<lambda>_. None)"
    using churn [of w3 "2 ^ 64 - 1"] by auto
  define w5 where "w5 = create_container w4"
  define w6 where "w6 = snd (the (slot_lookup 0 (2 ^ 64) 7 w5))"
  have "world_reach w5" unfolding w5_def using w4(1) by (blast intro: world_next step_create)
  moreover have "created w5 = 2 ^ 64 + 1" "heap w5 7 = None"
    using w4 by (simp_all add: w5_def create_container_def)
  moreover have "slot_lookup 0 (2 ^ 64) 7 w5 = Some (5, w6)" "heap w6 5 = None"
    using w4 w3 by (simp_all add: w6_def w5_def create_container_def slot_lookup_def reader_count_for_def)
  ultimately show ?thesis by blast
qed

section \<open>Instances\<close>

text \<open>One container; thread 0 reads it first (its counter is the box at address 5).\<close>

definition world1 :: world where
  "world1 = create_container new_world"

definition world2 :: world where
  "world2 = world1\<lparr>conts := (conts world1)(0 \<mapsto> (0, [5])), heap := (heap world1)(5 \<mapsto> 0),
     tls := (tls world1)(0 := \<lparr>last_slot = (0, Some 5), all_slots = [(0, 5)]\<rparr>)\<rparr>"

lemma world1: "world_reach world1" "created world1 \<le> 2 ^ 64" "heap world1 5 = None"
  using world_next [OF world_start step_create] by (simp_all add: world1_def create_container_def new_world_def)

lemma first_lookup: "slot_lookup 0 0 5 world1 = Some (5, world2)"
  by (simp add: world2_def world1_def create_container_def new_world_def slot_lookup_def
      reader_count_for_def new_slots_def)

lemma second_lookup:
  "slot_lookup 1 0 6 world2 = Some (6, world2\<lparr>conts := (conts world1)(0 \<mapsto> (0, [5, 6])),
     heap := (heap world1)(5 \<mapsto> 0, 6 \<mapsto> 0),
     tls := (tls world2)(1 := \<lparr>last_slot = (0, Some 6), all_slots = [(0, 6)]\<rparr>)\<rparr>)"
  by (simp add: world2_def world1_def create_container_def new_world_def slot_lookup_def
      reader_count_for_def new_slots_def)

lemma world2: "heap world2 6 = None" "created world2 \<le> 2 ^ 64"
  by (simp_all add: world2_def world1_def create_container_def new_world_def)

lemma repeated_lookup: "slot_lookup 0 0 6 world2 = Some (5, world2)"
  by (simp add: world2_def world1_def create_container_def new_world_def slot_lookup_def
      reader_count_for_def fun_upd_twist)

theorem reader_count_valid_witness: "heap world2 5 \<noteq> None"
  using reader_count_valid [OF world1 first_lookup] by blast

theorem reader_count_private_witness: "(5 :: addr) \<noteq> 6 \<and> slot_lookup 0 0 5 world1 = Some (5, world2)"
  using reader_count_private [OF world1 first_lookup world2(1) second_lookup] first_lookup by simp

theorem reader_count_stable_witness:
  "\<exists>q w. slot_lookup 0 0 6 world2 = Some (q, w) \<and> q = 5"
  using reader_count_stable [OF world1(1,3) first_lookup world_later_refl world2(2) repeated_lookup]
    repeated_lookup by blast

theorem slot_lookup_by_position_witness:
  "conts world2 0 = Some (0, [5]) \<and> slot_position world1 0 0 = None \<and>
    slot_position world2 0 0 = Some 0"
proof -
  have none: "slot_position world1 0 0 = None" and reg: "conts world1 0 = Some (0, [])"
    by (simp_all add: slot_position_def world1_def create_container_def new_world_def new_slots_def)
  show ?thesis using slot_lookup_by_position [OF world1 reg first_lookup] none by simp
qed

theorem slot_cache_transparent_witness:
  "reader_count_for 7 [100] 101 \<lparr>last_slot = (7, Some 100), all_slots = [(8, 50), (7, 100)]\<rparr> =
    reader_count_for 7 [100] 101 \<lparr>last_slot = (- 1, None), all_slots = [(8, 50), (7, 100)]\<rparr>"
proof -
  let ?s = "\<lparr>last_slot = (7, Some 100), all_slots = [(8, 50), (7, 100)]\<rparr>"
  have "slots_ok ?s" by (simp add: slots_ok_def)
  from slot_cache_transparent [OF this, of 7 "[100]" 101] show ?thesis by simp
qed

end
