(* ===== verification/Rw_Heap.thy ===== *)
theory Rw_Heap
  imports Rw_Instances Reader_Slots
begin

text \<open>
  The protocol on the heap: any number of containers that come and go, whose counters are boxes
  with addresses, and threads that find their counters through their thread-local tables.  A call
  keeps a pointer to its counter (\<open>count\<close>), a guard as well, and a writer scans the boxes of its
  registry.  Theory \<open>Rw_Lock\<close> has one container, and positions in its registry in place of
  addresses; the view of a container, defined at the end, is its state in the terms of \<open>Rw_Lock\<close>.
\<close>

section \<open>State\<close>

text \<open>
  A live container: the fields of the struct that are not in the \<open>world\<close> of \<open>Reader_Slots\<close>
  (which has \<open>id\<close> and the boxes of \<open>registry\<close>), and the calls and guards on it; \<open>origin\<close> and
  \<open>past\<close> are its first contents and its history.  The counters in
  \<open>call_at\<close>, \<open>live_guards\<close> and \<open>lost_guards\<close> are addresses: the program counters of \<open>Rw_Lock\<close>
  have \<open>count\<close> as a natural number, which is an address here and a position there.
\<close>

record ('c, 'l, 'r) object =
  origin :: 'c
  data :: 'c
  lock :: 'l
  flag :: bool
  boxes_lock :: 'l
  call_at :: "tid \<Rightarrow> ('c, 'r) pc"
  live_guards :: "(tid \<times> addr) list"
  lost_guards :: "addr list"
  write_guard_of :: "tid \<Rightarrow> bool"
  result :: "tid \<Rightarrow> 'r outcome option"
  past :: "('c, 'r) event list"

record ('c, 'l, 'r) machine =
  memory :: world
  objects :: "nat \<Rightarrow> ('c, 'l, 'r) object"

definition new_object :: "'l mutex_ops \<Rightarrow> 'c \<Rightarrow> ('c, 'l, 'r) object" where
  "new_object M c = \<lparr>origin = c, data = c, lock = mx_new M, flag = False, boxes_lock = mx_new M,
     call_at = (\<lambda>_. Idle), live_guards = [], lost_guards = [], write_guard_of = (\<lambda>_. False),
     result = (\<lambda>_. None), past = []\<rparr>"

section \<open>Atomic actions\<close>

text \<open>
  \<open>reader_count_for\<close> in two parts: what it finds in the table of the thread, and the new entry
  that it makes under the lock of the registry.
\<close>

definition find_slot :: "usize \<Rightarrow> slots \<Rightarrow> (addr \<times> slots) option" where
  "find_slot i s =
     (case last_slot s of (last_id, last_ptr) \<Rightarrow>
        if last_id = i \<and> last_ptr \<noteq> None then Some (the last_ptr, s)
        else (case List.find (\<lambda>(k, _). k = i) (all_slots s) of
                Some (_, c) \<Rightarrow> Some (c, s\<lparr>last_slot := (i, Some c)\<rparr>)
              | None \<Rightarrow> None))"

definition add_slot :: "usize \<Rightarrow> addr \<Rightarrow> slots \<Rightarrow> slots" where
  "add_slot i a s = s\<lparr>all_slots := all_slots s @ [(i, a)], last_slot := (i, Some a)\<rparr>"

lemma reader_count_for_parts:
  "reader_count_for i reg a s =
     (case find_slot i s of Some (p, s') \<Rightarrow> (p, reg, s') | None \<Rightarrow> (a, reg @ [a], add_slot i a s))"
  by (auto simp: reader_count_for_def find_slot_def add_slot_def split: prod.splits option.splits)

text \<open>
  An atomic read-modify-write of the counter at an address, and a load.  A dangling pointer gets
  stuck; \<open>no_dangling_counters\<close> in theory \<open>Rw_Heap_Reach\<close> shows that there are none.
\<close>

definition fetch :: "(usize \<Rightarrow> usize) \<Rightarrow> addr \<Rightarrow> world \<Rightarrow> world option" where
  "fetch f p w =
     (case heap w p of None \<Rightarrow> None | Some v \<Rightarrow> Some (w\<lparr>heap := (heap w)(p \<mapsto> f v)\<rparr>))"

definition at :: "tid \<Rightarrow> ('c, 'r) pc \<Rightarrow> ('c, 'l, 'r) object \<Rightarrow> ('c, 'l, 'r) object" where
  "at t p x = x\<lparr>call_at := (call_at x)(t := p)\<rparr>"

definition done_at :: "tid \<Rightarrow> 'r outcome option \<Rightarrow> ('c, 'l, 'r) object \<Rightarrow> ('c, 'l, 'r) object" where
  "done_at t r x = x\<lparr>call_at := (call_at x)(t := Idle), result := (result x)(t := r)\<rparr>"

definition note_event :: "('c, 'r) event \<Rightarrow> ('c, 'l, 'r) object \<Rightarrow> ('c, 'l, 'r) object" where
  "note_event e x = x\<lparr>past := past x @ [e]\<rparr>"

text \<open>
  \<open>begin_read\<close> of thread \<open>t\<close> on container \<open>n\<close>, one equation for each program counter; \<open>a\<close> is the
  address that the allocator gives if a counter is made.
\<close>

fun heap_begin_read_step :: "'l mutex_ops \<Rightarrow> tid \<Rightarrow> nat \<Rightarrow> addr \<Rightarrow> ('c, 'r) pc \<Rightarrow>
    world \<Rightarrow> ('c, 'l, 'r) object \<Rightarrow> (world \<times> ('c, 'l, 'r) object) option" where
  "heap_begin_read_step M t n a (RSlot b) w x =
     (case conts w n of
        None \<Rightarrow> None
      | Some (i, reg) \<Rightarrow>
          (case find_slot i (tls w t) of
             Some (p, s) \<Rightarrow> Some (w\<lparr>tls := (tls w)(t := s)\<rparr>, at t (RAdd p b) x)
           | None \<Rightarrow>
               (case mx_lock M t (boxes_lock x) of
                  None \<Rightarrow> None
                | Some l \<Rightarrow> Some (w, at t (RPush b) (x\<lparr>boxes_lock := l\<rparr>)))))"
| "heap_begin_read_step M t n a (RPush b) w x =
     (case conts w n of
        None \<Rightarrow> None
      | Some (i, reg) \<Rightarrow>
          Some (w\<lparr>conts := (conts w)(n \<mapsto> (i, reg @ [a])), heap := (heap w)(a \<mapsto> 0),
                  tls := (tls w)(t := add_slot i a (tls w t))\<rparr>,
                at t (RAdd a b) (x\<lparr>boxes_lock := mx_unlock M (boxes_lock x)\<rparr>)))"
| "heap_begin_read_step M t n a (RAdd p b) w x =
     map_option (\<lambda>w. (w, at t (RLoad p b) x)) (fetch (\<lambda>v. v + 1) p w)"
| "heap_begin_read_step M t n a (RLoad p b) w x =
     Some (w, at t (if \<not> flag x then RBody p b else RUndo p b) x)"
| "heap_begin_read_step M t n a (RUndo p b) w x =
     map_option (\<lambda>w. (w, at t (RAdd p b) x)) (fetch (\<lambda>v. v - 1) p w)"
| "heap_begin_read_step M t n a _ w x = None"

text \<open>The body of a reading method, and the release of the slot through the pointer.\<close>

fun heap_read_body_step :: "tid \<Rightarrow> ('c, 'r) pc \<Rightarrow>
    world \<Rightarrow> ('c, 'l, 'r) object \<Rightarrow> (world \<times> ('c, 'l, 'r) object) option" where
  "heap_read_body_step t (RBody p b) w x = Some (w, at t (RFinish p b (data x)) x)"
| "heap_read_body_step t (RFinish p b c) w x =
     (let y = note_event (EvRead b (b c)) x in
      Some (w, case b c of
          Pinned r \<Rightarrow> done_at t (Some (Returned r)) (y\<lparr>live_guards := (t, p) # live_guards y\<rparr>)
        | Unpinned r \<Rightarrow> at t (RSub p (Returned r)) y
        | Unwound \<Rightarrow> at t (RSub p Panicked) y
        | ReadPanic \<Rightarrow> done_at t (Some Panicked) (y\<lparr>lost_guards := p # lost_guards y\<rparr>)))"
| "heap_read_body_step t (RSub p r) w x =
     map_option (\<lambda>w. (w, done_at t (Some r) x)) (fetch (\<lambda>v. v - 1) p w)"
| "heap_read_body_step t _ w x = None"

text \<open>\<open>begin_write\<close>: the scan loads the boxes of the registry.\<close>

fun heap_begin_write_step :: "'l mutex_ops \<Rightarrow> tid \<Rightarrow> nat \<Rightarrow> ('c, 'r) pc \<Rightarrow>
    world \<Rightarrow> ('c, 'l, 'r) object \<Rightarrow> ('c, 'l, 'r) object option" where
  "heap_begin_write_step M t n (WLock b) w x =
     map_option (\<lambda>l. at t (WStore b) (x\<lparr>lock := l\<rparr>)) (mx_lock M t (lock x))"
| "heap_begin_write_step M t n (WStore b) w x = Some (at t (WRegLock b) (x\<lparr>flag := True\<rparr>))"
| "heap_begin_write_step M t n (WRegLock b) w x =
     map_option (\<lambda>l. at t (WScan 0 b) (x\<lparr>boxes_lock := l\<rparr>)) (mx_lock M t (boxes_lock x))"
| "heap_begin_write_step M t n (WScan k b) w x =
     (case conts w n of
        None \<Rightarrow> None
      | Some (i, reg) \<Rightarrow>
          if k < length reg
          then map_option (\<lambda>v. at t (if v = 0 then WScan (Suc k) b else WRetry b) x) (heap w (reg ! k))
          else Some (at t (WBreak b) x))"
| "heap_begin_write_step M t n (WRetry b) w x =
     Some (at t (WRegLock b) (x\<lparr>boxes_lock := mx_unlock M (boxes_lock x)\<rparr>))"
| "heap_begin_write_step M t n (WBreak b) w x =
     Some (at t (WBody b) (x\<lparr>boxes_lock := mx_unlock M (boxes_lock x)\<rparr>))"
| "heap_begin_write_step M t n _ w x = None"

fun heap_write_body_step :: "tid \<Rightarrow> ('c, 'r) pc \<Rightarrow>
    ('c, 'l, 'r) object \<Rightarrow> ('c, 'l, 'r) object option" where
  "heap_write_body_step t (WBody b) x = Some (at t (WCommit b (data x)) x)"
| "heap_write_body_step t (WCommit b c) x =
     (let y = note_event (EvWrite b (snd (b c))) (x\<lparr>data := fst (b c)\<rparr>) in
      Some (case snd (b c) of
          Held r \<Rightarrow> done_at t (Some (Returned r)) (y\<lparr>write_guard_of := (write_guard_of y)(t := True)\<rparr>)
        | Finished r \<Rightarrow> at t (WClear (Some (Returned r))) y
        | WritePanic \<Rightarrow> at t (WClear (Some Panicked)) y))"
| "heap_write_body_step t _ x = None"

fun heap_write_lock_drop_step :: "'l mutex_ops \<Rightarrow> tid \<Rightarrow> ('c, 'r) pc \<Rightarrow>
    ('c, 'l, 'r) object \<Rightarrow> ('c, 'l, 'r) object option" where
  "heap_write_lock_drop_step M t (WClear r) x = Some (at t (WUnlock r) (x\<lparr>flag := False\<rparr>))"
| "heap_write_lock_drop_step M t (WUnlock r) x =
     Some (done_at t r (x\<lparr>lock := mx_unlock M (lock x)\<rparr>))"
| "heap_write_lock_drop_step M t _ x = None"

fun heap_unguarded_step :: "tid \<Rightarrow> ('c, 'r) pc \<Rightarrow>
    ('c, 'l, 'r) object \<Rightarrow> ('c, 'l, 'r) object option" where
  "heap_unguarded_step t (UBody u) x = Some (at t (UFinish u (data x)) x)"
| "heap_unguarded_step t (UFinish u c) x = Some (done_at t (Some (u c)) x)"
| "heap_unguarded_step t _ x = None"

text \<open>The next action of a call: one that reads, and one that writes or has no guard.\<close>

fun heap_read_step :: "'l mutex_ops \<Rightarrow> tid \<Rightarrow> nat \<Rightarrow> addr \<Rightarrow> ('c, 'r) pc \<Rightarrow>
    world \<Rightarrow> ('c, 'l, 'r) object \<Rightarrow> (world \<times> ('c, 'l, 'r) object) option" where
  "heap_read_step M t n a (RSlot b) w x = heap_begin_read_step M t n a (RSlot b) w x"
| "heap_read_step M t n a (RPush b) w x = heap_begin_read_step M t n a (RPush b) w x"
| "heap_read_step M t n a (RAdd p b) w x = heap_begin_read_step M t n a (RAdd p b) w x"
| "heap_read_step M t n a (RLoad p b) w x = heap_begin_read_step M t n a (RLoad p b) w x"
| "heap_read_step M t n a (RUndo p b) w x = heap_begin_read_step M t n a (RUndo p b) w x"
| "heap_read_step M t n a (RBody p b) w x = heap_read_body_step t (RBody p b) w x"
| "heap_read_step M t n a (RFinish p b c) w x = heap_read_body_step t (RFinish p b c) w x"
| "heap_read_step M t n a (RSub p r) w x = heap_read_body_step t (RSub p r) w x"
| "heap_read_step M t n a _ w x = None"

fun heap_write_step :: "'l mutex_ops \<Rightarrow> tid \<Rightarrow> nat \<Rightarrow> ('c, 'r) pc \<Rightarrow>
    world \<Rightarrow> ('c, 'l, 'r) object \<Rightarrow> ('c, 'l, 'r) object option" where
  "heap_write_step M t n (WLock b) w x = heap_begin_write_step M t n (WLock b) w x"
| "heap_write_step M t n (WStore b) w x = heap_begin_write_step M t n (WStore b) w x"
| "heap_write_step M t n (WRegLock b) w x = heap_begin_write_step M t n (WRegLock b) w x"
| "heap_write_step M t n (WScan k b) w x = heap_begin_write_step M t n (WScan k b) w x"
| "heap_write_step M t n (WRetry b) w x = heap_begin_write_step M t n (WRetry b) w x"
| "heap_write_step M t n (WBreak b) w x = heap_begin_write_step M t n (WBreak b) w x"
| "heap_write_step M t n (WBody b) w x = heap_write_body_step t (WBody b) x"
| "heap_write_step M t n (WCommit b c) w x = heap_write_body_step t (WCommit b c) x"
| "heap_write_step M t n (WClear r) w x = heap_write_lock_drop_step M t (WClear r) x"
| "heap_write_step M t n (WUnlock r) w x = heap_write_lock_drop_step M t (WUnlock r) x"
| "heap_write_step M t n (UBody u) w x = heap_unguarded_step t (UBody u) x"
| "heap_write_step M t n (UFinish u c) w x = heap_unguarded_step t (UFinish u c) x"
| "heap_write_step M t n _ w x = None"

text \<open>What a thread does between calls: the guards are dropped through the pointer they have.\<close>

fun heap_client_step :: "tid \<Rightarrow> ('c, 'r) action \<Rightarrow>
    world \<Rightarrow> ('c, 'l, 'r) object \<Rightarrow> (world \<times> ('c, 'l, 'r) object) option" where
  "heap_client_step t Run w x = None"
| "heap_client_step t (Start m) w x = Some (w, at t (call_entry m) x)"
| "heap_client_step t (DropGuard p) w x =
     (if (t, p) \<in> set (live_guards x)
      then map_option (\<lambda>w. (w, x\<lparr>live_guards := remove1 (t, p) (live_guards x)\<rparr>)) (fetch (\<lambda>v. v - 1) p w)
      else None)"
| "heap_client_step t (SendGuard p u) w x =
     (if (t, p) \<in> set (live_guards x)
      then Some (w, x\<lparr>live_guards := (u, p) # remove1 (t, p) (live_guards x)\<rparr>) else None)"
| "heap_client_step t (ForgetGuard p) w x =
     (if (t, p) \<in> set (live_guards x)
      then Some (w, x\<lparr>live_guards := remove1 (t, p) (live_guards x), lost_guards := p # lost_guards x\<rparr>)
      else None)"
| "heap_client_step t (WriteThrough f) w x =
     (if write_guard_of x t then Some (w, note_event (EvModify f) (x\<lparr>data := f (data x)\<rparr>)) else None)"
| "heap_client_step t DropWriteGuard w x =
     (if write_guard_of x t
      then Some (w, at t (WClear None) (x\<lparr>write_guard_of := (write_guard_of x)(t := False)\<rparr>)) else None)"

definition local_step :: "'l mutex_ops \<Rightarrow> tid \<Rightarrow> nat \<Rightarrow> addr \<Rightarrow> ('c, 'r) action \<Rightarrow>
    world \<Rightarrow> ('c, 'l, 'r) object \<Rightarrow> (world \<times> ('c, 'l, 'r) object) option" where
  "local_step M t n a e w x =
     (case e of
        Run \<Rightarrow> (case heap_read_step M t n a (call_at x t) w x of
                  Some r \<Rightarrow> Some r
                | None \<Rightarrow> map_option (Pair w) (heap_write_step M t n (call_at x t) w x))
      | _ \<Rightarrow> if is_idle (call_at x t) then heap_client_step t e w x else None)"

section \<open>Programs\<close>

text \<open>
  A container is created with its first contents, or dropped, which the borrow checker allows
  when no call runs on it and no guard on it is alive; the same holds for the methods that take
  \<open>&mut self\<close>.  A thread runs one call at a time.  A thread that ends takes no more steps; its
  counters stay in the registries.
\<close>

definition unused :: "('c, 'l, 'r) object \<Rightarrow> bool" where
  "unused x \<longleftrightarrow> (\<forall>t. call_at x t = Idle \<and> \<not> write_guard_of x t) \<and> live_guards x = []"

definition create :: "'l mutex_ops \<Rightarrow> 'c \<Rightarrow> ('c, 'l, 'r) machine \<Rightarrow> ('c, 'l, 'r) machine" where
  "create M c m = m\<lparr>memory := create_container (memory m),
     objects := (objects m)(created (memory m) := new_object M c)\<rparr>"

definition destroy :: "nat \<Rightarrow> ('c, 'l, 'r) machine \<Rightarrow> ('c, 'l, 'r) machine" where
  "destroy n m = m\<lparr>memory := drop_container n (memory m)\<rparr>"

definition use_owned :: "nat \<Rightarrow> ('c \<Rightarrow> 'c) \<Rightarrow> ('c, 'l, 'r) machine \<Rightarrow> ('c, 'l, 'r) machine" where
  "use_owned n f m = m\<lparr>objects := (objects m)(n := (let x = objects m n in
     note_event (EvModify f) (x\<lparr>data := f (data x)\<rparr>)))\<rparr>"

definition machine_perform :: "'l mutex_ops \<Rightarrow> tid \<Rightarrow> nat \<Rightarrow> addr \<Rightarrow> ('c, 'r) action \<Rightarrow>
    ('c, 'l, 'r) machine \<Rightarrow> ('c, 'l, 'r) machine option" where
  "machine_perform M t n a e m =
     (if conts (memory m) n \<noteq> None
      then map_option (\<lambda>(w, x). m\<lparr>memory := w, objects := (objects m)(n := x)\<rparr>)
             (local_step M t n a e (memory m) (objects m n))
      else None)"

text \<open>The thread is not in a call on another live container.\<close>

definition elsewhere_idle :: "tid \<Rightarrow> nat \<Rightarrow> ('c, 'l, 'r) machine \<Rightarrow> bool" where
  "elsewhere_idle t n m \<longleftrightarrow>
     (\<forall>j. j \<noteq> n \<longrightarrow> conts (memory m) j \<noteq> None \<longrightarrow> call_at (objects m j) t = Idle)"

section \<open>The view of a container\<close>

text \<open>Program counters with the counter under another name.\<close>

fun pc_at :: "(addr \<Rightarrow> nat) \<Rightarrow> ('c, 'r) pc \<Rightarrow> ('c, 'r) pc" where
  "pc_at f (RAdd p b) = RAdd (f p) b"
| "pc_at f (RLoad p b) = RLoad (f p) b"
| "pc_at f (RUndo p b) = RUndo (f p) b"
| "pc_at f (RBody p b) = RBody (f p) b"
| "pc_at f (RFinish p b c) = RFinish (f p) b c"
| "pc_at f (RSub p r) = RSub (f p) r"
| "pc_at f q = q"

fun action_at :: "(addr \<Rightarrow> nat) \<Rightarrow> ('c, 'r) action \<Rightarrow> ('c, 'r) action" where
  "action_at f (DropGuard p) = DropGuard (f p)"
| "action_at f (SendGuard p u) = SendGuard (f p) u"
| "action_at f (ForgetGuard p) = ForgetGuard (f p)"
| "action_at f e = e"

text \<open>
  The container as theory \<open>Rw_Lock\<close> sees it: the values of the boxes, and positions in place of
  addresses.
\<close>

definition view :: "nat \<Rightarrow> world \<Rightarrow> ('c, 'l, 'r) object \<Rightarrow> ('c, 'l, 'r) sys" where
  "view n w x =
     (let (i, reg) = the (conts w n); f = position reg in
      \<lparr>dirty = data x, write_mutex = lock x, ident = i, writing = flag x, reg_lock = boxes_lock x,
       registry = map (\<lambda>p. the (heap w p)) reg, slot = (\<lambda>t. slot_position w t n),
       pc = (\<lambda>t. pc_at f (call_at x t)), guards = map (map_prod id f) (live_guards x),
       leaked = map f (lost_guards x), wguard = write_guard_of x, ret = result x, hist = past x\<rparr>)"

lemma view_simps [simp]:
  assumes "conts w n = Some (i, reg)"
  shows "dirty (view n w x) = data x" "write_mutex (view n w x) = lock x" "ident (view n w x) = i"
    "writing (view n w x) = flag x" "reg_lock (view n w x) = boxes_lock x"
    "registry (view n w x) = map (\<lambda>p. the (heap w p)) reg" "slot (view n w x) t = slot_position w t n"
    "pc (view n w x) t = pc_at (position reg) (call_at x t)"
    "guards (view n w x) = map (map_prod id (position reg)) (live_guards x)"
    "leaked (view n w x) = map (position reg) (lost_guards x)"
    "wguard (view n w x) = write_guard_of x" "ret (view n w x) = result x" "hist (view n w x) = past x"
  by (simp_all add: view_def assms Let_def)

text \<open>
  What the program keeps besides the invariants of \<open>Reader_Slots\<close>: a pointer of a call is the one
  that the table of its thread has, and the pointers of guards, alive or lost, are boxes of the
  registry.
\<close>

definition pointers_ok :: "nat \<Rightarrow> world \<Rightarrow> ('c, 'l, 'r) object \<Rightarrow> bool" where
  "pointers_ok n w x \<longleftrightarrow>
     (\<forall>i reg. conts w n = Some (i, reg) \<longrightarrow>
       (\<forall>t p. pc_count (call_at x t) = Some p \<longrightarrow> records w t i p) \<and>
       (\<forall>t b. call_at x t = RPush b \<longrightarrow> (\<forall>p. \<not> records w t i p)) \<and>
       (\<forall>g \<in> set (live_guards x). snd g \<in> set reg) \<and> (\<forall>p \<in> set (lost_guards x). p \<in> set reg))"

definition heap_ok :: "world \<Rightarrow> bool" where
  "heap_ok w \<longleftrightarrow> conts_ok w \<and> tls_ok w \<and> created w \<le> 2 ^ 64"

end
