(* ===== verification/Rw_Heap_Refines.thy ===== *)
theory Rw_Heap_Refines
  imports Rw_Heap
begin

text \<open>
  Each atomic action of a program on the heap does to the view of its container what the action
  of \<open>Rw_Lock\<close> does, and leaves the views of the other containers alone; and it keeps what the
  proof of this needs: the invariants of \<open>Reader_Slots\<close> and the validity of the pointers.
\<close>

section \<open>The pieces of the simulation\<close>

lemma other_id:
  assumes "heap_ok w" "conts w n = Some (i, reg)" "conts w m = Some (j, r)" "n \<noteq> m"
  shows "i \<noteq> j"
proof -
  have c: "conts_ok w" and bound: "created w \<le> 2 ^ 64" using assms(1) by (simp_all add: heap_ok_def)
  have "n < 2 ^ 64" "m < 2 ^ 64"
    using conts_okD(2) [OF c assms(2)] conts_okD(2) [OF c assms(3)] bound by linarith+
  then show ?thesis
    using of_nat_usize_inj [of n m] assms(4) conts_okD(3) [OF c assms(2)] conts_okD(3) [OF c assms(3)]
    by simp
qed

lemma position_eq_iff:
  "p \<in> set reg \<Longrightarrow> q \<in> set reg \<Longrightarrow> position reg p = position reg q \<longleftrightarrow> p = q"
  using position_nth by metis

lemma position_map_update:
  assumes "distinct reg" "p \<in> set reg"
  shows "map (\<lambda>q. the ((h(p \<mapsto> v)) q)) reg = (map (\<lambda>q. the (h q)) reg)[position reg p := v]"
proof (rule nth_equalityI)
  fix k assume k: "k < length (map (\<lambda>q. the ((h(p \<mapsto> v)) q)) reg)"
  have "reg ! k = p \<longleftrightarrow> k = position reg p"
    using position_nth [OF assms(2)] assms(1) k by (auto simp: nth_eq_iff_index_eq)
  then show "map (\<lambda>q. the ((h(p \<mapsto> v)) q)) reg ! k = (map (\<lambda>q. the (h q)) reg)[position reg p := v] ! k"
    using k by (auto simp: nth_list_update)
qed simp

lemma position_remove1:
  assumes "\<forall>g \<in> set gs. snd g \<in> set reg" "p \<in> set reg"
  shows "map (map_prod id (position reg)) (remove1 (t, p) gs) =
    remove1 (t, position reg p) (map (map_prod id (position reg)) gs)"
  using assms(1) by (induction gs) (auto simp: position_eq_iff [OF assms(2)] position_eq_iff [OF _ assms(2)])

lemma position_image:
  assumes "\<forall>g \<in> set gs. snd g \<in> set reg" "p \<in> set reg"
  shows "(t, position reg p) \<in> map_prod id (position reg) ` set gs \<longleftrightarrow> (t, p) \<in> set gs"
  using assms position_eq_iff [OF _ assms(2)] by force

lemma find_slot_known: "slots_ok s \<Longrightarrow> (i, p) \<in> set (all_slots s) \<Longrightarrow>
    find_slot i s = Some (p, s\<lparr>last_slot := (i, Some p)\<rparr>)"
  using reader_count_for_known [of s i p "[]" 0]
  by (auto simp: reader_count_for_parts split: option.splits)

lemma find_slot_none: "slots_ok s \<Longrightarrow> i \<notin> fst ` set (all_slots s) \<Longrightarrow> find_slot i s = None"
  using reader_count_for_new [of s i "[]" 0]
  by (auto simp: reader_count_for_parts split: option.splits)

text \<open>The view commutes with the pieces that the actions are made of.\<close>

lemma view_object [simp]:
  assumes "conts w n = Some (i, reg)"
  shows "view n w (at t q x) = goto t (pc_at (position reg) q) (view n w x)"
    "view n w (done_at t r x) = return t r (view n w x)"
    "view n w (note_event e x) = log_event e (view n w x)"
    "view n w (x\<lparr>data := c\<rparr>) = (view n w x)\<lparr>dirty := c\<rparr>"
    "view n w (x\<lparr>lock := l\<rparr>) = (view n w x)\<lparr>write_mutex := l\<rparr>"
    "view n w (x\<lparr>flag := y\<rparr>) = (view n w x)\<lparr>writing := y\<rparr>"
    "view n w (x\<lparr>boxes_lock := l\<rparr>) = (view n w x)\<lparr>reg_lock := l\<rparr>"
    "view n w (x\<lparr>live_guards := gs\<rparr>) = (view n w x)\<lparr>guards := map (map_prod id (position reg)) gs\<rparr>"
    "view n w (x\<lparr>lost_guards := ps\<rparr>) = (view n w x)\<lparr>leaked := map (position reg) ps\<rparr>"
    "view n w (x\<lparr>write_guard_of := g\<rparr>) = (view n w x)\<lparr>wguard := g\<rparr>"
  by (simp_all add: view_def assms Let_def at_def done_at_def note_event_def goto_def return_def
      log_event_def fun_eq_iff)

text \<open>A view depends on the registry, the values of its boxes and what the tables have for it only.\<close>

lemma view_frame:
  assumes "conts w n = Some (i, reg)" "conts w' n = Some (i, reg)"
    "\<And>p. p \<in> set reg \<Longrightarrow> heap w' p = heap w p" "\<And>u. all_slots (tls w' u) = all_slots (tls w u)"
  shows "view n w' x = view n w x"
  using assms by (simp add: view_def Let_def slot_position_def)

lemma object_simps [simp]:
  "origin (at t q x) = origin x" "origin (note_event e x) = origin x" "origin (done_at t r x) = origin x"
  "data (at t q x) = data x" "lock (at t q x) = lock x" "flag (at t q x) = flag x"
  "boxes_lock (at t q x) = boxes_lock x" "live_guards (at t q x) = live_guards x"
  "lost_guards (at t q x) = lost_guards x" "write_guard_of (at t q x) = write_guard_of x"
  "call_at (at t q x) = (call_at x)(t := q)"
  "data (note_event e x) = data x" "lock (note_event e x) = lock x" "flag (note_event e x) = flag x"
  "boxes_lock (note_event e x) = boxes_lock x" "live_guards (note_event e x) = live_guards x"
  "lost_guards (note_event e x) = lost_guards x" "write_guard_of (note_event e x) = write_guard_of x"
  "call_at (note_event e x) = call_at x"
  "data (done_at t r x) = data x" "lock (done_at t r x) = lock x" "flag (done_at t r x) = flag x"
  "boxes_lock (done_at t r x) = boxes_lock x" "live_guards (done_at t r x) = live_guards x"
  "lost_guards (done_at t r x) = lost_guards x" "write_guard_of (done_at t r x) = write_guard_of x"
  "call_at (done_at t r x) = (call_at x)(t := Idle)"
  by (simp_all add: at_def done_at_def note_event_def)

lemma fetch_view:
  assumes "heap_ok w" "conts w n = Some (i, reg)" "p \<in> set reg" "fetch f p w = Some w'"
  shows "view n w' x = (view n w x)\<lparr>registry := (registry (view n w x))
      [position reg p := f (registry (view n w x) ! position reg p)]\<rparr>"
    and "world_step w w'" "conts w' = conts w" "tls w' = tls w" "created w' = created w"
proof -
  obtain v where v: "heap w p = Some v" "w' = w\<lparr>heap := (heap w)(p \<mapsto> f v)\<rparr>"
    using assms(4) by (auto simp: fetch_def split: option.splits)
  have "distinct reg" using assms(1,2) by (auto simp: heap_ok_def conts_ok_def)
  then show "view n w' x = (view n w x)\<lparr>registry := (registry (view n w x))
      [position reg p := f (registry (view n w x) ! position reg p)]\<rparr>"
    using position_nth [OF assms(3)] position_map_update [OF _ assms(3), of "heap w" "f v"] v assms(2)
    by (simp add: view_def Let_def slot_position_def)
  show "world_step w w'" using step_count [of w p "f v"] v by simp
qed (use assms(4) in \<open>auto simp: fetch_def split: option.splits\<close>)

lemma fetch_other:
  assumes "heap_ok w" "conts w n = Some (i, reg)" "p \<in> set reg" "fetch f p w = Some w'"
    and "m \<noteq> n" "conts w m = Some (j, r)"
  shows "view m w' x = view m w x"
proof -
  have "set r \<inter> set reg = {}" using conts_okD(5) [OF _ assms(6,2,5)] assms(1) by (simp add: heap_ok_def)
  then have "p \<notin> set r" using assms(3) by blast
  then show ?thesis using assms(4)
    by (intro view_frame [OF assms(6)]) (auto simp: fetch_def assms(6) split: option.splits)
qed

lemma slot_position_known:
  assumes "heap_ok w" "conts w n = Some (i, reg)" "records w t i p"
  shows "slot_position w t n = Some (position reg p)" "p \<in> set reg" "heap w p \<noteq> None"
proof -
  have ok: "conts_ok w" "tls_ok w" using assms(1) by (simp_all add: heap_ok_def)
  show "slot_position w t n = Some (position reg p)"
    using assms(2,3) map_of_records [OF tls_okD(1) [OF ok(2)], of t i p] by (simp add: slot_position_def)
  show "p \<in> set reg" using tls_okD(3) [OF ok(2) assms(2,3)] .
  then show "heap w p \<noteq> None" using conts_okD(4) [OF ok(1) assms(2)] by blast
qed

lemma slot_position_none:
  assumes "heap_ok w" "conts w n = Some (i, reg)" "\<And>p. \<not> records w t i p"
  shows "slot_position w t n = None"
  using assms(2,3) map_of_records [of w t i] tls_okD(1) [of w] assms(1)
  by (cases "map_of (all_slots (tls w t)) i") (auto simp: slot_position_def heap_ok_def)

lemma lookup_view:
  assumes "heap_ok w" "conts w n = Some (i, reg)" "find_slot i (tls w t) = Some (p, s)" "heap w a = None"
  defines "w' \<equiv> w\<lparr>tls := (tls w)(t := s)\<rparr>"
  shows "records w t i p" "view m w' x = view m w x" "records w' = records w" "world_step w w'"
proof -
  have ok: "tls_ok w" and table: "slots_ok (tls w t)"
    using assms(1) tls_okD(1) by (simp_all add: heap_ok_def)
  have "i \<in> fst ` set (all_slots (tls w t))"
    using find_slot_none [OF table, of i] assms(3) by force
  then obtain q where q: "(i, q) \<in> set (all_slots (tls w t))" by auto
  have found: "q = p" "s = (tls w t)\<lparr>last_slot := (i, Some p)\<rparr>"
    using find_slot_known [OF table q] assms(3) by auto
  then show rec: "records w t i p" using q by (simp add: records_def)
  have "slot_position w' u m = slot_position w u m" for u
    by (auto simp: w'_def found(2) slot_position_def split: option.splits)
  then show "view m w' x = view m w x" by (simp add: view_def w'_def)
  show "records w' = records w"
    by (auto simp: w'_def found(2) records_def fun_eq_iff)
  have "slot_lookup t n a w = Some (p, w')"
    using slot_lookup_known [OF ok assms(2) rec] by (simp add: w'_def found(2))
  then show "world_step w w'" by (rule step_lookup [OF assms(4)])
qed

lemma push_view:
  assumes ok: "heap_ok w" and n: "conts w n = Some (i, reg)" and none: "\<And>p. \<not> records w t i p"
    and a: "heap w a = None" and "pointers_ok n w x"
  defines "w' \<equiv> w\<lparr>conts := (conts w)(n \<mapsto> (i, reg @ [a])), heap := (heap w)(a \<mapsto> 0),
    tls := (tls w)(t := add_slot i a (tls w t))\<rparr>"
  shows "view n w' x = (view n w x)\<lparr>registry := registry (view n w x) @ [0],
      slot := (slot (view n w x))(t \<mapsto> length reg)\<rparr>"
    and "records w' u k q \<longleftrightarrow> records w u k q \<or> u = t \<and> k = i \<and> q = a"
    and "world_step w w'" and "a \<notin> set reg"
proof -
  have c: "conts_ok w" "tls_ok w" using ok by (simp_all add: heap_ok_def)
  have "a \<notin> set reg" using conts_okD(4) [OF c(1) n, of a] a by blast
  then show fresh: "a \<notin> set reg" .
  have keep: "position (reg @ [a]) p = position reg p" if "p \<in> set reg" for p
    using position_append [OF that] .
  have rec_in: "p \<in> set reg" if "records w u i p" for u p using tls_okD(3) [OF c(2) n that] .
  have pcs: "pc_at (position (reg @ [a])) (call_at x u) = pc_at (position reg) (call_at x u)" for u
  proof (cases "pc_count (call_at x u)")
    case None
    then show ?thesis by (cases "call_at x u") simp_all
  next
    case (Some p)
    then have "p \<in> set reg" using assms(5) n rec_in by (auto simp: pointers_ok_def)
    then show ?thesis using keep Some by (cases "call_at x u") simp_all
  qed
  have gs: "map (map_prod id (position (reg @ [a]))) (live_guards x) =
      map (map_prod id (position reg)) (live_guards x)"
    "map (position (reg @ [a])) (lost_guards x) = map (position reg) (lost_guards x)"
    using assms(5) n keep by (auto simp: pointers_ok_def)
  have vals: "map (\<lambda>p. the (((heap w)(a \<mapsto> 0)) p)) reg = map (\<lambda>p. the (heap w p)) reg"
    using fresh by auto
  have none': "map_of (all_slots (tls w t)) i = None"
    using map_of_records [OF tls_okD(1) [OF c(2)], of t i] none
    by (cases "map_of (all_slots (tls w t)) i") auto
  have slots: "slot_position w' u n = (if u = t then Some (length reg) else slot_position w u n)" for u
  proof (cases "u = t")
    case True
    then show ?thesis using n none' fresh
      by (simp add: slot_position_def w'_def add_slot_def map_add_def position_new)
  next
    case False
    then have "slot_position w' u n =
        map_option (position (reg @ [a])) (map_of (all_slots (tls w u)) i)"
      by (simp add: slot_position_def w'_def)
    also have "\<dots> = map_option (position reg) (map_of (all_slots (tls w u)) i)"
      using map_of_records [OF tls_okD(1) [OF c(2)], of u i] rec_in keep
      by (cases "map_of (all_slots (tls w u)) i") auto
    finally show ?thesis using n False by (simp add: slot_position_def)
  qed
  show "view n w' x = (view n w x)\<lparr>registry := registry (view n w x) @ [0],
      slot := (slot (view n w x))(t \<mapsto> length reg)\<rparr>"
    using n pcs gs vals slots by (simp add: view_def Let_def w'_def fun_eq_iff)
  show "records w' u k q \<longleftrightarrow> records w u k q \<or> u = t \<and> k = i \<and> q = a"
    by (auto simp: records_def w'_def add_slot_def)
  have "slot_lookup t n a w = Some (a, w')"
    using slot_lookup_new [OF c(2) n none] by (simp add: w'_def add_slot_def)
  then show "world_step w w'" by (rule step_lookup [OF a])
qed

section \<open>Each action does what \<open>Rw_Lock\<close> says\<close>

lemma is_idle_pc_at [simp]: "is_idle (pc_at f q) = is_idle q" "pc_at f q = Idle \<longleftrightarrow> q = Idle"
  by (cases q; simp)+

lemma pc_at_entry [simp]: "pc_at f (call_entry m) = call_entry m"
  by (cases m) simp_all

lemma log_event_fields [simp]: "wguard (log_event e s) = wguard s" "guards (log_event e s) = guards s"
  "leaked (log_event e s) = leaked s"
  by (simp_all add: log_event_def)

lemma count_of_call:
  assumes "heap_ok w" "conts w n = Some (i, reg)" "pointers_ok n w x" "pc_count (call_at x t) = Some p"
  shows "records w t i p" "p \<in> set reg" "heap w p \<noteq> None" "slot_position w t n = Some (position reg p)"
proof -
  show rec: "records w t i p" using assms(2-4) by (auto simp: pointers_ok_def)
  show "p \<in> set reg" "heap w p \<noteq> None" "slot_position w t n = Some (position reg p)"
    using slot_position_known [OF assms(1,2) rec] by blast+
qed

lemma read_simulated:
  assumes ok: "heap_ok w" and n: "conts w n = Some (i, reg)" and pt: "pointers_ok n w x"
    and a: "heap w a = None" and step: "heap_read_step M t n a (call_at x t) w x = Some (w', x')"
  shows "advance_at M t (pc (view n w x) t) (view n w x) = Some (view n w' x')"
proof -
  note count = count_of_call [OF ok n pt, of t]
  show ?thesis
  proof (cases "call_at x t")
    case (RSlot b)
    show ?thesis
    proof (cases "find_slot i (tls w t)")
      case None
      have "\<not> records w t i p" for p
        using None find_slot_known [of "tls w t" i p] ok tls_okD(1) by (auto simp: records_def heap_ok_def)
      then have "slot_position w t n = None" by (rule slot_position_none [OF ok n])
      then show ?thesis using step RSlot None n
        by (auto simp: slot_step_def split: option.splits)
    next
      case (Some ps)
      obtain p s where ps: "ps = (p, s)" by (cases ps)
      note l = lookup_view [OF ok n Some [unfolded ps] a]
      show ?thesis using step RSlot Some ps n slot_position_known(1) [OF ok n l(1)]
        by (auto simp: slot_step_def l(2))
    qed
  next
    case (RPush b)
    have none: "\<not> records w t i p" for p using pt n RPush by (auto simp: pointers_ok_def)
    note l = push_view [OF ok n none a pt]
    have [simp]: "position (reg @ [a]) a = length reg" using l(4) by (rule position_new)
    show ?thesis using step RPush n l(1) by (auto simp: push_step_def Let_def goto_def)
  next
    case (RAdd p b)
    then have p: "p \<in> set reg" and f: "fetch (\<lambda>v. v + 1) p w = Some w'" using step count(2) by auto
    show ?thesis using RAdd step n fetch_view(3) [OF ok n p f]
      by (auto simp: count_add_def goto_def return_def fetch_view(1) [OF ok n p f])
  next
    case (RUndo p b)
    then have p: "p \<in> set reg" and f: "fetch (\<lambda>v. v - 1) p w = Some w'" using step count(2) by auto
    show ?thesis using RUndo step n fetch_view(3) [OF ok n p f]
      by (auto simp: count_sub_def goto_def return_def fetch_view(1) [OF ok n p f])
  next
    case (RSub p b)
    then have p: "p \<in> set reg" and f: "fetch (\<lambda>v. v - 1) p w = Some w'" using step count(2) by auto
    show ?thesis using RSub step n fetch_view(3) [OF ok n p f]
      by (auto simp: count_sub_def goto_def return_def fetch_view(1) [OF ok n p f])
  qed (use step n in \<open>auto simp: Let_def split: read_out.splits\<close>)
qed

lemma write_simulated:
  assumes ok: "heap_ok w" and n: "conts w n = Some (i, reg)"
    and step: "heap_write_step M t n (call_at x t) w x = Some x'"
  shows "advance_at M t (pc (view n w x) t) (view n w x) = Some (view n w x')"
proof (cases "call_at x t")
  case (WScan k b)
  then show ?thesis using step n
    by (cases "k < length reg"; cases "heap w (reg ! k)"; cases "heap w (reg ! k) = Some 0") auto
qed (use step n in \<open>auto simp: Let_def split: option.splits write_out.splits\<close>)

lemma client_simulated:
  assumes ok: "heap_ok w" and n: "conts w n = Some (i, reg)" and pt: "pointers_ok n w x"
    and step: "heap_client_step t e w x = Some (w', x')"
  shows "client_step t (action_at (position reg) e) (view n w x) = Some (view n w' x')"
proof -
  have gs: "\<forall>g \<in> set (live_guards x). snd g \<in> set reg" using pt n by (simp add: pointers_ok_def)
  note moved = position_remove1 [OF gs] position_image [OF gs]
  have in_reg: "p \<in> set reg" if "(t, p) \<in> set (live_guards x)" for p using gs that by force
  show ?thesis
  proof (cases e)
    case (DropGuard p)
    then have g: "(t, p) \<in> set (live_guards x)" and f: "fetch (\<lambda>v. v - 1) p w = Some w'"
      using step by (auto split: if_splits)
    note p = in_reg [OF g]
    show ?thesis using step DropGuard n g fetch_view(3) [OF ok n p f]
      by (auto simp: drop_guard_def count_sub_def fetch_view(1) [OF ok n p f] moved p)
  next
    case (SendGuard p u)
    then have g: "(t, p) \<in> set (live_guards x)" using step by (auto split: if_splits)
    then show ?thesis using step SendGuard n
      by (auto simp: send_guard_def moved in_reg)
  next
    case (ForgetGuard p)
    then have g: "(t, p) \<in> set (live_guards x)" using step by (auto split: if_splits)
    then show ?thesis using step ForgetGuard n
      by (auto simp: forget_guard_def moved in_reg)
  qed (use step n in \<open>auto simp: write_through_def drop_write_guard_def split: if_splits\<close>)
qed

lemma local_simulated:
  assumes "heap_ok w" "conts w n = Some (i, reg)" "pointers_ok n w x" "heap w a = None"
    and step: "local_step M t n a e w x = Some (w', x')"
  shows "perform M t (action_at (position reg) e) (view n w x) = Some (view n w' x')"
proof (cases "e = Run")
  case True
  show ?thesis
  proof (cases "heap_read_step M t n a (call_at x t) w x")
    case None
    then show ?thesis using step True write_simulated [OF assms(1,2)]
      by (auto simp: local_step_def perform_Run)
  next
    case (Some r)
    then show ?thesis using step True read_simulated [OF assms(1-4)]
      by (auto simp: local_step_def perform_Run)
  qed
next
  case False
  then have "is_idle (call_at x t)" "heap_client_step t e w x = Some (w', x')"
    using step by (cases e; auto simp: local_step_def split: if_splits)+
  moreover have "action_at f e \<noteq> Run" for f using False by (cases e) simp_all
  ultimately show ?thesis
    using client_simulated [OF assms(1-3)] assms(2) by (subst perform_client) simp_all
qed

section \<open>What the program keeps\<close>

text \<open>The changes of the world that a step can make.\<close>

lemma local_step_cases [consumes 4, case_names same count look push]:
  assumes "heap_ok w" "conts w n = Some (i, reg)" "pointers_ok n w x"
    and "local_step M t n a e w x = Some (w', x')"
  obtains (same) "w' = w"
  | (count) p f where "p \<in> set reg" "fetch f p w = Some w'"
  | (look) b p s where "e = Run" "call_at x t = RSlot b" "find_slot i (tls w t) = Some (p, s)"
      "w' = w\<lparr>tls := (tls w)(t := s)\<rparr>" "x' = at t (RAdd p b) x"
  | (push) b where "e = Run" "call_at x t = RPush b"
      "w' = w\<lparr>conts := (conts w)(n \<mapsto> (i, reg @ [a])), heap := (heap w)(a \<mapsto> 0),
         tls := (tls w)(t := add_slot i a (tls w t))\<rparr>"
      "x' = at t (RAdd a b) (x\<lparr>boxes_lock := mx_unlock M (boxes_lock x)\<rparr>)"
proof (cases "e = Run")
  case run: True
  note in_reg = count_of_call(2) [OF assms(1-3), of t]
  show thesis
  proof (cases "heap_read_step M t n a (call_at x t) w x")
    case None
    then show ?thesis using assms(4) run same by (auto simp: local_step_def)
  next
    case (Some r)
    then have step: "heap_read_step M t n a (call_at x t) w x = Some (w', x')"
      using assms(4) run by (simp add: local_step_def)
    show ?thesis
    proof (cases "call_at x t")
      case (RSlot b)
      then show ?thesis using step assms(2) run same look by (auto split: option.splits)
    next
      case (RPush b)
      then show ?thesis using step assms(2) run push by auto
    qed (use step count in_reg same in \<open>auto simp: Let_def\<close>)
  qed
next
  case False
  then have step: "heap_client_step t e w x = Some (w', x')"
    using assms(4) by (cases e; auto simp: local_step_def split: if_splits)
  have in_reg: "p \<in> set reg" if "(t, p) \<in> set (live_guards x)" for p
    using assms(2,3) that by (force simp: pointers_ok_def)
  show thesis
    using step count in_reg same by (cases e) (auto split: if_splits)
qed

definition framed :: "nat \<Rightarrow> tid \<Rightarrow> usize \<Rightarrow> addr list \<Rightarrow> world \<Rightarrow> world \<Rightarrow> bool" where
  "framed n t i reg w w' \<longleftrightarrow> (w' = w \<or> world_step w w') \<and> created w' = created w \<and>
     (\<exists>reg'. conts w' = (conts w)(n \<mapsto> (i, reg @ reg'))) \<and>
     (\<forall>u k q. records w u k q \<longrightarrow> records w' u k q) \<and>
     (\<forall>u k q. records w' u k q \<longrightarrow> u \<noteq> t \<or> k \<noteq> i \<longrightarrow> records w u k q)"

lemma framed_update:
  assumes "conts w n = Some (i, reg)" "world_step w w'" "conts w' = conts w" "records w' = records w"
    "created w' = created w"
  shows "framed n t i reg w w'"
  unfolding framed_def using assms by (auto intro!: exI [of _ "[]"])

lemma local_step_world:
  assumes ok: "heap_ok w" and n: "conts w n = Some (i, reg)" and pt: "pointers_ok n w x"
    and a: "heap w a = None" and step: "local_step M t n a e w x = Some (w', x')"
  shows "framed n t i reg w w'"
  using ok n pt step
proof (cases rule: local_step_cases)
  case same
  then show ?thesis unfolding framed_def using n by (auto intro!: exI [of _ "[]"])
next
  case (count p f)
  note f = fetch_view(2-) [OF ok n count]
  have "records w' = records w" using f(3) by (simp add: records_def fun_eq_iff)
  then show ?thesis using f by (intro framed_update [OF n])
next
  case (look b p s)
  note l = lookup_view(3,4) [OF ok n look(3) a]
  show ?thesis by (rule framed_update [OF n]) (simp_all only: look(4) l, simp_all)
next
  case (push b)
  have none: "\<not> records w t i p" for p using pt n push(2) by (auto simp: pointers_ok_def)
  note l = push_view(2,3) [OF ok n none a pt]
  show ?thesis unfolding framed_def push(3) l(1) using l(2) by auto
qed

lemma local_step_others:
  assumes ok: "heap_ok w" and n: "conts w n = Some (i, reg)" and pt: "pointers_ok n w x"
    and a: "heap w a = None" and step: "local_step M t n a e w x = Some (w', x')"
    and m: "m \<noteq> n" "conts w m = Some (j, r)"
  shows "view m w' y = view m w y"
  using ok n pt step
proof (cases rule: local_step_cases)
  case (count p f)
  then show ?thesis using fetch_other [OF ok n _ _ m] by blast
next
  case (look b p s)
  then show ?thesis using lookup_view(2) [OF ok n look(3) a] by simp
next
  case (push b)
  have c: "conts_ok w" using ok by (simp add: heap_ok_def)
  have "j \<noteq> i" using other_id [OF ok m(2) n m(1)] .
  then have "slot_position w' u m = slot_position w u m" for u
    using m by (simp add: slot_position_def push(3) add_slot_def map_add_def split: option.splits)
  moreover have "a \<notin> set r" using conts_okD(4) [OF c m(2)] a by blast
  then have "map (\<lambda>p. the (((heap w)(a \<mapsto> 0)) p)) r = map (\<lambda>p. the (heap w p)) r" by auto
  ultimately show ?thesis using m by (simp add: view_def Let_def) (simp add: push(3))
qed simp

lemma framed_ok:
  assumes "heap_ok w" "framed n t i reg w w'"
  shows "heap_ok w'"
proof -
  have "w' = w \<or> world_step w w'" "created w' = created w" using assms(2) by (auto simp: framed_def)
  then show ?thesis using assms(1) world_ok_step [of w w'] by (auto simp: heap_ok_def)
qed

lemma read_origin: "heap_read_step M t n a q w x = Some (w', x') \<Longrightarrow> origin x' = origin x"
  by (cases q) (auto simp: Let_def split: option.splits read_out.splits)

lemma write_origin: "heap_write_step M t n q w x = Some x' \<Longrightarrow> origin x' = origin x"
  by (cases q) (auto simp: Let_def split: option.splits write_out.splits if_splits)

lemma client_origin: "heap_client_step t e w x = Some (w', x') \<Longrightarrow> origin x' = origin x"
  by (cases e) (auto split: if_splits)

lemma local_step_origin:
  assumes "local_step M t n a e w x = Some (w', x')"
  shows "origin x' = origin x"
proof (cases "e = Run")
  case True
  then show ?thesis using assms
    by (auto simp: local_step_def dest: read_origin write_origin split: option.splits)
next
  case False
  then have "heap_client_step t e w x = Some (w', x')"
    using assms by (cases e; auto simp: local_step_def split: if_splits)
  then show ?thesis by (rule client_origin)
qed

text \<open>Where the pointers of the calls and guards come from.\<close>

lemma heap_read_pointers:
  assumes "heap_read_step M t n a q w x = Some (w', x')" "call_at x t = q"
  shows "u \<noteq> t \<Longrightarrow> call_at x' u = call_at x u"
    and "pc_count (call_at x' t) = Some p \<Longrightarrow> pc_count q = Some p \<or>
      (\<exists>b s i reg. q = RSlot b \<and> conts w n = Some (i, reg) \<and> find_slot i (tls w t) = Some (p, s)) \<or>
      (\<exists>b. q = RPush b \<and> p = a)"
    and "call_at x' t = RPush b \<Longrightarrow> q = RSlot b \<and> w' = w \<and>
      (\<exists>i reg. conts w n = Some (i, reg) \<and> find_slot i (tls w t) = None)"
    and "g \<in> set (live_guards x') \<Longrightarrow> g \<in> set (live_guards x) \<or> pc_count q = Some (snd g)"
    and "p \<in> set (lost_guards x') \<Longrightarrow> p \<in> set (lost_guards x) \<or> pc_count q = Some p"
  using assms by (cases q; auto simp: Let_def split: option.splits read_out.splits if_splits)+

lemma heap_write_pointers:
  assumes "heap_write_step M t n q w x = Some x'" "call_at x t = q"
  shows "u \<noteq> t \<Longrightarrow> call_at x' u = call_at x u" "pc_count (call_at x' t) = None"
    "call_at x' t \<noteq> RPush b" "live_guards x' = live_guards x" "lost_guards x' = lost_guards x"
  using assms by (cases q; auto simp: Let_def split: option.splits write_out.splits if_splits)+

lemma heap_client_pointers:
  assumes "heap_client_step t e w x = Some (w', x')" "call_at x t = Idle"
  shows "u \<noteq> t \<Longrightarrow> call_at x' u = call_at x u" "pc_count (call_at x' t) = None"
    "call_at x' t \<noteq> RPush b"
    "g \<in> set (live_guards x') \<Longrightarrow> snd g \<in> snd ` set (live_guards x)"
    "p \<in> set (lost_guards x') \<Longrightarrow> p \<in> set (lost_guards x) \<or> p \<in> snd ` set (live_guards x)"
  using assms
  by (cases e; force simp: note_event_def split: if_splits dest: subsetD [OF set_remove1_subset])+

lemma pointers_okD:
  assumes "pointers_ok n w x" "conts w n = Some (i, reg)"
  shows "pc_count (call_at x t) = Some p \<Longrightarrow> records w t i p"
    and "call_at x t = RPush b \<Longrightarrow> \<not> records w t i p"
    and "g \<in> set (live_guards x) \<Longrightarrow> snd g \<in> set reg" and "p \<in> set (lost_guards x) \<Longrightarrow> p \<in> set reg"
  using assms by (auto simp: pointers_ok_def)

lemma pointers_okI:
  assumes "conts w n = Some (i, reg)" "\<And>t p. pc_count (call_at x t) = Some p \<Longrightarrow> records w t i p"
    "\<And>t b p. call_at x t = RPush b \<Longrightarrow> \<not> records w t i p"
    "\<And>g. g \<in> set (live_guards x) \<Longrightarrow> snd g \<in> set reg" "\<And>p. p \<in> set (lost_guards x) \<Longrightarrow> p \<in> set reg"
  shows "pointers_ok n w x"
  using assms by (auto simp: pointers_ok_def)

lemma framed_cont:
  assumes "framed n t i reg w w'"
  obtains reg' where "conts w' n = Some (i, reg @ reg')"
proof -
  obtain reg' where "conts w' = (conts w)(n \<mapsto> (i, reg @ reg'))"
    using assms unfolding framed_def by blast
  then have "conts w' n = Some (i, reg @ reg')" by simp
  then show thesis by (rule that)
qed

lemma framedD:
  assumes "framed n t i reg w w'"
  shows "records w u k q \<Longrightarrow> records w' u k q" "records w' u k q \<Longrightarrow> u \<noteq> t \<or> k \<noteq> i \<Longrightarrow> records w u k q"
    "m \<noteq> n \<Longrightarrow> conts w' m = conts w m"
  using assms unfolding framed_def by (blast, blast, metis fun_upd_other)

lemma client_pointers_step:
  assumes fr: "framed n t i reg w w'" and n: "conts w n = Some (i, reg)" and pt: "pointers_ok n w x"
    and same: "\<And>u. u \<noteq> t \<Longrightarrow> call_at x' u = call_at x u"
    and pc: "\<And>p. pc_count (call_at x' t) = Some p \<Longrightarrow> records w' t i p"
    and push: "\<And>b p. call_at x' t = RPush b \<Longrightarrow> \<not> records w' t i p"
    and gs: "\<And>g. g \<in> set (live_guards x') \<Longrightarrow> snd g \<in> set reg"
    and ls: "\<And>p. p \<in> set (lost_guards x') \<Longrightarrow> p \<in> set reg"
  shows "pointers_ok n w' x'"
proof -
  obtain reg' where c: "conts w' n = Some (i, reg @ reg')" by (rule framed_cont [OF fr])
  show ?thesis
  proof (rule pointers_okI [OF c])
    show "records w' u i p" if "pc_count (call_at x' u) = Some p" for u p
      using that same pc framedD(1) [OF fr] pointers_okD(1) [OF pt n] by (cases "u = t") simp_all
    show "\<not> records w' u i p" if "call_at x' u = RPush b" for u b p
      using that same push framedD(2) [OF fr, of u i p] pointers_okD(2) [OF pt n] by (cases "u = t") auto
  qed (use gs ls in auto)
qed

lemma local_step_pointers:
  assumes ok: "heap_ok w" and n: "conts w n = Some (i, reg)" and pt: "pointers_ok n w x"
    and a: "heap w a = None" and step: "local_step M t n a e w x = Some (w', x')"
  shows "pointers_ok n w' x'"
proof -
  note fr = local_step_world [OF ok n pt a step] and d = pointers_okD [OF pt n]
  note count = count_of_call [OF ok n pt, of t]
  show ?thesis
  proof (cases "e = Run")
    case run: True
    show ?thesis
    proof (cases "heap_read_step M t n a (call_at x t) w x")
      case None
      then have "heap_write_step M t n (call_at x t) w x = Some x'"
        using step run by (auto simp: local_step_def)
      note p = heap_write_pointers [OF this refl]
      show ?thesis by (rule client_pointers_step [OF fr n pt]) (use p d(3,4) in auto)
    next
      case (Some r)
      then have read: "heap_read_step M t n a (call_at x t) w x = Some (w', x')"
        using step run by (simp add: local_step_def)
      note p = heap_read_pointers [OF read refl]
      show ?thesis
      proof (rule client_pointers_step [OF fr n pt p(1)])
        show "records w' t i q" if q: "pc_count (call_at x' t) = Some q" for q
          using p(2) [OF q]
        proof (elim disjE exE conjE)
          assume "pc_count (call_at x t) = Some q"
          then show ?thesis using d(1) framedD(1) [OF fr] by blast
        next
          fix b s j r assume *: "conts w n = Some (j, r)" "find_slot j (tls w t) = Some (q, s)"
          then show ?thesis using lookup_view(1) [OF ok n _ a] n framedD(1) [OF fr] by auto
        next
          fix b assume *: "call_at x t = RPush b" "q = a"
          then show ?thesis using read n by (auto simp: records_def add_slot_def)
        qed
        show "\<not> records w' t i q" if "call_at x' t = RPush b" for b q
          using p(3) [OF that] n find_slot_known [of "tls w t" i q] tls_okD(1) [of w t] ok
          by (auto simp: records_def heap_ok_def)
        show "snd g \<in> set reg" if "g \<in> set (live_guards x')" for g
          using p(4) [OF that] d(3) count(2) by blast
        show "q \<in> set reg" if "q \<in> set (lost_guards x')" for q
          using p(5) [OF that] d(4) count(2) by blast
      qed
    qed
  next
    case False
    then have c: "heap_client_step t e w x = Some (w', x')" "call_at x t = Idle"
      using step by (cases e; auto simp: local_step_def split: if_splits)+
    note p = heap_client_pointers [OF c]
    have live: "q \<in> set reg" if "q \<in> snd ` set (live_guards x)" for q using that d(3) by auto
    show ?thesis
      by (rule client_pointers_step [OF fr n pt p(1)]) (use p(2-) live d(4) in fastforce)+
  qed
qed

end
