(* ===== verification/Rw_Heap_Reach.thy ===== *)
theory Rw_Heap_Reach
  imports Rw_Heap_Refines
begin

text \<open>
  The states that a program on the heap can reach, and what the refinement gives for them: the
  views are states that \<open>Rw_Lock\<close> reaches, no pointer to a counter dangles, and exclusion and
  linearizability hold for containers whose counters are found through pointers.
\<close>

section \<open>Reachable states\<close>

text \<open>
  The states of a program that starts without containers, as long as it creates no more than
  \<open>2 ^ 64\<close> of them.  \<open>a\<close> is an address that is not in use, and every state has room in the
  counters.
\<close>

definition view_of :: "nat \<Rightarrow> ('c, 'l, 'r) machine \<Rightarrow> ('c, 'l, 'r) sys" where
  "view_of n m = view n (memory m) (objects m n)"

definition place :: "nat \<Rightarrow> ('c, 'l, 'r) machine \<Rightarrow> addr \<Rightarrow> nat" where
  "place n m = position (snd (the (conts (memory m) n)))"

definition alive :: "nat \<Rightarrow> ('c, 'l, 'r) machine \<Rightarrow> bool" where
  "alive n m \<longleftrightarrow> conts (memory m) n \<noteq> None"

inductive machine_reach :: "'l mutex_ops \<Rightarrow> ('c, 'l, 'r) machine \<Rightarrow> bool" for M :: "'l mutex_ops" where
  machine_start: "memory m = new_world \<Longrightarrow> machine_reach M m"
| machine_create: "machine_reach M m \<Longrightarrow> created (memory m) < 2 ^ 64 \<Longrightarrow> machine_reach M (create M c m)"
| machine_destroy: "machine_reach M m \<Longrightarrow> alive n m \<Longrightarrow> unused (objects m n) \<Longrightarrow>
    machine_reach M (destroy n m)"
| machine_owned: "machine_reach M m \<Longrightarrow> alive n m \<Longrightarrow> unused (objects m n) \<Longrightarrow>
    machine_reach M (use_owned n f m)"
| machine_act: "machine_reach M m \<Longrightarrow> heap (memory m) a = None \<Longrightarrow> elsewhere_idle t n m \<Longrightarrow>
    machine_perform M t n a e m = Some m' \<Longrightarrow> has_room (view_of n m') \<Longrightarrow> machine_reach M m'"

definition machine_ok :: "'l mutex_ops \<Rightarrow> ('c, 'l, 'r) machine \<Rightarrow> bool" where
  "machine_ok M m \<longleftrightarrow> heap_ok (memory m) \<and>
     (\<forall>n. alive n m \<longrightarrow> pointers_ok n (memory m) (objects m n) \<and> reach M (origin (objects m n)) (view_of n m))"

lemma machine_performD:
  assumes "machine_perform M t n a e m = Some m'"
  obtains i reg w' x' where "conts (memory m) n = Some (i, reg)"
    "local_step M t n a e (memory m) (objects m n) = Some (w', x')"
    "m' = m\<lparr>memory := w', objects := (objects m)(n := x')\<rparr>"
  using assms by (auto simp: machine_perform_def split: if_splits)

text \<open>An action of a thread on a container, seen from this container and from the others.\<close>

lemma action_implements:
  assumes ok: "machine_ok M m" and a: "heap (memory m) a = None"
    and step: "machine_perform M t n a e m = Some m'"
  shows "perform M t (action_at (place n m) e) (view_of n m) = Some (view_of n m')"
    and "alive j m' = alive j m" and "j \<noteq> n \<Longrightarrow> alive j m \<Longrightarrow> view_of j m' = view_of j m"
    and "heap_ok (memory m')" and "alive j m \<Longrightarrow> pointers_ok j (memory m') (objects m' j)"
proof -
  obtain i reg w' x' where s: "conts (memory m) n = Some (i, reg)"
    "local_step M t n a e (memory m) (objects m n) = Some (w', x')"
    "m' = m\<lparr>memory := w', objects := (objects m)(n := x')\<rparr>" using machine_performD [OF step] .
  have h: "heap_ok (memory m)" and pt: "\<And>n. alive n m \<Longrightarrow> pointers_ok n (memory m) (objects m n)"
    using ok by (auto simp: machine_ok_def)
  have n: "alive n m" using s(1) by (simp add: alive_def)
  note p = h s(1) pt [OF n] a s(2) and fr = local_step_world [OF h s(1) pt [OF n] a s(2)]
  show "perform M t (action_at (place n m) e) (view_of n m) = Some (view_of n m')"
    using local_simulated [OF p] s(1) by (simp add: view_of_def s(3) place_def)
  show "heap_ok (memory m')" using framed_ok [OF h fr] by (simp add: s(3))
  obtain reg' where c: "conts w' n = Some (i, reg @ reg')" by (rule framed_cont [OF fr])
  show "alive j m' = alive j m"
    using framedD(3) [OF fr, of j] c s(1) by (cases "j = n") (simp_all add: alive_def s(3))
  show "view_of j m' = view_of j m" if j: "j \<noteq> n" "alive j m"
  proof -
    obtain k r where "conts (memory m) j = Some (k, r)" using j(2) by (auto simp: alive_def)
    from local_step_others [OF p j(1) this] show ?thesis using j(1) by (simp add: view_of_def s(3))
  qed
  show "pointers_ok j (memory m') (objects m' j)" if j: "alive j m"
  proof (cases "j = n")
    case True
    then show ?thesis using local_step_pointers [OF p] by (simp add: s(3))
  next
    case False
    obtain k r where r: "conts (memory m) j = Some (k, r)" using j by (auto simp: alive_def)
    have "k \<noteq> i" using other_id [OF h r s(1) False] .
    then have "records w' u k q = records (memory m) u k q" for u q using framedD(1,2) [OF fr] by blast
    then show ?thesis using pt [OF j] False framedD(3) [OF fr False] r
      by (simp add: pointers_ok_def s(3))
  qed
qed

lemma no_records_of_next: "heap_ok w \<Longrightarrow> created w < 2 ^ 64 \<Longrightarrow> \<not> records w t (next_id w) p"
  using tls_okD(2) [of w t "next_id w" p] conts_okD(1) [of w] of_nat_usize_inj [of "created w"]
  unfolding heap_ok_def by (metis less_irrefl less_trans)

lemma view_new:
  assumes "heap_ok w" "created w < 2 ^ 64"
  shows "view (created w) (create_container w) (new_object M c) = sys_with M (next_id w) c"
proof -
  have "slots_ok (tls w t)" for t using assms(1) tls_okD(1) by (simp add: heap_ok_def)
  then have "map_of (all_slots (tls w t)) (next_id w) = None" for t
    using map_of_records [of w t "next_id w"] no_records_of_next [OF assms, of t]
    by (cases "map_of (all_slots (tls w t)) (next_id w)") auto
  then show ?thesis
    by (simp add: view_def create_container_def new_object_def sys_with_def container_with_def
        slot_position_def container.defs)
qed

lemma machine_ok_create:
  assumes ok: "machine_ok M m" and bound: "created (memory m) < 2 ^ 64"
  shows "machine_ok M (create M c m)"
proof -
  let ?w = "memory m" and ?n = "created (memory m)"
  have h: "heap_ok ?w" using ok by (simp add: machine_ok_def)
  have "heap_ok (create_container ?w)"
    using h bound world_ok_create [of ?w] by (simp add: heap_ok_def) (simp add: create_container_def)
  moreover have "pointers_ok j (create_container ?w) (objects (create M c m) j) \<and>
      reach M (origin (objects (create M c m) j)) (view_of j (create M c m))" if j: "alive j (create M c m)" for j
  proof (cases "j = ?n")
    case True
    have "view_of j (create M c m) = sys_with M (next_id ?w) c"
      using view_new [OF h bound] by (simp add: view_of_def create_def True)
    moreover have "pointers_ok j (create_container ?w) (objects (create M c m) j)"
      by (simp add: pointers_ok_def create_def True new_object_def)
    moreover have "origin (objects (create M c m) j) = c" by (simp add: create_def True new_object_def)
    ultimately show ?thesis using reach_new by metis
  next
    case False
    then have "alive j m" using j by (simp add: alive_def create_def create_container_def)
    then have *: "pointers_ok j ?w (objects m j)" "reach M (origin (objects m j)) (view_of j m)"
      using ok by (simp_all add: machine_ok_def)
    have "records (create_container ?w) = records ?w"
      by (simp add: create_container_def records_def fun_eq_iff)
    then have "pointers_ok j (create_container ?w) (objects (create M c m) j)"
      using *(1) False by (simp add: pointers_ok_def create_def create_container_def)
    moreover obtain k r where r: "conts ?w j = Some (k, r)" using \<open>alive j m\<close> by (auto simp: alive_def)
    then have "view j (create_container ?w) (objects m j) = view j ?w (objects m j)"
      using False by (intro view_frame [OF r]) (simp_all add: create_container_def)
    then have "view_of j (create M c m) = view_of j m" using False by (simp add: view_of_def create_def)
    moreover have "origin (objects (create M c m) j) = origin (objects m j)"
      using False by (simp add: create_def)
    ultimately show ?thesis using *(2) by simp
  qed
  ultimately show ?thesis by (simp add: machine_ok_def) (simp add: create_def)
qed

lemma machine_ok_destroy:
  assumes ok: "machine_ok M m" and n: "alive n m"
  shows "machine_ok M (destroy n m)"
proof -
  let ?w = "memory m" and ?v = "drop_container n (memory m)"
  obtain i reg where c: "conts ?w n = Some (i, reg)" using n by (auto simp: alive_def)
  have v: "?v = ?w\<lparr>conts := (conts ?w)(n := None), heap := (heap ?w) |` (- set reg)\<rparr>"
    using c by (simp add: drop_container_def)
  have h: "heap_ok ?w" using ok by (simp add: machine_ok_def)
  then have "heap_ok ?v" using world_ok_drop [of ?w n] by (simp add: heap_ok_def) (simp add: v)
  moreover have "pointers_ok j ?v (objects m j) \<and> reach M (origin (objects m j)) (view_of j (destroy n m))"
    if j: "alive j (destroy n m)" for j
  proof -
    have jn: "j \<noteq> n" "alive j m" using j by (auto simp: alive_def destroy_def v split: if_splits)
    then have *: "pointers_ok j ?w (objects m j)" "reach M (origin (objects m j)) (view_of j m)"
      using ok by (simp_all add: machine_ok_def)
    obtain k r where r: "conts ?w j = Some (k, r)" using jn(2) by (auto simp: alive_def)
    have "conts_ok ?w" using h by (simp add: heap_ok_def)
    from conts_okD(5) [OF this r c jn(1)] have "set r \<inter> set reg = {}" .
    then have "view j ?v (objects m j) = view j ?w (objects m j)"
      using jn(1) r by (intro view_frame [OF r]) (auto simp: v restrict_map_def)
    then have "view_of j (destroy n m) = view_of j m" by (simp add: view_of_def destroy_def)
    moreover have "pointers_ok j ?v (objects m j)"
      using *(1) jn(1) by (simp add: pointers_ok_def v)
    ultimately show ?thesis using *(2) by simp
  qed
  ultimately show ?thesis by (simp add: machine_ok_def) (simp add: destroy_def)
qed

lemma machine_ok_owned:
  assumes ok: "machine_ok M m" and n: "alive n m" and free: "unused (objects m n)"
  shows "machine_ok M (use_owned n f m)"
proof -
  obtain i reg where c: "conts (memory m) n = Some (i, reg)" using n by (auto simp: alive_def)
  have "view_of n (use_owned n f m) = write_through f (view_of n m)"
    using c by (simp add: view_of_def use_owned_def Let_def write_through_def)
  moreover have "reach M (origin (objects m n)) (view_of n m)" using ok n by (simp add: machine_ok_def)
  moreover have "\<forall>t. pc (view_of n m) t = Idle \<and> \<not> wguard (view_of n m) t" "guards (view_of n m) = []"
    using free c by (simp_all add: unused_def view_of_def)
  ultimately have "reach M (origin (objects m n)) (view_of n (use_owned n f m))" using reach_owned by metis
  moreover have "view_of j (use_owned n f m) = view_of j m" if "j \<noteq> n" for j
    using that by (simp add: view_of_def use_owned_def)
  moreover have "origin (objects (use_owned n f m) j) = origin (objects m j)" for j
    by (simp add: use_owned_def Let_def)
  ultimately have "reach M (origin (objects (use_owned n f m) j)) (view_of j (use_owned n f m))" if "alive j m" for j
    using ok that by (cases "j = n") (auto simp: machine_ok_def)
  moreover have "pointers_ok j (memory m) (objects (use_owned n f m) j) = pointers_ok j (memory m) (objects m j)"
    for j by (simp add: pointers_ok_def use_owned_def Let_def)
  moreover have "memory (use_owned n f m) = memory m" "alive j (use_owned n f m) = alive j m" for j
    by (simp_all add: alive_def use_owned_def)
  ultimately show ?thesis using ok by (simp add: machine_ok_def)
qed

lemma machine_ok_reach: "machine_reach M m \<Longrightarrow> machine_ok M m"
proof (induction rule: machine_reach.induct)
  case (machine_start m)
  then show ?case using world_ok_new
    by (simp add: machine_ok_def heap_ok_def alive_def) (simp add: new_world_def)
next
  case (machine_act m a t n e m')
  note act = action_implements [OF machine_act.IH machine_act.hyps(2,4)]
  have step: "rw_step M t (view_of n m) (view_of n m')" using act(1) by (rule perform_step)
  have "reach M (origin (objects m' j)) (view_of j m')" if j: "alive j m'" for j
  proof -
    have j': "alive j m" using j act(2) by blast
    then have c: "reach M (origin (objects m j)) (view_of j m)" using machine_act.IH by (auto simp: machine_ok_def)
    have "origin (objects m' j) = origin (objects m j)"
      by (rule machine_performD [OF machine_act.hyps(4)]) (auto dest: local_step_origin)
    then show ?thesis
      using c reach_step [OF _ step machine_act.hyps(5)] act(3) [OF _ j'] by (cases "j = n") auto
  qed
  then show ?case using act(2,4,5) by (auto simp: machine_ok_def)
qed (auto intro: machine_ok_create machine_ok_destroy machine_ok_owned)

section \<open>The program on the heap implements the lock\<close>

text \<open>
  Property C5.  Refinement: an action of a program on a container is the action of \<open>Rw_Lock\<close> on
  the view of this container, with positions for pointers, and changes the view of no other one.
\<close>

theorem heap_refines_lock:
  assumes "machine_reach M m" and "heap (memory m) a = None"
    and "machine_perform M t n a e m = Some m'"
  shows "perform M t (action_at (place n m) e) (view_of n m) = Some (view_of n m') \<and>
    (j \<noteq> n \<and> alive j m \<longrightarrow> view_of j m' = view_of j m)"
  using action_implements(1,3) [OF machine_ok_reach [OF assms(1)] assms(2,3)] by blast

text \<open>
  Every container of a program is at all times in a state of \<open>Rw_Lock\<close> that it can
  reach on its own, so that the properties of \<open>Rw_Lock\<close> are properties of it.
\<close>

theorem heap_views_reach:
  assumes "machine_reach M m" and "alive n m"
  shows "reach M (origin (objects m n)) (view_of n m)"
  using machine_ok_reach [OF assms(1)] assms(2) by (simp add: machine_ok_def)

text \<open>The counter pointers of an object: those of calls in progress and of guards, alive or lost.\<close>

definition keeps_counter :: "('c, 'l, 'r) object \<Rightarrow> tid \<Rightarrow> addr \<Rightarrow> bool" where
  "keeps_counter x t p \<longleftrightarrow> pc_count (call_at x t) = Some p \<or> (t, p) \<in> set (live_guards x) \<or>
     p \<in> set (lost_guards x)"

text \<open>
  Property C6.  No dangling counters: the pointer that a call in progress or a guard, alive or
  lost, keeps points to a live box of the registry of its own container, whatever has been
  created and dropped before; no two containers share a counter, and the calls in progress of two
  threads do not (a guard that was sent to another thread keeps the counter of its maker).
\<close>

theorem no_dangling_counters:
  assumes "machine_reach M m" and "alive n m" and "keeps_counter (objects m n) t p"
  shows "(\<exists>i reg. conts (memory m) n = Some (i, reg) \<and> p \<in> set reg) \<and> heap (memory m) p \<noteq> None \<and>
    (alive k m \<longrightarrow> keeps_counter (objects m k) u p \<longrightarrow> k = n) \<and>
    (pc_count (call_at (objects m n) t) = Some p \<longrightarrow> pc_count (call_at (objects m n) u) = Some p \<longrightarrow> u = t)"
proof -
  have h: "heap_ok (memory m)" and pt: "\<And>n. alive n m \<Longrightarrow> pointers_ok n (memory m) (objects m n)"
    using machine_ok_reach [OF assms(1)] by (auto simp: machine_ok_def)
  then have ok: "conts_ok (memory m)" "tls_ok (memory m)" by (simp_all add: heap_ok_def)
  obtain i reg where n: "conts (memory m) n = Some (i, reg)" using assms(2) by (auto simp: alive_def)
  have own: "p \<in> set r" if "alive k m" "conts (memory m) k = Some (j, r)" "keeps_counter (objects m k) u p" for k j r u
  proof -
    note d = pointers_okD [OF pt [OF that(1)] that(2)] and count = count_of_call [OF h that(2) pt [OF that(1)]]
    show ?thesis using that(3) count(2) d(3) [of "(u, p)"] d(4) by (auto simp: keeps_counter_def)
  qed
  note p = own [OF assms(2) n assms(3)]
  have "heap (memory m) p \<noteq> None" using conts_okD(4) [OF ok(1) n p] .
  moreover have "k = n" if c: "alive k m" "keeps_counter (objects m k) u p"
  proof -
    obtain j r where k: "conts (memory m) k = Some (j, r)" using c(1) by (auto simp: alive_def)
    show ?thesis using conts_okD(5) [OF ok(1) n k] p own [OF c(1) k c(2)] by blast
  qed
  moreover have "u = t"
    if "pc_count (call_at (objects m n) t) = Some p" "pc_count (call_at (objects m n) u) = Some p"
  proof -
    note count = count_of_call [OF h n pt [OF assms(2)]]
    show ?thesis using tls_okD(4) [OF ok(2) n count(1) [OF that(1)], of u] count(1) [OF that(2)] n by auto
  qed
  ultimately show ?thesis using n p by blast
qed

text \<open>
  The threads that may access the contents of a container under a slot or under the write lock
  (not those of \<open>Index::index\<close> and \<open>get_uncheck\<close>, which take neither).
\<close>

definition heap_may_write :: "nat \<Rightarrow> ('c, 'l, 'r) machine \<Rightarrow> tid \<Rightarrow> bool" where
  "heap_may_write n m t \<longleftrightarrow> writes (call_at (objects m n) t) \<or> write_guard_of (objects m n) t"

definition heap_may_read :: "nat \<Rightarrow> ('c, 'l, 'r) machine \<Rightarrow> tid \<Rightarrow> bool" where
  "heap_may_read n m t \<longleftrightarrow> reads (call_at (objects m n) t) \<or> t \<in> fst ` set (live_guards (objects m n))"

lemma accesses_pc_at [simp]: "writes (pc_at f q) = writes q" "reads (pc_at f q) = reads q"
  by (cases q; simp)+

lemma view_may:
  assumes "alive n m"
  shows "may_write (view_of n m) t = heap_may_write n m t" "may_read (view_of n m) t = heap_may_read n m t"
proof -
  obtain i reg where n: "conts (memory m) n = Some (i, reg)" using assms by (auto simp: alive_def)
  have "t \<in> fst ` set gs \<longleftrightarrow> (\<exists>i. (t, i) \<in> map_prod id f ` set gs)" for gs :: "(tid \<times> addr) list" and f :: "addr \<Rightarrow> nat"
    by force
  then show "may_write (view_of n m) t = heap_may_write n m t" "may_read (view_of n m) t = heap_may_read n m t"
    using n by (simp_all add: view_of_def may_write_def heap_may_write_def may_read_def heap_may_read_def)
qed

text \<open>
  Property C7.  Mutual exclusion on the heap: while a thread may write the contents of a container,
  no thread may read them under a slot or through a read guard, and no other thread may write them.
\<close>

theorem heap_no_data_race:
  assumes "mutex_laws M" and "machine_reach M m" and "alive n m" and "heap_may_write n m t"
  shows "\<not> heap_may_read n m u \<and> (heap_may_write n m u \<longrightarrow> u = t)"
proof -
  have "reach M (origin (objects m n)) (view_of n m)"
    using machine_ok_reach [OF assms(2)] assms(3) by (simp add: machine_ok_def)
  from reach_exclusive [OF assms(1) this] show ?thesis using assms(3,4) by (simp add: view_may)
qed

text \<open>
  Property C8.  Linearizability on the heap: the history of a container, replayed one access
  after the other from its first contents, gives every call the result that it had and ends in
  the present contents, whatever happens to other containers.
\<close>

theorem heap_calls_linearize:
  assumes "mutex_laws M" and "machine_reach M m" and "alive n m"
  shows "replay (past (objects m n)) (origin (objects m n)) = Some (data (objects m n))"
proof -
  obtain i reg where n: "conts (memory m) n = Some (i, reg)" using assms(3) by (auto simp: alive_def)
  have "reach M (origin (objects m n)) (view_of n m)"
    using machine_ok_reach [OF assms(2)] assms(3) by (simp add: machine_ok_def)
  from replay_reach [OF assms(1) this] show ?thesis using n by (simp add: view_of_def)
qed

section \<open>Instances\<close>

text \<open>A schedule of one container in a program that has no other at the time.\<close>

fun machine_run :: "'l mutex_ops \<Rightarrow> nat \<Rightarrow> (tid \<times> addr \<times> ('c, 'r) action) list \<Rightarrow>
    ('c, 'l, 'r) machine \<Rightarrow> ('c, 'l, 'r) machine option" where
  "machine_run M n [] m = Some m"
| "machine_run M n ((t, a, e) # as) m =
     (if heap (memory m) a = None
      then (case machine_perform M t n a e m of None \<Rightarrow> None | Some m' \<Rightarrow> machine_run M n as m')
      else None)"

definition kept_guards :: "('c, 'l, 'r) object \<Rightarrow> nat" where
  "kept_guards x = length (live_guards x) + length (lost_guards x)"

lemma read_guards: "heap_read_step M t n a q w x = Some (w', x') \<Longrightarrow> kept_guards x' \<le> Suc (kept_guards x)"
  by (cases q) (auto simp: kept_guards_def Let_def split: option.splits read_out.splits)

lemma write_guards: "heap_write_step M t n q w x = Some x' \<Longrightarrow> kept_guards x' \<le> Suc (kept_guards x)"
  by (cases q) (auto simp: kept_guards_def Let_def split: option.splits write_out.splits if_splits)

lemma client_guards: "heap_client_step t e w x = Some (w', x') \<Longrightarrow> kept_guards x' \<le> Suc (kept_guards x)"
  by (cases e) (auto simp: kept_guards_def length_remove1 split: if_splits)

lemma local_step_guards:
  assumes "local_step M t n a e w x = Some (w', x')"
  shows "kept_guards x' \<le> Suc (kept_guards x)"
proof (cases "e = Run")
  case True
  then show ?thesis using assms
    by (auto simp: local_step_def dest: read_guards write_guards split: option.splits)
next
  case False
  then have "heap_client_step t e w x = Some (w', x')"
    using assms by (cases e; auto simp: local_step_def split: if_splits)
  then show ?thesis by (rule client_guards)
qed

lemma machine_run_reach:
  assumes "machine_reach M m" "\<forall>j. alive j m \<longrightarrow> j = n" "machine_run M n as m = Some m'"
    "kept_guards (objects m n) + length as + 1 < 2 ^ 64"
  shows "machine_reach M m'"
  using assms
proof (induction as arbitrary: m)
  case (Cons b as)
  obtain t a e where b: "b = (t, a, e)" by (cases b)
  obtain m1 where m1: "heap (memory m) a = None" "machine_perform M t n a e m = Some m1"
    "machine_run M n as m1 = Some m'"
    using Cons.prems(3) by (auto simp: b split: if_splits option.splits)
  obtain i reg w x where s: "conts (memory m) n = Some (i, reg)"
    "local_step M t n a e (memory m) (objects m n) = Some (w, x)"
    "m1 = m\<lparr>memory := w, objects := (objects m)(n := x)\<rparr>" using machine_performD [OF m1(2)] .
  note act = action_implements [OF machine_ok_reach [OF Cons.prems(1)] m1(1,2)]
  have room: "kept_guards (objects m1 n) + length as + 1 < 2 ^ 64"
    using local_step_guards [OF s(2)] Cons.prems(4) by (simp add: s(3))
  have "pins (view_of n m1) k \<le> kept_guards (objects m1 n)" for k
  proof -
    obtain j r where r: "conts (memory m1) n = Some (j, r)"
      using act(2) [of n] s(1) by (auto simp: alive_def)
    show ?thesis unfolding pins_def kept_guards_def
      using count_le_length [of "map snd (guards (view_of n m1))" k] count_le_length [of "leaked (view_of n m1)" k] r
      by (simp add: view_of_def)
  qed
  then have "has_room (view_of n m1)" unfolding has_room_def
    using room by (meson add_le_mono1 le_add1 le_less_trans)
  moreover have "elsewhere_idle t n m" using Cons.prems(2) by (auto simp: elsewhere_idle_def alive_def)
  ultimately have "machine_reach M m1" using machine_act [OF Cons.prems(1) m1(1) _ m1(2)] by blast
  then show ?case using Cons.IH m1(3) room act(2) Cons.prems(2) by blast
qed simp

text \<open>
  Thread 2 reads a first container, with its counter at address 5, which is then dropped; a
  second container is created, and the allocator gives the same address again.  The table of
  thread 2 has an entry for each of them.
\<close>

type_synonym demo_machine = "(nat list, tid option, nat list) machine"

definition machine0 :: demo_machine where
  "machine0 = \<lparr>memory = new_world, objects = (\<lambda>_. new_object owner_mutex [])\<rparr>"

definition first_read :: "(tid \<times> addr \<times> (nat list, nat list) action) list" where
  "first_read = [(2, 5, Start demo_ref), (2, 5, Run), (2, 5, Run), (2, 6, Run), (2, 6, Run), (2, 6, Run),
     (2, 6, Run)]"

lemmas machine_defs = machine_perform_def local_step_def find_slot_def add_slot_def fetch_def at_def
  done_at_def note_event_def Let_def demo_ref_def demo_push_def create_def destroy_def create_container_def
  drop_container_def new_world_def new_object_def new_slots_def

definition machine1 :: demo_machine where
  "machine1 = the (machine_run owner_mutex 0 (first_read @ [(2, 6, DropGuard 5)])
     (create owner_mutex [7] machine0))"

definition machine2 :: demo_machine where
  "machine2 = the (machine_run owner_mutex (Suc 0) first_read (create owner_mutex [8] (destroy 0 machine1)))"

lemma machine1: "machine_run owner_mutex 0 (first_read @ [(2, 6, DropGuard 5)])
     (create owner_mutex [7] machine0) = Some machine1"
  "conts (memory machine1) = [0 \<mapsto> (0, [5])]" "created (memory machine1) = Suc 0" "next_id (memory machine1) = 1"
  "heap (memory machine1) = [5 \<mapsto> 0]" "all_slots (tls (memory machine1) 2) = [(0, 5)]"
  "last_slot (tls (memory machine1) 2) = (0, Some 5)" "unused (objects machine1 0)"
  by (simp_all add: machine1_def first_read_def machine0_def machine_defs unused_def)

lemma machine1_reach: "machine_reach owner_mutex machine1"
proof (rule machine_run_reach [OF _ _ machine1(1)])
  have "machine_reach owner_mutex machine0" by (rule machine_start) (simp add: machine0_def)
  then show "machine_reach owner_mutex (create owner_mutex [7] machine0)"
    by (rule machine_create) (simp add: machine0_def new_world_def)
qed (simp_all add: alive_def create_def create_container_def machine0_def new_world_def kept_guards_def
    new_object_def first_read_def)

text \<open>The second container, with the old address for its counter, and then a push to it.\<close>

lemma machine2: "machine_run owner_mutex (Suc 0) first_read
     (create owner_mutex [8] (destroy 0 machine1)) = Some machine2"
  "conts (memory machine2) = [Suc 0 \<mapsto> (1, [5])]" "heap (memory machine2) = [5 \<mapsto> 1]"
  "all_slots (tls (memory machine2) 2) = [(0, 5), (1, 5)]" "live_guards (objects machine2 (Suc 0)) = [(2, 5)]"
  "lost_guards (objects machine2 (Suc 0)) = []" "call_at (objects machine2 (Suc 0)) = (\<lambda>_. Idle)"
  by (simp_all add: machine2_def first_read_def machine_defs machine1(2-) restrict_map_def fun_eq_iff)

lemma machine2_reach: "machine_reach owner_mutex machine2"
proof (rule machine_run_reach [OF _ _ machine2(1)])
  have "machine_reach owner_mutex (destroy 0 machine1)"
    by (rule machine_destroy [OF machine1_reach]) (simp_all add: alive_def machine1)
  then show "machine_reach owner_mutex (create owner_mutex [8] (destroy 0 machine1))"
    by (rule machine_create) (simp add: destroy_def drop_container_def machine1)
qed (auto simp: alive_def create_def create_container_def destroy_def drop_container_def machine1
    kept_guards_def new_object_def first_read_def split: if_splits)

definition writing_machine :: demo_machine where
  "writing_machine = the (machine_run owner_mutex (Suc 0) [(2, 6, DropGuard 5), (0, 6, Start (demo_push 3)),
     (0, 6, Run), (0, 6, Run), (0, 6, Run), (0, 6, Run), (0, 6, Run), (0, 6, Run)] machine2)"

lemma machine2_objects:
  "objects machine2 (Suc 0) = \<lparr>origin = [8], data = [8], lock = None, flag = False, boxes_lock = None,
     call_at = (\<lambda>_. Idle), live_guards = [(2, 5)], lost_guards = [], write_guard_of = (\<lambda>_. False),
     result = (\<lambda>_. None)(2 := Some (Returned [8])), past = [EvRead Pinned (Pinned [8])]\<rparr>"
  by (simp add: machine2_def first_read_def machine_defs machine1(2-) restrict_map_def fun_eq_iff)

lemma writing_machine: "machine_run owner_mutex (Suc 0) [(2, 6, DropGuard 5), (0, 6, Start (demo_push 3)),
     (0, 6, Run), (0, 6, Run), (0, 6, Run), (0, 6, Run), (0, 6, Run), (0, 6, Run)] machine2 =
     Some writing_machine" "heap_may_write (Suc 0) writing_machine 0" "alive (Suc 0) writing_machine"
  "data (objects writing_machine (Suc 0)) = [8]"
  by (simp_all add: writing_machine_def machine_defs machine2_objects 
    machine2 heap_may_write_def alive_def)

lemma writing_machine_reach: "machine_reach owner_mutex writing_machine"
  by (rule machine_run_reach [OF machine2_reach _ writing_machine(1)])
    (simp_all add: alive_def machine2(2) machine2_objects kept_guards_def split: if_splits)

theorem heap_refines_lock_witness:
  "\<exists>m. machine_perform owner_mutex 2 (Suc 0) 6 (DropGuard 5) machine2 = Some m \<and>
    perform owner_mutex 2 (DropGuard 0) (view_of (Suc 0) machine2) = Some (view_of (Suc 0) m)"
proof -
  have free: "heap (memory machine2) 6 = None" by (simp add: machine2)
  obtain m where m: "machine_perform owner_mutex 2 (Suc 0) 6 (DropGuard 5) machine2 = Some m"
    by (simp add: machine_defs machine2_objects machine2(2,3))
  have "place (Suc 0) machine2 5 = 0" by (simp add: place_def machine2(2) position_def)
  then show ?thesis using m heap_refines_lock [OF machine2_reach free m] by simp
qed

theorem heap_views_reach_witness: "reach owner_mutex [8] (view_of (Suc 0) machine2)"
  using heap_views_reach [OF machine2_reach, of "Suc 0"] by (simp add: alive_def machine2(2) machine2_objects)

theorem no_dangling_counters_witness:
  "(2, 5) \<in> set (live_guards (objects machine2 (Suc 0))) \<and> heap (memory machine2) 5 \<noteq> None"
  using no_dangling_counters [OF machine2_reach, of "Suc 0" 2 5]
  by (simp add: alive_def machine2(2,5) keeps_counter_def)

theorem heap_no_data_race_witness:
  "heap_may_write (Suc 0) writing_machine 0 \<and> \<not> heap_may_read (Suc 0) writing_machine 2 \<and>
    \<not> heap_may_write (Suc 0) writing_machine 2"
  using heap_no_data_race [OF owner_mutex_laws writing_machine_reach writing_machine(3,2), of 2]
    writing_machine(2) by simp

theorem heap_calls_linearize_witness:
  "replay (past (objects machine2 (Suc 0))) [8] = Some [8 :: nat]"
  using heap_calls_linearize [OF owner_mutex_laws machine2_reach, of "Suc 0"]
  by (simp add: alive_def machine2(2) machine2_objects)

end
