(* ===== verification/Guards.thy ===== *)
theory Guards
  imports Rw_History
begin

text \<open>
  The guard types of \<open>src/src/sync/mod.rs\<close>: \<open>ReadGuard\<close>, \<open>ReadMapGuard\<close> and \<open>WriteGuard\<close>.  The
  field \<open>value\<close> is a reference into the contents.  A reference is modelled by its place: what it
  gives depends on the contents at the moment it is used, so that a reference that outlives its
  slot shows what it would show in the program.  The theorems state what the slot and the write
  lock are for: a place that is read under a live read guard keeps its value, and a place under a
  live write guard changes by the owner's own stores only.
\<close>

section \<open>Formatting\<close>

text \<open>
  What an implementation of \<open>Debug\<close> or \<open>Display\<close> does: it writes a text, or returns \<open>fmt::Error\<close>;
  where the type is an option, \<open>None\<close> means that it panics.
\<close>

datatype fmt_result = FmtOk string | FmtErr

section \<open>Read guards\<close>

record ('c, 'v) read_guard =
  rg_count :: nat
  rg_value :: "'c \<Rightarrow> 'v"

definition ReadGuard_new :: "nat \<Rightarrow> ('c \<Rightarrow> 'v) \<Rightarrow> ('c, 'v) read_guard" where
  "ReadGuard_new count value = \<lparr>rg_count = count, rg_value = value\<rparr>"

definition ReadGuard_deref :: "('c, 'v) read_guard \<Rightarrow> 'c \<Rightarrow> 'v" where
  "ReadGuard_deref g m = rg_value g m"

definition ReadGuard_drop :: "tid \<Rightarrow> ('c, 'v) read_guard \<Rightarrow> ('c, 'l, 'r) sys \<Rightarrow> ('c, 'l, 'r) sys" where
  "ReadGuard_drop t g s = drop_guard t (rg_count g) s"

text \<open>
  \<open>Debug\<close> and \<open>Display\<close> of the guard are those of the value (\<open>dbg\<close>, \<open>disp\<close>); the three
  \<open>PartialEq\<close> are the value's (\<open>eq\<close>, \<open>None\<close> when it panics).
\<close>

definition ReadGuard_debug :: "('v \<Rightarrow> fmt_result option) \<Rightarrow> ('c, 'v) read_guard \<Rightarrow> 'c \<Rightarrow> fmt_result option" where
  "ReadGuard_debug dbg g m = dbg (rg_value g m)"

definition ReadGuard_display :: "('v \<Rightarrow> fmt_result option) \<Rightarrow> ('c, 'v) read_guard \<Rightarrow> 'c \<Rightarrow> fmt_result option" where
  "ReadGuard_display disp g m = disp (rg_value g m)"

definition ReadGuard_eq :: "('v \<Rightarrow> 'v \<Rightarrow> bool option) \<Rightarrow> ('c, 'v) read_guard \<Rightarrow> 'c \<Rightarrow>
    ('d, 'v) read_guard \<Rightarrow> 'd \<Rightarrow> bool option" where
  "ReadGuard_eq eq g m h n = eq (ReadGuard_deref g m) (ReadGuard_deref h n)"

definition ReadGuard_eq_value :: "('v \<Rightarrow> 'v \<Rightarrow> bool option) \<Rightarrow> ('c, 'v) read_guard \<Rightarrow> 'c \<Rightarrow>
    'v \<Rightarrow> bool option" where
  "ReadGuard_eq_value eq g m x = eq (ReadGuard_deref g m) x"

definition ReadGuard_eq_ref :: "('v \<Rightarrow> 'v \<Rightarrow> bool option) \<Rightarrow> ('c, 'v) read_guard \<Rightarrow> 'c \<Rightarrow>
    ('d \<Rightarrow> 'v) \<Rightarrow> 'd \<Rightarrow> bool option" where
  "ReadGuard_eq_ref eq g m x n = eq (ReadGuard_deref g m) (x n)"

section \<open>Guards on the whole container\<close>

record 'c read_map_guard =
  rm_count :: nat
  rm_value :: "'c \<Rightarrow> 'c"

definition ReadMapGuard_new :: "nat \<Rightarrow> ('c \<Rightarrow> 'c) \<Rightarrow> 'c read_map_guard" where
  "ReadMapGuard_new count value = \<lparr>rm_count = count, rm_value = value\<rparr>"

definition ReadMapGuard_deref :: "'c read_map_guard \<Rightarrow> 'c \<Rightarrow> 'c" where
  "ReadMapGuard_deref g m = rm_value g m"

definition ReadMapGuard_drop :: "tid \<Rightarrow> 'c read_map_guard \<Rightarrow> ('c, 'l, 'r) sys \<Rightarrow> ('c, 'l, 'r) sys" where
  "ReadMapGuard_drop t g s = drop_guard t (rm_count g) s"

definition ReadMapGuard_debug :: "('c \<Rightarrow> fmt_result option) \<Rightarrow> 'c read_map_guard \<Rightarrow> 'c \<Rightarrow> fmt_result option" where
  "ReadMapGuard_debug dbg g m = dbg (rm_value g m)"

definition ReadMapGuard_display :: "('c \<Rightarrow> fmt_result option) \<Rightarrow> 'c read_map_guard \<Rightarrow> 'c \<Rightarrow> fmt_result option" where
  "ReadMapGuard_display disp g m = disp (rm_value g m)"

section \<open>Write guards\<close>

text \<open>
  \<open>value: &mut V\<close> is a place that can be read and stored to.  The field \<open>_w\<close>, the \<open>WriteLock\<close>,
  is the thread's ownership of the lock (\<open>wguard\<close>).
\<close>

record ('c, 'v) write_guard =
  wg_get :: "'c \<Rightarrow> 'v"
  wg_put :: "'v \<Rightarrow> 'c \<Rightarrow> 'c"

definition WriteGuard_new :: "('c \<Rightarrow> 'v) \<Rightarrow> ('v \<Rightarrow> 'c \<Rightarrow> 'c) \<Rightarrow> ('c, 'v) write_guard" where
  "WriteGuard_new get put = \<lparr>wg_get = get, wg_put = put\<rparr>"

definition WriteGuard_deref :: "('c, 'v) write_guard \<Rightarrow> 'c \<Rightarrow> 'v" where
  "WriteGuard_deref g m = wg_get g m"

text \<open>\<open>*guard = v\<close>: a store to the place that \<open>deref_mut\<close> gives.\<close>

definition WriteGuard_store :: "('c, 'v) write_guard \<Rightarrow> 'v \<Rightarrow> ('c, 'l, 'r) sys \<Rightarrow> ('c, 'l, 'r) sys" where
  "WriteGuard_store g v s = write_through (wg_put g v) s"

definition WriteGuard_debug :: "('v \<Rightarrow> fmt_result option) \<Rightarrow> ('c, 'v) write_guard \<Rightarrow> 'c \<Rightarrow> fmt_result option" where
  "WriteGuard_debug dbg g m = dbg (WriteGuard_deref g m)"

definition WriteGuard_display :: "('v \<Rightarrow> fmt_result option) \<Rightarrow> ('c, 'v) write_guard \<Rightarrow> 'c \<Rightarrow> fmt_result option" where
  "WriteGuard_display disp g m = disp (WriteGuard_deref g m)"

definition WriteGuard_eq :: "('v \<Rightarrow> 'v \<Rightarrow> bool option) \<Rightarrow> ('c, 'v) write_guard \<Rightarrow> 'c \<Rightarrow>
    ('d, 'v) write_guard \<Rightarrow> 'd \<Rightarrow> bool option" where
  "WriteGuard_eq eq g m h n = eq (WriteGuard_deref g m) (WriteGuard_deref h n)"

text \<open>
  The three maps wrap the guard in a struct of their own (\<open>HashMapRefMut\<close>, \<open>BtreeMapRefMut\<close>,
  \<open>IndexMapRefMut\<close>), with the one field \<open>inner\<close>.
\<close>

record ('c, 'v) ref_mut =
  rf_inner :: "('c, 'v) write_guard"

text \<open>The law of a place: a store is read back.\<close>

definition place_law :: "('c, 'v) write_guard \<Rightarrow> 'c \<Rightarrow> bool" where
  "place_law g m \<longleftrightarrow> (\<forall>v. wg_get g (wg_put g v m) = v)"

section \<open>User code under a guard\<close>

text \<open>
  A method that runs user code on the contents while it has the slot in a guard (a temporary
  \<open>dirty_ref\<close>): it returns what the user code gives, and drops the guard; when the user code
  panics (\<open>None\<close>), unwinding drops the guard.
\<close>

fun under_guard :: "'o option \<Rightarrow> 'o read_out" where
  "under_guard (Some r) = Unpinned r"
| "under_guard None = Unwound"

fun user_outcome :: "'o option \<Rightarrow> 'o outcome" where
  "user_outcome (Some r) = Returned r"
| "user_outcome None = Panicked"

lemma read_value_under_guard [simp]: "read_value (under_guard x) = user_outcome x"
  by (cases x) simp_all

lemma read_trace_under_guard [simp]: "read_trace (under_guard x) = Nothing"
  by (cases x) simp_all

lemma exec_under_guard:
  fixes t :: tid and f :: "'c \<Rightarrow> 'o option"
  assumes "mutex_laws M" "reach M c s" "quiet s"
  defines "s' \<equiv> exec M t (ReadCall (\<lambda>m. under_guard (f m))) s"
  shows "ret s' t = Some (user_outcome (f (dirty s)))" "dirty s' = dirty s" "quiet s'" "reach M c s'"
  using exec_effect [OF assms(1-3)] exec_quiet [OF assms(1-3)] exec_reach [OF assms(2,3)]
  by (simp_all add: s'_def releases_def)

section \<open>The life of a read guard\<close>

text \<open>
  \<open>holding M t i s s'\<close>: the threads go from \<open>s\<close> to \<open>s'\<close>, and in every state on the way \<open>t\<close> owns
  a guard with the counter \<open>i\<close>.
\<close>

inductive holding :: "'l mutex_ops \<Rightarrow> tid \<Rightarrow> nat \<Rightarrow> ('c, 'l, 'r) sys \<Rightarrow> ('c, 'l, 'r) sys \<Rightarrow> bool"
  for M :: "'l mutex_ops" and t :: tid and i :: nat and s :: "('c, 'l, 'r) sys" where
  holding_start: "(t, i) \<in> set (guards s) \<Longrightarrow> holding M t i s s"
| holding_step: "holding M t i s s1 \<Longrightarrow> rw_step M u s1 s2 \<Longrightarrow> has_room s2 \<Longrightarrow>
    (t, i) \<in> set (guards s2) \<Longrightarrow> holding M t i s s2"

lemma holding_frozen:
  assumes M: "mutex_laws M" and "reach M c s" "holding M t i s s'"
  shows "reach M c s' \<and> (t, i) \<in> set (guards s') \<and> dirty s' = dirty s"
  using assms(3)
proof (induction rule: holding.induct)
  case holding_start
  then show ?case using assms(2) by blast
next
  case (holding_step s1 u s2)
  then have r: "reach M c s1" and g: "(t, i) \<in> set (guards s1)" by blast+
  have "dirty s2 = dirty s1"
    using reach_alone(1) [OF M r] dirty_changes_excl [OF holding_step(2)] g by fastforce
  then show ?case using holding_step reach_step [OF r] by simp
qed

text \<open>
  What a read guard shows is what its call returned: from the moment at which the call ends and
  as long as the guard is alive, the contents are those that the call has seen.
\<close>

lemma pinned_contents:
  assumes M: "mutex_laws M" and "reach M c s" "pc s t = RFinish i b x" "b x = Pinned r"
    and "rw_step M t s s1" "has_room s1" "holding M t i s1 s2"
  shows "dirty s2 = x \<and> ret s1 t = Some (Returned r)"
proof -
  have x: "x = dirty s"
    using reach_rw_inv(1) [OF M assms(2)] assms(3) unfolding rw_inv_def inv_snap_def by blast
  have "dirty s1 = dirty s \<and> ret s1 t = Some (Returned r)"
    using assms(5) by (cases rule: rw_step.cases) (use assms(3,4) in simp_all)
  then show ?thesis
    using x holding_frozen [OF M reach_step [OF assms(2,5,6)] assms(7)] by simp
qed

section \<open>The life of a write guard\<close>

lemma write_guard_alone:
  assumes "mutex_laws M" and "reach M c s" and "wguard s t" and "rw_step M u s s'" and "u \<noteq> t"
  shows "dirty s' = dirty s"
proof (rule ccontr)
  assume "dirty s' \<noteq> dirty s"
  then have "w_excl (pc s u) \<or> wguard s u" by (rule dirty_changes_excl [OF assms(4)])
  then show False using reach_alone(4) [OF assms(1,2) disjI2 [OF assms(3)] assms(5)] w_excl_owner by blast
qed

text \<open>
  \<open>owning M t s fs s'\<close>: the threads go from \<open>s\<close> to \<open>s'\<close> while \<open>t\<close> owns its write guard; \<open>fs\<close>
  are the stores that \<open>t\<close> makes through it, oldest first.
\<close>

inductive owning :: "'l mutex_ops \<Rightarrow> tid \<Rightarrow> ('c, 'l, 'r) sys \<Rightarrow> ('c \<Rightarrow> 'c) list \<Rightarrow>
    ('c, 'l, 'r) sys \<Rightarrow> bool" for M :: "'l mutex_ops" and t :: tid and s :: "('c, 'l, 'r) sys" where
  owning_start: "wguard s t \<Longrightarrow> owning M t s [] s"
| owning_store: "owning M t s fs s1 \<Longrightarrow> pc s1 t = Idle \<Longrightarrow>
    owning M t s (fs @ [f]) (write_through f s1)"
| owning_step: "owning M t s fs s1 \<Longrightarrow> rw_step M u s1 s2 \<Longrightarrow> has_room s2 \<Longrightarrow> u \<noteq> t \<Longrightarrow>
    owning M t s fs s2"

lemma owning_reach:
  assumes "mutex_laws M" "reach M c s" "owning M t s fs s'"
  shows "reach M c s' \<and> wguard s' t \<and> dirty s' = fold (\<lambda>f. f) fs (dirty s)"
  using assms(3)
proof (induction rule: owning.induct)
  case owning_start
  then show ?case using assms(2) by simp
next
  case (owning_store fs s1 f)
  then have r: "reach M c s1" and w: "wguard s1 t" by blast+
  have "rw_step M t s1 (write_through f s1)"
    using rw_step.wguard_write [OF owning_store(2) w, of M f] by (simp add: write_through_def log_event_def)
  then have "reach M c (write_through f s1)"
    by (rule reach_step [OF r]) (simp add: reach_rw_inv(2) [OF assms(1) r])
  then show ?case using owning_store by (simp add: write_through_def log_event_def)
next
  case (owning_step fs s1 u s2)
  then have r: "reach M c s1" and w: "wguard s1 t" by blast+
  have "dirty s2 = dirty s1" by (rule write_guard_alone [OF assms(1) r w owning_step(2,4)])
  moreover have "wguard s2 t" using step_others(2) [OF owning_step(2)] owning_step(4) w by simp
  ultimately show ?case using owning_step reach_step [OF r owning_step(2,3)] by simp
qed

text \<open>
  Property C14.  A write guard reads its own writes: whatever the other threads do while it is
  alive, the contents are what the owner's stores have made of them, in the order of the stores,
  and the place of the guard holds the value that was stored last.
\<close>

theorem write_guard_reads_own_writes:
  assumes "mutex_laws M" and "reach M c s" and "owning M t s fs s1"
    and "pc s1 t = Idle" and "place_law g (dirty s1)" and "owning M t (WriteGuard_store g v s1) [] s2"
  shows "dirty s2 = wg_put g v (fold (\<lambda>f. f) fs (dirty s)) \<and> WriteGuard_deref g (dirty s2) = v"
proof -
  have 1: "reach M c s1" "wguard s1 t" "dirty s1 = fold (\<lambda>f. f) fs (dirty s)"
    using owning_reach [OF assms(1-3)] by blast+
  have own: "owning M t s1 [wg_put g v] (WriteGuard_store g v s1)"
    using owning_store [OF owning_start [where M = M, OF 1(2)] assms(4), of "wg_put g v"] by (simp add: WriteGuard_store_def)
  have 2: "reach M c (WriteGuard_store g v s1)" "dirty (WriteGuard_store g v s1) = wg_put g v (dirty s1)"
    using owning_reach [OF assms(1) 1(1) own] by simp_all
  have "dirty s2 = wg_put g v (dirty s1)" using owning_reach [OF assms(1) 2(1) assms(6)] 2(2) by simp
  then show ?thesis using 1(3) assms(5) by (simp add: WriteGuard_deref_def place_law_def)
qed

end
