(* ===== verification/Map_Contract.thy ===== *)
theory Map_Contract
  imports Guards
begin

text \<open>
  The contract that the three maps share: what the methods of \<open>SyncHashMap\<close>, \<open>SyncBtreeMap\<close>
  and \<open>SyncIndexMap\<close> do, seen as a partial function from keys to values, as a locale; what a
  client can conclude from it about sequences of calls and about concurrent histories.
\<close>

section \<open>The reference map\<close>

datatype ('k, 'v) map_op =
    OpInsert 'k 'v | OpRemove 'k | OpGet 'k | OpContains 'k | OpLen | OpIsEmpty | OpClear

text \<open>The results of the methods in one type, so that one client can call all of them.\<close>

datatype 'v map_result = GotValue "'v option" | GotBool bool | GotLen usize | GotUnit

fun ref_op :: "('k, 'v) map_op \<Rightarrow> ('k \<rightharpoonup> 'v) \<Rightarrow> ('k \<rightharpoonup> 'v) \<times> 'v map_result" where
  "ref_op (OpInsert k v) m = (m(k \<mapsto> v), GotValue (m k))"
| "ref_op (OpRemove k) m = (m(k := None), GotValue (m k))"
| "ref_op (OpGet k) m = (m, GotValue (m k))"
| "ref_op (OpContains k) m = (m, GotBool (m k \<noteq> None))"
| "ref_op OpLen m = (m, GotLen (of_nat (card (dom m))))"
| "ref_op OpIsEmpty m = (m, GotBool (dom m = {}))"
| "ref_op OpClear m = (\<lambda>_. None, GotUnit)"

fun ref_ops :: "('k, 'v) map_op list \<Rightarrow> ('k \<rightharpoonup> 'v) \<Rightarrow> ('k \<rightharpoonup> 'v) \<times> 'v map_result list" where
  "ref_ops [] m = (m, [])"
| "ref_ops (op # ops) m =
     (let (m1, r) = ref_op op m; (m2, rs) = ref_ops ops m1 in (m2, r # rs))"

text \<open>The call that an operation stands for, given the methods of a map.\<close>

fun dispatch :: "('k \<Rightarrow> 'v \<Rightarrow> ('m, 'v option) call) \<Rightarrow> ('k \<Rightarrow> ('m, 'v option) call) \<Rightarrow>
    ('k \<Rightarrow> ('m, 'v option) call) \<Rightarrow> ('k \<Rightarrow> ('m, bool) call) \<Rightarrow> ('m, usize) call \<Rightarrow>
    ('m, bool) call \<Rightarrow> ('m, unit) call \<Rightarrow> ('k, 'v) map_op \<Rightarrow> ('m, 'v map_result) call" where
  "dispatch ins rem get con len emp clr (OpInsert k v) = map_call GotValue (ins k v)"
| "dispatch ins rem get con len emp clr (OpRemove k) = map_call GotValue (rem k)"
| "dispatch ins rem get con len emp clr (OpGet k) = map_call GotValue (get k)"
| "dispatch ins rem get con len emp clr (OpContains k) = map_call GotBool (con k)"
| "dispatch ins rem get con len emp clr OpLen = map_call GotLen len"
| "dispatch ins rem get con len emp clr OpIsEmpty = map_call GotBool emp"
| "dispatch ins rem get con len emp clr OpClear = map_call (\<lambda>_. GotUnit) clr"

section \<open>The contract\<close>

text \<open>
  \<open>wf\<close> is the invariant of the contents, \<open>view\<close> the partial function that they stand for.
  Every method keeps the invariant and returns what the partial function says; a writing
  method updates it in one place, or empties it; none of them keeps the write lock or loses a slot.
\<close>

locale sync_map =
  fixes wf :: "'m \<Rightarrow> bool"
    and view :: "'m \<Rightarrow> 'k \<rightharpoonup> 'v"
    and ins :: "'k \<Rightarrow> 'v \<Rightarrow> ('m, 'v option) call"
    and rem :: "'k \<Rightarrow> ('m, 'v option) call"
    and get :: "'k \<Rightarrow> ('m, 'v option) call"
    and con :: "'k \<Rightarrow> ('m, bool) call"
    and len :: "('m, usize) call"
    and emp :: "('m, bool) call"
    and clr :: "('m, unit) call"
  assumes ins_law: "wf m \<Longrightarrow> wf (fst (effect (ins k v) m)) \<and>
      view (fst (effect (ins k v) m)) = (view m)(k \<mapsto> v) \<and>
      snd (effect (ins k v) m) = Returned (view m k) \<and> leaves (ins k v) m = Nothing"
    and rem_law: "wf m \<Longrightarrow> wf (fst (effect (rem k) m)) \<and>
      view (fst (effect (rem k) m)) = (view m)(k := None) \<and>
      snd (effect (rem k) m) = Returned (view m k) \<and> leaves (rem k) m = Nothing"
    and get_law: "wf m \<Longrightarrow> effect (get k) m = (m, Returned (view m k)) \<and>
      leaves (get k) m = (if view m k = None then Nothing else ReadPin)"
    and con_law: "wf m \<Longrightarrow> effect (con k) m = (m, Returned (view m k \<noteq> None)) \<and>
      leaves (con k) m = Nothing"
    and len_law: "wf m \<Longrightarrow> effect len m = (m, Returned (of_nat (card (dom (view m))))) \<and>
      leaves len m = Nothing"
    and emp_law: "wf m \<Longrightarrow> effect emp m = (m, Returned (dom (view m) = {})) \<and>
      leaves emp m = Nothing"
    and clr_law: "wf m \<Longrightarrow> wf (fst (effect clr m)) \<and> view (fst (effect clr m)) = (\<lambda>_. None) \<and>
      snd (effect clr m) = Returned () \<and> leaves clr m = Nothing"
begin

lemma op_refines:
  assumes "wf m"
  shows "wf (fst (effect (dispatch ins rem get con len emp clr op) m)) \<and>
    view (fst (effect (dispatch ins rem get con len emp clr op) m)) = fst (ref_op op (view m)) \<and>
    snd (effect (dispatch ins rem get con len emp clr op) m) = Returned (snd (ref_op op (view m))) \<and>
    leaves (dispatch ins rem get con len emp clr op) m \<in> {Nothing, ReadPin}"
proof (cases op)
  case (OpInsert k v)
  then show ?thesis using ins_law [OF assms] by (simp add: effect_map_call leaves_map_call)
next
  case (OpRemove k)
  then show ?thesis using rem_law [OF assms] by (simp add: effect_map_call leaves_map_call)
next
  case (OpGet k)
  then show ?thesis using get_law [OF assms] assms by (simp add: effect_map_call leaves_map_call)
next
  case (OpContains k)
  then show ?thesis using con_law [OF assms] assms by (simp add: effect_map_call leaves_map_call)
next
  case OpLen
  then show ?thesis using len_law [OF assms] assms by (simp add: effect_map_call leaves_map_call)
next
  case OpIsEmpty
  then show ?thesis using emp_law [OF assms] assms by (simp add: effect_map_call leaves_map_call)
next
  case OpClear
  then show ?thesis using clr_law [OF assms] by (simp add: effect_map_call leaves_map_call)
qed

lemma ops_refine:
  fixes ops :: "('k, 'v) map_op list"
  assumes "wf m"
  defines "ms \<equiv> map (dispatch ins rem get con len emp clr) ops"
  shows "wf (effects ms m)" "view (effects ms m) = fst (ref_ops ops (view m))"
    "outcomes ms m = map Returned (snd (ref_ops ops (view m)))" "all_clean ms m"
proof -
  have "wf (effects ms m) \<and> view (effects ms m) = fst (ref_ops ops (view m)) \<and>
    outcomes ms m = map Returned (snd (ref_ops ops (view m))) \<and> all_clean ms m"
    using assms(1) unfolding ms_def
  proof (induction ops arbitrary: m)
    case (Cons op ops)
    let ?m = "fst (effect (dispatch ins rem get con len emp clr op) m)"
    note op = op_refines [OF Cons.prems, of op]
    show ?case using Cons.IH [of ?m] op by (simp add: Let_def split_beta)
  qed simp
  then show "wf (effects ms m)" "view (effects ms m) = fst (ref_ops ops (view m))"
    "outcomes ms m = map Returned (snd (ref_ops ops (view m)))" "all_clean ms m" by blast+
qed

end

section \<open>Histories\<close>

text \<open>
  What a thread does to a map under the lock: a call of one of the methods above, a call of
  \<open>get_mut\<close>, and a store of \<open>v\<close> through the guard that \<open>get_mut(k)\<close> gave, which changes the
  value of \<open>k\<close> if there is one and never adds a key.
\<close>

datatype ('k, 'v) map_act = Call "('k, 'v) map_op" | GetMut 'k | Store 'k 'v

fun ref_act :: "('k, 'v) map_act \<Rightarrow> ('k \<rightharpoonup> 'v) \<Rightarrow> ('k \<rightharpoonup> 'v) \<times> 'v map_result option" where
  "ref_act (Call op) m = map_prod id Some (ref_op op m)"
| "ref_act (GetMut k) m = (m, Some (GotValue (m k)))"
| "ref_act (Store k v) m = (if m k = None then m else m(k \<mapsto> v), None)"

fun ref_acts :: "('k, 'v) map_act list \<Rightarrow> ('k \<rightharpoonup> 'v) \<Rightarrow> ('k \<rightharpoonup> 'v) \<times> 'v map_result option list" where
  "ref_acts [] m = (m, [])"
| "ref_acts (a # as) m =
     (let (m1, r) = ref_act a m; (m2, rs) = ref_acts as m1 in (m2, r # rs))"

text \<open>The access that an act leaves in the history.\<close>

fun act_event :: "(('k, 'v) map_op \<Rightarrow> ('m, 'v map_result) call) \<Rightarrow> ('k \<Rightarrow> ('m, 'v option) call) \<Rightarrow>
    ('k \<Rightarrow> 'v \<Rightarrow> 'm \<Rightarrow> 'm) \<Rightarrow> ('k, 'v) map_act \<Rightarrow> ('m, 'v map_result) event \<Rightarrow> bool" where
  "act_event call getm store (Call op) e = event_of (call op) e"
| "act_event call getm store (GetMut k) e = event_of (map_call GotValue (getm k)) e"
| "act_event call getm store (Store k v) e \<longleftrightarrow> e = EvModify (store k v)"

text \<open>The first access of a history that is the access of a call.\<close>

lemma replay_call:
  assumes "event_of m e" "replay (e # es) c = Some c'"
  shows "replay es (fst (effect m c)) = Some c'" "event_value e = Some (snd (effect m c))"
  using assms by (cases m; cases e; auto split: if_splits)+

locale guarded_map = sync_map wf view ins rem get con len emp clr
  for wf :: "'m \<Rightarrow> bool" and view :: "'m \<Rightarrow> 'k \<rightharpoonup> 'v" and ins rem get con len emp clr +
  fixes getm :: "'k \<Rightarrow> ('m, 'v option) call"
    and store :: "'k \<Rightarrow> 'v \<Rightarrow> 'm \<Rightarrow> 'm"
  assumes getm_law: "wf m \<Longrightarrow> effect (getm k) m = (m, Returned (view m k))"
    and store_law: "wf m \<Longrightarrow> wf (store k v m) \<and>
      view (store k v m) = (if view m k = None then view m else (view m)(k \<mapsto> v))"
begin

lemma act_refines:
  assumes "wf m" "act_event (dispatch ins rem get con len emp clr) getm store a e"
    "replay (e # es) m = Some m'"
  obtains m1 where "replay es m1 = Some m'" "wf m1" "view m1 = fst (ref_act a (view m))"
    "event_value e = map_option Returned (snd (ref_act a (view m)))"
proof (cases a)
  case (Call op)
  let ?c = "dispatch ins rem get con len emp clr op"
  have e: "event_of ?c e" using assms(2) Call by simp
  show ?thesis using op_refines [OF assms(1), of op] replay_call [OF e assms(3)] Call
    by (intro that [of "fst (effect ?c m)"]) auto
next
  case (GetMut k)
  then have e: "event_of (map_call GotValue (getm k)) e" using assms(2) by simp
  show ?thesis using getm_law [OF assms(1), of k] replay_call [OF e assms(3)] assms(1) GetMut
    by (intro that [of m]) (auto simp: effect_map_call)
next
  case (Store k v)
  then show ?thesis using assms store_law [OF assms(1), of k v] by (intro that [of "store k v m"]) auto
qed

text \<open>
  Any number of threads whose calls interleave in any way: if the accesses of the history are
  those of the acts \<open>as\<close>, in that order, then every call has returned what the reference map
  returns, and the contents are the reference map's.
\<close>

lemma history_refines:
  assumes "mutex_laws M" "reach M m s" "wf m"
    "list_all2 (act_event (dispatch ins rem get con len emp clr) getm store) as (hist s)"
  shows "wf (dirty s) \<and> view (dirty s) = fst (ref_acts as (view m)) \<and>
    map event_value (hist s) = map (map_option Returned) (snd (ref_acts as (view m)))"
proof -
  have "wf c \<and> view c = fst (ref_acts as (view m)) \<and>
      map event_value es = map (map_option Returned) (snd (ref_acts as (view m)))"
    if "replay es m = Some c" "wf m"
      "list_all2 (act_event (dispatch ins rem get con len emp clr) getm store) as es" for es c m
    using that
  proof (induction as arbitrary: es m)
    case (Cons a as)
    then obtain e es' where es: "es = e # es'"
      "act_event (dispatch ins rem get con len emp clr) getm store a e"
      "list_all2 (act_event (dispatch ins rem get con len emp clr) getm store) as es'"
      by (auto simp: list_all2_Cons1)
    obtain m1 where "replay es' m1 = Some c" "wf m1" "view m1 = fst (ref_act a (view m))"
      "event_value e = map_option Returned (snd (ref_act a (view m)))"
      using act_refines [OF Cons.prems(2) es(2)] Cons.prems(1) es(1) by metis
    then show ?case using Cons.IH [OF _ _ es(3)] es(1) by (auto simp: Let_def split_beta)
  qed simp
  from this [OF replay_reach [OF assms(1,2)] assms(3,4)] show ?thesis .
qed

end

section \<open>A map behind the lock\<close>

text \<open>
  The two contracts together: threads that make calls one after the other see the reference
  map, whatever threads they are.
\<close>

locale shared_map = sync_map wf view ins rem get con len emp clr +
    lock_service usable contents result run
  for wf :: "'m \<Rightarrow> bool" and view :: "'m \<Rightarrow> 'k \<rightharpoonup> 'v" and ins rem get con len emp clr
    and usable :: "'s \<Rightarrow> bool" and contents :: "'s \<Rightarrow> 'm"
    and result :: "'s \<Rightarrow> tid \<Rightarrow> 'v map_result outcome option" and run
begin

lemma shared_run:
  fixes ops :: "('k, 'v) map_op list" and ts :: "tid list"
  assumes "usable s" "wf (contents s)"
  defines "s' \<equiv> fold (\<lambda>(t, m). run t m) (zip ts (map (dispatch ins rem get con len emp clr) ops)) s"
  assumes "length ts = length ops"
  shows "usable s' \<and> wf (contents s') \<and> view (contents s') = fst (ref_ops ops (view (contents s))) \<and>
    result (run t (dispatch ins rem get con len emp clr op) s') t =
      Some (Returned (snd (ref_op op (fst (ref_ops ops (view (contents s)))))))"
proof -
  let ?ms = "map (dispatch ins rem get con len emp clr) ops"
  have snd: "map snd (zip ts ?ms) = ?ms" using assms(4) by simp
  note ops = ops_refine [OF assms(2), of ops]
  note run = run_all [OF assms(1), of "zip ts ?ms", unfolded snd, folded s'_def, OF ops(4)]
  note op = op_refines [OF ops(1), of op]
  show ?thesis
    using run ops(1,2) op run_result [of s' "dispatch ins rem get con len emp clr op" t] by simp
qed

end

text \<open>A key type whose code never panics.\<close>

definition calm :: "'m \<Rightarrow> 'k \<Rightarrow> bool" where
  "calm m k = False"

section \<open>Association lists\<close>

lemma map_of_map_prod: "map_of (map (map_prod id f) m) k = map_option f (map_of m k)"
  by (induction m) auto

text \<open>An association list is determined by its keys, in order, and the function it stands for.\<close>

lemma map_of_inject_keys:
  assumes "map fst xs = map fst ys" "distinct (map fst ys)" "\<And>k. map_of xs k = map_of ys k"
  shows "xs = ys"
proof (rule nth_equalityI)
  show len: "length xs = length ys" using arg_cong [OF assms(1), of length] by simp
  fix i
  assume i: "i < length xs"
  have key: "fst (xs ! i) = fst (ys ! i)" using assms(1) i len by (metis nth_map)
  have "map_of xs (fst (xs ! i)) = Some (snd (xs ! i))" "map_of ys (fst (ys ! i)) = Some (snd (ys ! i))"
    using assms(1,2) i len by (simp_all add: map_of_eq_Some_iff)
  then show "xs ! i = ys ! i" using assms(3) key by (simp add: prod_eq_iff)
qed

section \<open>Iterators\<close>

text \<open>
  The iterators of the maps are the library's iterators (field \<open>inner\<close>) with the counter of a
  slot or the write lock beside them: what is left of the library's iterator is the list of the
  items that are still to come.
\<close>

fun entry_next :: "'a list \<Rightarrow> 'a option \<times> 'a list" where
  "entry_next [] = (None, [])"
| "entry_next (x # xs) = (Some x, xs)"

record 'a map_iter =
  mi_count :: nat
  mi_inner :: "'a list"

record 'a map_iter_mut =
  mm_inner :: "'a list"

definition map_iter_next :: "'a map_iter \<Rightarrow> 'a option \<times> 'a map_iter" where
  "map_iter_next it = (let (x, inner) = entry_next (mi_inner it) in (x, it\<lparr>mi_inner := inner\<rparr>))"

definition map_iter_mut_next :: "'a map_iter_mut \<Rightarrow> 'a option \<times> 'a map_iter_mut" where
  "map_iter_mut_next it = (let (x, inner) = entry_next (mm_inner it) in (x, it\<lparr>mm_inner := inner\<rparr>))"

lemma map_iter_mut_next_simps [simp]:
  "map_iter_mut_next \<lparr>mm_inner = []\<rparr> = (None, \<lparr>mm_inner = []\<rparr>)"
  "map_iter_mut_next \<lparr>mm_inner = x # xs\<rparr> = (Some x, \<lparr>mm_inner = xs\<rparr>)"
  by (simp_all add: map_iter_mut_next_def)

lemma map_iter_mut_next_shorter:
  "(Some x, it') = map_iter_mut_next it \<Longrightarrow> length (mm_inner it') < length (mm_inner it)"
  by (cases "mm_inner it") (auto simp: map_iter_mut_next_def)

text \<open>A client's loop over a write iterator, with \<open>upd\<close> as its body.\<close>

function for_each_entry :: "('a \<Rightarrow> 'm \<Rightarrow> 'm) \<Rightarrow> 'a map_iter_mut \<Rightarrow> 'm \<Rightarrow> 'm" where
  "for_each_entry upd it m =
     (case map_iter_mut_next it of
        (None, _) \<Rightarrow> m
      | (Some x, it') \<Rightarrow> for_each_entry upd it' (upd x m))"
  by pat_completeness auto
termination
  by (relation "measure (\<lambda>(upd, it, m). length (mm_inner it))") (auto dest: map_iter_mut_next_shorter)

declare for_each_entry.simps [simp del]

lemma for_each_entry_simps [simp]:
  "for_each_entry upd \<lparr>mm_inner = []\<rparr> m = m"
  "for_each_entry upd \<lparr>mm_inner = x # xs\<rparr> m = for_each_entry upd \<lparr>mm_inner = xs\<rparr> (upd x m)"
  by (subst for_each_entry.simps, simp)+

end
