(* ===== verification/Sync_Hash_Map.thy ===== *)
theory Sync_Hash_Map
  imports Map_Contract "HOL-Library.Finite_Map"
begin

text \<open>
  \<open>SyncHashMap\<close> (\<open>src/src/sync/map_hash.rs\<close>): the contents are a \<open>std::collections::HashMap\<close>,
  modelled as a finite map.  \<open>kp m k\<close>: the key type's \<open>Hash\<close> or \<open>Eq\<close> panics when \<open>k\<close> is looked
  up in \<open>m\<close>; the map is then as it was.  \<open>ord m\<close>: the order in which the table of \<open>m\<close> is
  iterated, which the library does not specify.
\<close>

section \<open>Construction\<close>

text \<open>
  \<open>struct SyncHashMap\<close>, and the two methods that \<open>map_hash.rs\<close> has its own copy of, with the text
  of those of \<open>vec.rs\<close>.
\<close>

type_synonym ('k, 'v, 'l) SyncHashMap = "(('k, 'v) fmap, 'l) container"

definition SyncHashMap_begin_read :: "'l mutex_ops \<Rightarrow> tid \<Rightarrow> (('k, 'v) fmap, 'r) pc \<Rightarrow>
    (('k, 'v) fmap, 'l, 'r) sys \<Rightarrow> (('k, 'v) fmap, 'l, 'r) sys option" where
  "SyncHashMap_begin_read = begin_read_step"

definition SyncHashMap_begin_write :: "'l mutex_ops \<Rightarrow> tid \<Rightarrow> (('k, 'v) fmap, 'r) pc \<Rightarrow>
    (('k, 'v) fmap, 'l, 'r) sys \<Rightarrow> (('k, 'v) fmap, 'l, 'r) sys option" where
  "SyncHashMap_begin_write = begin_write_step"

definition SyncHashMap_with_map ::
    "'l mutex_ops \<Rightarrow> ('k, 'v) fmap \<Rightarrow> usize \<Rightarrow> ('k, 'v, 'l) SyncHashMap \<times> usize" where
  "SyncHashMap_with_map M m next = (container_with M next m, next + 1)"

definition SyncHashMap_new :: "'l mutex_ops \<Rightarrow> usize \<Rightarrow> ('k, 'v, 'l) SyncHashMap \<times> usize" where
  "SyncHashMap_new M next = (container_with M next fmempty, next + 1)"

definition SyncHashMap_new_arc ::
    "'l mutex_ops \<Rightarrow> usize \<Rightarrow> ('k, 'v, 'l) SyncHashMap \<times> usize" where
  "SyncHashMap_new_arc M next = SyncHashMap_new M next"

definition SyncHashMap_with_capacity ::
    "'l mutex_ops \<Rightarrow> usize \<Rightarrow> usize \<Rightarrow> ('k, 'v, 'l) SyncHashMap \<times> usize" where
  "SyncHashMap_with_capacity M capacity next = (container_with M next fmempty, next + 1)"

definition SyncHashMap_from ::
    "'l mutex_ops \<Rightarrow> ('k, 'v) fmap \<Rightarrow> usize \<Rightarrow> ('k, 'v, 'l) SyncHashMap \<times> usize" where
  "SyncHashMap_from M m next = SyncHashMap_with_map M m next"

text \<open>The trait method \<open>From::from\<close> calls the inherent one.\<close>

definition SyncHashMap_From ::
    "'l mutex_ops \<Rightarrow> ('k, 'v) fmap \<Rightarrow> usize \<Rightarrow> ('k, 'v, 'l) SyncHashMap \<times> usize" where
  "SyncHashMap_From M arg next = SyncHashMap_from M arg next"

definition SyncHashMap_default :: "'l mutex_ops \<Rightarrow> usize \<Rightarrow> ('k, 'v, 'l) SyncHashMap \<times> usize" where
  "SyncHashMap_default M next = SyncHashMap_new M next"

section \<open>Methods that take \<open>&self\<close>\<close>

definition SyncHashMap_insert ::
    "(('k, 'v) fmap \<Rightarrow> 'k \<Rightarrow> bool) \<Rightarrow> 'k \<Rightarrow> 'v \<Rightarrow> (('k, 'v) fmap, 'v option) call" where
  "SyncHashMap_insert kp k v = WriteCall (\<lambda>m.
     if kp m k then (m, WritePanic) else (fmupd k v m, Finished (fmlookup m k)))"

definition SyncHashMap_remove ::
    "(('k, 'v) fmap \<Rightarrow> 'k \<Rightarrow> bool) \<Rightarrow> 'k \<Rightarrow> (('k, 'v) fmap, 'v option) call" where
  "SyncHashMap_remove kp k = WriteCall (\<lambda>m.
     if kp m k then (m, WritePanic) else (fmdrop k m, Finished (fmlookup m k)))"

definition SyncHashMap_len :: "(('k, 'v) fmap, usize) call" where
  "SyncHashMap_len = ReadCall (\<lambda>m. Unpinned (of_nat (fcard (fmdom m))))"

definition SyncHashMap_is_empty :: "(('k, 'v) fmap, bool) call" where
  "SyncHashMap_is_empty = ReadCall (\<lambda>m. Unpinned (fcard (fmdom m) = 0))"

definition SyncHashMap_clear :: "(('k, 'v) fmap, unit) call" where
  "SyncHashMap_clear = WriteCall (\<lambda>m. (fmempty, Finished ()))"

text \<open>
  \<open>shrink_to_fit\<close> may move the entries to a smaller table, which hashes every key (\<open>hp m\<close>: the
  \<open>Hash\<close> of one of them panics); the map keeps its old table then.
\<close>

definition SyncHashMap_shrink_to_fit ::
    "(('k, 'v) fmap \<Rightarrow> bool) \<Rightarrow> (('k, 'v) fmap, unit) call" where
  "SyncHashMap_shrink_to_fit hp = WriteCall (\<lambda>m. (m, if hp m then WritePanic else Finished ()))"

definition SyncHashMap_get ::
    "(('k, 'v) fmap \<Rightarrow> 'k \<Rightarrow> bool) \<Rightarrow> 'k \<Rightarrow> (('k, 'v) fmap, 'v option) call" where
  "SyncHashMap_get kp k = ReadCall (\<lambda>m.
     if kp m k then ReadPanic
     else (case fmlookup m k of
             Some v \<Rightarrow> Pinned (Some v)
           | None \<Rightarrow> Unpinned None))"

definition SyncHashMap_get_mut ::
    "(('k, 'v) fmap \<Rightarrow> 'k \<Rightarrow> bool) \<Rightarrow> 'k \<Rightarrow> (('k, 'v) fmap, 'v option) call" where
  "SyncHashMap_get_mut kp k = WriteCall (\<lambda>m.
     if kp m k then (m, WritePanic)
     else (case fmlookup m k of
             Some v \<Rightarrow> (m, Held (Some v))
           | None \<Rightarrow> (m, Finished None)))"

text \<open>
  \<open>HashMapRefMut::deref_mut\<close>: a store of \<open>v\<close> through the guard on the value of \<open>k\<close>.  It
  changes an entry and never adds one.
\<close>

definition HashMapRefMut_store :: "'k \<Rightarrow> 'v \<Rightarrow> ('k, 'v) fmap \<Rightarrow> ('k, 'v) fmap" where
  "HashMapRefMut_store k v m = (if fmlookup m k = None then m else fmupd k v m)"

text \<open>
  \<open>HashMapRefMut\<close>, the guard that \<open>get_mut\<close> gives out: \<open>hash_ref_mut k\<close> is the one on the
  value of \<open>k\<close>.
\<close>

type_synonym ('k, 'v) HashMapRefMut = "(('k, 'v) fmap, 'v) ref_mut"

definition HashMapRefMut_new :: "(('k, 'v) fmap, 'v) write_guard \<Rightarrow> ('k, 'v) HashMapRefMut" where
  "HashMapRefMut_new inner = \<lparr>rf_inner = inner\<rparr>"

definition HashMapRefMut_deref :: "('k, 'v) HashMapRefMut \<Rightarrow> ('k, 'v) fmap \<Rightarrow> 'v" where
  "HashMapRefMut_deref g m = WriteGuard_deref (rf_inner g) m"

definition HashMapRefMut_deref_mut :: "('k, 'v) HashMapRefMut \<Rightarrow> 'v \<Rightarrow>
    (('k, 'v) fmap, 'l, 'r) sys \<Rightarrow> (('k, 'v) fmap, 'l, 'r) sys" where
  "HashMapRefMut_deref_mut g v s = WriteGuard_store (rf_inner g) v s"

definition HashMapRefMut_debug :: "('v \<Rightarrow> fmt_result option) \<Rightarrow> ('k, 'v) HashMapRefMut \<Rightarrow> ('k, 'v) fmap \<Rightarrow> fmt_result option" where
  "HashMapRefMut_debug dbg g m = dbg (WriteGuard_deref (rf_inner g) m)"

definition HashMapRefMut_display :: "('v \<Rightarrow> fmt_result option) \<Rightarrow> ('k, 'v) HashMapRefMut \<Rightarrow> ('k, 'v) fmap \<Rightarrow> fmt_result option" where
  "HashMapRefMut_display disp g m = disp (WriteGuard_deref (rf_inner g) m)"

definition HashMapRefMut_eq :: "('v \<Rightarrow> 'v \<Rightarrow> bool option) \<Rightarrow> ('k, 'v) HashMapRefMut \<Rightarrow> ('k, 'v) fmap \<Rightarrow>
    ('k, 'v) HashMapRefMut \<Rightarrow> ('k, 'v) fmap \<Rightarrow> bool option" where
  "HashMapRefMut_eq eq g m h n =
     eq (WriteGuard_deref (rf_inner g) m) (WriteGuard_deref (rf_inner h) n)"

definition hash_ref_mut :: "'k \<Rightarrow> ('k, 'v) HashMapRefMut" where
  "hash_ref_mut k = HashMapRefMut_new (WriteGuard_new (\<lambda>m. the (fmlookup m k)) (HashMapRefMut_store k))"

definition SyncHashMap_contains_key ::
    "(('k, 'v) fmap \<Rightarrow> 'k \<Rightarrow> bool) \<Rightarrow> 'k \<Rightarrow> (('k, 'v) fmap, bool) call" where
  "SyncHashMap_contains_key kp k = ReadCall (\<lambda>m.
     if kp m k then ReadPanic else Unpinned (fmlookup m k \<noteq> None))"

definition SyncHashMap_iter ::
    "(('k, 'v) fmap \<Rightarrow> ('k \<times> 'v) list) \<Rightarrow> (('k, 'v) fmap, ('k \<times> 'v) list) call" where
  "SyncHashMap_iter ord = ReadCall (\<lambda>m. Pinned (ord m))"

text \<open>\<open>HashMapIter\<close> holds the counter of the pinned slot and the library's iterator.\<close>

type_synonym ('k, 'v) HashMapIter = "('k \<times> 'v) map_iter"

definition HashMapIter_next :: "('k, 'v) HashMapIter \<Rightarrow> ('k \<times> 'v) option \<times> ('k, 'v) HashMapIter" where
  "HashMapIter_next it = map_iter_next it"

definition HashMapIter_drop :: "tid \<Rightarrow> ('k, 'v) HashMapIter \<Rightarrow>
    (('k, 'v) fmap, 'l, 'r) sys \<Rightarrow> (('k, 'v) fmap, 'l, 'r) sys" where
  "HashMapIter_drop t it s = drop_guard t (mi_count it) s"

text \<open>The write iterator: the keys whose entries are still to come.\<close>

definition SyncHashMap_iter_mut ::
    "(('k, 'v) fmap \<Rightarrow> ('k \<times> 'v) list) \<Rightarrow> (('k, 'v) fmap, 'k list) call" where
  "SyncHashMap_iter_mut ord = WriteCall (\<lambda>m. (m, Held (map fst (ord m))))"

type_synonym 'k HashMapIterMut = "'k map_iter_mut"

definition HashMapIterMut_next :: "'k HashMapIterMut \<Rightarrow> 'k option \<times> 'k HashMapIterMut" where
  "HashMapIterMut_next it = map_iter_mut_next it"

definition HashMapIterMut_deref :: "'k HashMapIterMut \<Rightarrow> 'k list" where
  "HashMapIterMut_deref it = mm_inner it"

definition HashMapIterMut_deref_mut :: "('k list \<Rightarrow> 'k list) \<Rightarrow> 'k HashMapIterMut \<Rightarrow> 'k HashMapIterMut" where
  "HashMapIterMut_deref_mut f it = it\<lparr>mm_inner := f (mm_inner it)\<rparr>"

definition SyncHashMap_dirty_ref :: "(('k, 'v) fmap, ('k, 'v) fmap) call" where
  "SyncHashMap_dirty_ref = ReadCall (\<lambda>m. Pinned m)"

text \<open>\<open>Index::index\<close>: no slot and no lock; a key that is not there panics.\<close>

definition SyncHashMap_index ::
    "(('k, 'v) fmap \<Rightarrow> 'k \<Rightarrow> bool) \<Rightarrow> 'k \<Rightarrow> (('k, 'v) fmap, 'v) call" where
  "SyncHashMap_index kp k = UnguardedCall (\<lambda>m.
     if kp m k then Panicked
     else (case fmlookup m k of Some v \<Rightarrow> Returned v | None \<Rightarrow> Panicked))"

section \<open>Methods that take \<open>&mut self\<close> or \<open>self\<close>\<close>

text \<open>\<open>None\<close>: the key type's code panics.\<close>

definition SyncHashMap_insert_mut :: "(('k, 'v) fmap \<Rightarrow> 'k \<Rightarrow> bool) \<Rightarrow> 'k \<Rightarrow> 'v \<Rightarrow>
    ('k, 'v) fmap \<Rightarrow> (('k, 'v) fmap \<times> 'v option) option" where
  "SyncHashMap_insert_mut kp k v m = (if kp m k then None else Some (fmupd k v m, fmlookup m k))"

definition SyncHashMap_remove_mut :: "(('k, 'v) fmap \<Rightarrow> 'k \<Rightarrow> bool) \<Rightarrow> 'k \<Rightarrow>
    ('k, 'v) fmap \<Rightarrow> (('k, 'v) fmap \<times> 'v option) option" where
  "SyncHashMap_remove_mut kp k m = (if kp m k then None else Some (fmdrop k m, fmlookup m k))"

definition SyncHashMap_clear_mut :: "('k, 'v) fmap \<Rightarrow> ('k, 'v) fmap" where
  "SyncHashMap_clear_mut m = fmempty"

definition SyncHashMap_shrink_to_fit_mut ::
    "(('k, 'v) fmap \<Rightarrow> bool) \<Rightarrow> ('k, 'v) fmap \<Rightarrow> ('k, 'v) fmap option" where
  "SyncHashMap_shrink_to_fit_mut hp m = (if hp m then None else Some m)"

definition SyncHashMap_into_inner :: "('k, 'v, 'l) SyncHashMap \<Rightarrow> ('k, 'v) fmap" where
  "SyncHashMap_into_inner s = dirty s"

definition SyncHashMap_into_iter ::
    "(('k, 'v) fmap \<Rightarrow> ('k \<times> 'v) list) \<Rightarrow> ('k, 'v, 'l) SyncHashMap \<Rightarrow> ('k \<times> 'v) list" where
  "SyncHashMap_into_iter ord s = ord (SyncHashMap_into_inner s)"

text \<open>The two \<open>IntoIterator\<close>: a map that is owned, and a reference to one.\<close>

definition SyncHashMap_IntoIter ::
    "(('k, 'v) fmap \<Rightarrow> ('k \<times> 'v) list) \<Rightarrow> ('k, 'v, 'l) SyncHashMap \<Rightarrow> ('k \<times> 'v) list" where
  "SyncHashMap_IntoIter ord s = SyncHashMap_into_iter ord s"

definition SyncHashMap_ref_IntoIter ::
    "(('k, 'v) fmap \<Rightarrow> ('k \<times> 'v) list) \<Rightarrow> (('k, 'v) fmap, ('k \<times> 'v) list) call" where
  "SyncHashMap_ref_IntoIter ord = SyncHashMap_iter ord"

section \<open>Trait implementations\<close>

definition SyncHashMap_serialize ::
    "(('k, 'v) fmap \<Rightarrow> 'o option) \<Rightarrow> (('k, 'v) fmap, 'o) call" where
  "SyncHashMap_serialize ser = ReadCall (\<lambda>m. under_guard (ser m))"

definition SyncHashMap_deserialize :: "'l mutex_ops \<Rightarrow> ('i \<Rightarrow> 'e + ('k, 'v) fmap) \<Rightarrow> 'i \<Rightarrow>
    usize \<Rightarrow> 'e + ('k, 'v, 'l) SyncHashMap \<times> usize" where
  "SyncHashMap_deserialize M de x next =
     (case de x of Inl e \<Rightarrow> Inl e | Inr m \<Rightarrow> Inr (SyncHashMap_from M m next))"

definition SyncHashMap_fmt :: "(('k, 'v) fmap \<Rightarrow> fmt_result option) \<Rightarrow> (('k, 'v) fmap, fmt_result) call" where
  "SyncHashMap_fmt fmt = ReadCall (\<lambda>m. under_guard (fmt m))"

text \<open>
  \<open>Clone::clone\<close>: a copy of the contents under a temporary \<open>dirty_ref\<close>, then a new container.
  \<open>cl\<close> is the clone of \<open>HashMap\<close>; \<open>None\<close>: the \<open>Clone\<close> of a key or a value panics.
\<close>

definition SyncHashMap_copy :: "(('k, 'v) fmap \<Rightarrow> ('k, 'v) fmap option) \<Rightarrow>
    (('k, 'v) fmap, ('k, 'v) fmap) call" where
  "SyncHashMap_copy cl = ReadCall (\<lambda>m. under_guard (cl m))"

definition SyncHashMap_clone :: "'l mutex_ops \<Rightarrow> (('k, 'v) fmap \<Rightarrow> ('k, 'v) fmap option) \<Rightarrow> tid \<Rightarrow>
    (('k, 'v) fmap, 'l, ('k, 'v) fmap) sys \<Rightarrow> usize \<Rightarrow> (('k, 'v) fmap, 'l, ('k, 'v) fmap) sys \<times>
      (('k, 'v, 'l) SyncHashMap \<times> usize) option" where
  "SyncHashMap_clone M cl t s next =
     (let s' = exec M t (SyncHashMap_copy cl) s in
      (s', case ret s' t of Some (Returned m) \<Rightarrow> Some (SyncHashMap_from M m next) | _ \<Rightarrow> None))"

section \<open>The contract\<close>

lemmas SyncHashMap_defs = SyncHashMap_insert_def SyncHashMap_remove_def SyncHashMap_len_def
  SyncHashMap_is_empty_def SyncHashMap_clear_def SyncHashMap_shrink_to_fit_def
  SyncHashMap_get_def SyncHashMap_get_mut_def SyncHashMap_contains_key_def SyncHashMap_iter_def
  SyncHashMap_iter_mut_def SyncHashMap_dirty_ref_def SyncHashMap_index_def

lemma fmdom_card: "card (dom (fmlookup m)) = fcard (fmdom m)"
  by (simp add: fcard.rep_eq fmdom.rep_eq)

interpretation hash: sync_map "\<lambda>_. True" fmlookup "SyncHashMap_insert calm" "SyncHashMap_remove calm"
  "SyncHashMap_get calm" "SyncHashMap_contains_key calm" SyncHashMap_len SyncHashMap_is_empty
  SyncHashMap_clear
  by unfold_locales
    (auto simp: SyncHashMap_defs calm_def releases_def fmdom_card fmdom.rep_eq fun_eq_iff
      simp flip: fmdom_card split: option.splits)

interpretation hash_shared: shared_map "\<lambda>_. True" fmlookup "SyncHashMap_insert calm"
  "SyncHashMap_remove calm" "SyncHashMap_get calm" "SyncHashMap_contains_key calm" SyncHashMap_len
  SyncHashMap_is_empty SyncHashMap_clear
  "\<lambda>s. mutex_laws M \<and> reach M c s \<and> quiet s" dirty ret "exec_and_drop M" for M c
  by intro_locales

interpretation hash_guarded: guarded_map "\<lambda>_. True" fmlookup "SyncHashMap_insert calm"
  "SyncHashMap_remove calm" "SyncHashMap_get calm" "SyncHashMap_contains_key calm" SyncHashMap_len
  SyncHashMap_is_empty SyncHashMap_clear "SyncHashMap_get_mut calm" HashMapRefMut_store
  by unfold_locales
    (auto simp: SyncHashMap_defs calm_def HashMapRefMut_store_def fun_eq_iff split: option.splits)

definition hash_call :: "('k, 'v) map_op \<Rightarrow> (('k, 'v) fmap, 'v map_result) call" where
  "hash_call = dispatch (SyncHashMap_insert calm) (SyncHashMap_remove calm) (SyncHashMap_get calm)
     (SyncHashMap_contains_key calm) SyncHashMap_len SyncHashMap_is_empty SyncHashMap_clear"

section \<open>Correctness\<close>

text \<open>
  Property C16.  \<open>SyncHashMap\<close> is linearizable with respect to the partial function: in every
  reachable state, if the accesses so far are those of the acts \<open>as\<close> in that order (calls of the
  methods, of \<open>get_mut\<close>, and stores through its guards, whatever threads made them and however
  they interleave), every call has returned what the partial function gives, and the contents are
  the partial function that \<open>as\<close> leave.
\<close>

theorem hash_linearizes:
  assumes "mutex_laws M" and "reach M m s"
    and "list_all2 (act_event hash_call (SyncHashMap_get_mut calm) HashMapRefMut_store) as (hist s)"
  shows "fmlookup (dirty s) = fst (ref_acts as (fmlookup m)) \<and>
    map event_value (hist s) = map (map_option Returned) (snd (ref_acts as (fmlookup m)))"
  using hash_guarded.history_refines [OF assms(1,2) TrueI, of as] assms(3)
  by (simp add: hash_call_def)

text \<open>
  Calls that threads make one after the other all return: after any of them the
  container is free again, holds what the partial function holds, and the next call, of any
  thread, returns what the partial function gives.
\<close>

theorem hash_calls_in_turn:
  fixes ops :: "('k, 'v) map_op list"
  assumes "mutex_laws M" and "reach M m s" and "quiet s" and "length ts = length ops"
  defines "s' \<equiv> fold (\<lambda>(t, m). exec_and_drop M t m) (zip ts (map hash_call ops)) s"
  shows "quiet s' \<and> fmlookup (dirty s') = fst (ref_ops ops (fmlookup (dirty s))) \<and>
    ret (exec_and_drop M t (hash_call op) s') t =
      Some (Returned (snd (ref_op op (fst (ref_ops ops (fmlookup (dirty s)))))))"
  using hash_shared.shared_run [of M m s ts ops t op] assms by (simp add: hash_call_def)

text \<open>
  A panic in the key type's code under a writing method unwinds: the map is as it
  was and the container is free.
\<close>

theorem hash_write_panic:
  assumes "mutex_laws M" and "reach M c s" and "quiet s" and "kp (dirty s) k"
    and "m \<in> {SyncHashMap_insert kp k v, SyncHashMap_remove kp k, SyncHashMap_get_mut kp k}"
  shows "ret (exec M t m s) t = Some Panicked \<and> dirty (exec M t m s) = dirty s \<and> quiet (exec M t m s)"
proof -
  have "effect m (dirty s) = (dirty s, Panicked)" "releases m (dirty s)"
    using assms(4,5) by (auto simp: SyncHashMap_defs releases_def)
  then show ?thesis using exec_effect exec_quiet assms(1-3) by (metis fst_conv snd_conv)
qed

text \<open>
  The same panic under \<open>get\<close> (or \<open>contains_key\<close>, next) loses the reader slot:
  from then on no thread can write, whatever the threads do.
\<close>

theorem hash_get_panic:
  assumes "mutex_laws M" and "reach M c s" and "quiet s" and "kp (dirty s) k"
    and "later M (exec M t (SyncHashMap_get kp k) s) s'"
  shows "ret (exec M t (SyncHashMap_get kp k) s) t = Some Panicked \<and>
    dirty s' = dirty s \<and> \<not> may_write s' u"
proof -
  let ?m = "SyncHashMap_get kp k" and ?s = "exec M t (SyncHashMap_get kp k) s"
  have "completed t ?m s ?s" by (rule exec_completes [OF assms(1-3)])
  then have "ret ?s t = Some Panicked" "dirty ?s = dirty s" "leaked ?s \<noteq> []"
    using assms(4) by (auto simp: completed_def kept_def SyncHashMap_defs)
  then show ?thesis
    using leaked_freezes [OF assms(1) exec_reach [OF assms(2,3)] _ assms(5)] by metis
qed

text \<open>
  The guard of \<open>get_mut\<close>: it gives the present value of the key; after a store through it, it
  gives the stored value; once it is dropped the container is free, and the map differs at that
  key only.
\<close>

lemma hash_ref_mut_law: "fmlookup m k \<noteq> None \<Longrightarrow> place_law (rf_inner (hash_ref_mut k)) m"
  by (auto simp: place_law_def hash_ref_mut_def HashMapRefMut_new_def WriteGuard_new_def
      HashMapRefMut_store_def)

theorem hash_get_mut_store:
  fixes t :: tid and k :: 'k and v :: 'v
  assumes "mutex_laws M" and "reach M c s" and "quiet s" and "fmlookup (dirty s) k = Some x"
  defines "s1 \<equiv> exec M t (SyncHashMap_get_mut calm k) s"
  defines "s2 \<equiv> HashMapRefMut_deref_mut (hash_ref_mut k) v s1"
  defines "s3 \<equiv> run_alone M t 2 (drop_write_guard t s2)"
  shows "ret s1 t = Some (Returned (Some x)) \<and> wguard s1 t \<and>
    HashMapRefMut_deref (hash_ref_mut k) (dirty s1) = x \<and>
    HashMapRefMut_deref (hash_ref_mut k) (dirty s2) = v \<and>
    quiet s3 \<and> fmlookup (dirty s3) = (fmlookup (dirty s))(k \<mapsto> v)"
proof -
  have hold: "leaves (SyncHashMap_get_mut calm k) (dirty s) = WriteHold"
    and eff: "effect (SyncHashMap_get_mut calm k) (dirty s) = (dirty s, Returned (Some x))"
    using assms(4) by (simp_all add: SyncHashMap_defs calm_def)
  have 1: "ret s1 t = Some (Returned (Some x))" "wguard s1 t" "dirty s1 = dirty s"
    using exec_completes [OF assms(1-3), of t "SyncHashMap_get_mut calm k"] eff hold
    by (simp_all add: s1_def completed_def kept_def)
  have s2: "s2 = write_through (HashMapRefMut_store k v) s1"
    by (simp add: s2_def HashMapRefMut_deref_mut_def WriteGuard_store_def hash_ref_mut_def
        HashMapRefMut_new_def WriteGuard_new_def)
  have "s3 = use_write_guard M t (HashMapRefMut_store k v) s1" by (simp add: s3_def s2 use_write_guard_def)
  then have "quiet s3" "dirty s3 = HashMapRefMut_store k v (dirty s)"
    using use_write_guard_quiet [OF assms(1-3) hold, of t "HashMapRefMut_store k v"] eff
    by (simp_all add: s1_def)
  then show ?thesis using 1 assms(4)
    by (simp add: HashMapRefMut_deref_def hash_ref_mut_def HashMapRefMut_new_def WriteGuard_new_def
        WriteGuard_deref_def s2 write_through_def log_event_def HashMapRefMut_store_def fun_eq_iff)
qed

text \<open>
  The guard of \<open>get\<close> never dangles: from the end of the call and as long as it is alive,
  whatever the other threads do meanwhile, the map has the key with the value that the guard
  gave at first.
\<close>

theorem hash_get_guard_valid:
  assumes "mutex_laws M" and "reach M c s" and "pc s t = RFinish i b x"
    and "SyncHashMap_get kp k = ReadCall b" and "b x = Pinned (Some v)"
    and "rw_step M t s s1" and "has_room s1" and "holding M t i s1 s2"
  shows "ret s1 t = Some (Returned (Some v)) \<and> fmlookup (dirty s2) k = Some v"
proof -
  have "dirty s2 = x" "ret s1 t = Some (Returned (Some v))"
    using pinned_contents [where b = b, OF assms(1-3,5-8)] by blast+
  moreover have "fmlookup x k = Some v"
    using assms(4,5) by (auto simp: SyncHashMap_get_def split: if_splits option.splits)
  ultimately show ?thesis by simp
qed

text \<open>The iteration order lists every entry once.\<close>

definition order_of :: "(('k, 'v) fmap \<Rightarrow> ('k \<times> 'v) list) \<Rightarrow> bool" where
  "order_of ord \<longleftrightarrow> (\<forall>m. distinct (map fst (ord m)) \<and> map_of (ord m) = fmlookup m)"

text \<open>A client's loop \<open>for (_, v) in m.iter_mut() { *v = f(*v) }\<close>.\<close>

definition hash_for_each :: "('v \<Rightarrow> 'v) \<Rightarrow> 'k HashMapIterMut \<Rightarrow> ('k, 'v) fmap \<Rightarrow> ('k, 'v) fmap" where
  "hash_for_each f = for_each_entry (\<lambda>k m.
     case fmlookup m k of None \<Rightarrow> m | Some v \<Rightarrow> HashMapRefMut_store k (f v) m)"

lemma hash_for_each_lookup:
  "distinct ks \<Longrightarrow> fmlookup (hash_for_each f \<lparr>mm_inner = ks\<rparr> m) k =
    (if k \<in> set ks then map_option f (fmlookup m k) else fmlookup m k)"
  by (induction ks arbitrary: m)
    (auto simp: hash_for_each_def HashMapRefMut_store_def split: option.splits)

text \<open>
  \<open>iter_mut\<close> visits every entry once, in whatever order: a loop that assigns \<open>f\<close>
  of it to each value turns the map into its image under \<open>f\<close>, and dropping the iterator frees
  the container.
\<close>

theorem hash_iter_mut_visits_all:
  assumes "mutex_laws M" and "reach M c s" and "quiet s" and "order_of ord"
    and "ret (exec M t (SyncHashMap_iter_mut ord) s) t = Some (Returned it)"
  shows "dirty (use_write_guard M t (hash_for_each f \<lparr>mm_inner = it\<rparr>) (exec M t (SyncHashMap_iter_mut ord) s)) =
      fmmap f (dirty s) \<and>
    quiet (use_write_guard M t (hash_for_each f \<lparr>mm_inner = it\<rparr>) (exec M t (SyncHashMap_iter_mut ord) s))"
proof -
  have it: "it = map fst (ord (dirty s))"
    using exec_effect(2) [OF assms(1-3), of t "SyncHashMap_iter_mut ord"] assms(5)
    by (simp add: SyncHashMap_defs)
  have ord: "distinct it" "map_of (ord (dirty s)) = fmlookup (dirty s)"
    using assms(4) it by (simp_all add: order_of_def)
  have "fmlookup (dirty s) k = None" if "k \<notin> set it" for k
    using that it by (simp add: ord(2) [symmetric] map_of_eq_None_iff)
  then have "hash_for_each f \<lparr>mm_inner = it\<rparr> (dirty s) = fmmap f (dirty s)"
    by (intro fmap_ext) (auto simp: hash_for_each_lookup [OF ord(1)])
  moreover have "leaves (SyncHashMap_iter_mut ord) (dirty s) = WriteHold" by (simp add: SyncHashMap_defs)
  ultimately show ?thesis
    using use_write_guard_quiet [OF assms(1-3), of "SyncHashMap_iter_mut ord" t "hash_for_each f \<lparr>mm_inner = it\<rparr>"]
    by (simp add: SyncHashMap_defs)
qed

section \<open>Instances\<close>

definition map1 :: "((nat, nat) fmap, tid option, 'r) sys" where
  "map1 = sys_with owner_mutex 1 (fmupd 1 10 fmempty)"

lemma map1: "reach owner_mutex (fmupd 1 10 fmempty) map1" "quiet map1" "dirty map1 = fmupd 1 10 fmempty"
  by (simp_all add: map1_def reach_new quiet_new)

lemmas on_map1 = owner_mutex_laws map1(1,2)

text \<open>
  An insertion, then a store through the guard of \<open>get_mut\<close> by another thread, and a lookup
  that has started before the guard was dropped and retries until then.
\<close>

lemma hash_three_calls:
  "\<exists>s :: ((nat, nat) fmap, tid option, nat map_result) sys. reach owner_mutex fmempty s \<and>
    list_all2 (act_event hash_call (SyncHashMap_get_mut calm) HashMapRefMut_store)
      [Call (OpInsert 1 10), GetMut 1, Store 1 11, Call (OpGet 1)] (hist s)"
  by (rule reach_by_schedule [where i = 1 and as = "[(0, Start (hash_call (OpInsert 1 10))),
      (0, Run), (0, Run), (0, Run), (0, Run), (0, Run), (0, Run), (0, Run), (0, Run), (0, Run),
      (1, Start (map_call GotValue (SyncHashMap_get_mut calm 1))), (1, Run), (1, Run), (1, Run),
      (1, Run), (1, Run), (1, Run), (1, Run), (0, Start (hash_call (OpGet 1))), (0, Run), (0, Run),
      (0, Run), (1, WriteThrough (HashMapRefMut_store 1 11)), (0, Run), (0, Run), (0, Run),
      (1, DropWriteGuard), (1, Run), (1, Run), (0, Run), (0, Run), (0, Run)]"])
    (simp_all add: perform_def perform_all_append advance_def action_defs Let_def hash_call_def
      SyncHashMap_defs calm_def HashMapRefMut_store_def)

theorem hash_linearizes_witness:
  "\<exists>s :: ((nat, nat) fmap, tid option, nat map_result) sys. reach owner_mutex fmempty s \<and>
    fmlookup (dirty s) 1 = Some 11 \<and>
    map event_value (hist s) = [Some (Returned (GotValue None)), Some (Returned (GotValue (Some 10))),
      None, Some (Returned (GotValue (Some 11)))]"
proof -
  obtain s :: "((nat, nat) fmap, tid option, nat map_result) sys" where s: "reach owner_mutex fmempty s"
    "list_all2 (act_event hash_call (SyncHashMap_get_mut calm) HashMapRefMut_store)
      [Call (OpInsert 1 10), GetMut 1, Store 1 11, Call (OpGet 1)] (hist s)"
    using hash_three_calls by blast
  show ?thesis using hash_linearizes [OF owner_mutex_laws s] s(1) by auto
qed

theorem hash_calls_in_turn_witness:
  "ret (exec_and_drop owner_mutex 1 (hash_call (OpRemove 1)) map1) 1 =
    Some (Returned (GotValue (Some 10)))"
  using hash_calls_in_turn [OF on_map1, where ts = "[]" and ops = "[]" and t = 1 and op = "OpRemove 1"]
  by (simp add: map1(3))

theorem hash_write_panic_witness:
  "dirty (exec owner_mutex 0 (SyncHashMap_insert (\<lambda>m k. k = 13) 13 1) map1) = fmupd 1 10 fmempty"
  using hash_write_panic [OF on_map1, where kp = "\<lambda>m k. k = 13" and k = 13 and v = 1 and t = 0
      and m = "SyncHashMap_insert (\<lambda>m k. k = 13) 13 1"] by (simp add: map1(3))

theorem hash_get_panic_witness:
  "ret (exec owner_mutex 0 (SyncHashMap_get (\<lambda>m k. k = 13) 13) map1) 0 = Some Panicked"
  using hash_get_panic [OF on_map1 _ later_refl, where kp = "\<lambda>m k. k = 13" and k = 13 and t = 0] by simp

theorem hash_get_mut_store_witness:
  "quiet (run_alone owner_mutex 0 2 (drop_write_guard 0
    (HashMapRefMut_deref_mut (hash_ref_mut 1) 7 (exec owner_mutex 0 (SyncHashMap_get_mut calm 1) map1))))"
  using hash_get_mut_store [OF on_map1, where k = 1 and x = 10 and v = 7 and t = 0] by (simp add: map1(3))

text \<open>An order of iteration for keys that are numbers: ascending.\<close>

definition ascending :: "(nat, 'v) fmap \<Rightarrow> (nat \<times> 'v) list" where
  "ascending m = sorted_list_of_fmap m"

lemma ascending_order: "order_of (ascending :: (nat, 'v) fmap \<Rightarrow> _)"
proof -
  have "map fst (sorted_list_of_fmap m) = sorted_list_of_fset (fmdom m)" for m :: "(nat, 'v) fmap"
    by (simp add: sorted_list_of_fmap_def comp_def)
  then have "distinct (map fst (sorted_list_of_fmap m))" for m :: "(nat, 'v) fmap"
    by (simp add: sorted_list_of_fset.rep_eq)
  moreover have "map_of (sorted_list_of_fmap m) = fmlookup m" for m :: "(nat, 'v) fmap"
    by (simp add: map_of_sorted_list)
  ultimately show ?thesis by (simp add: order_of_def ascending_def)
qed

theorem hash_iter_mut_visits_all_witness:
  "dirty (use_write_guard owner_mutex 0 (hash_for_each Suc \<lparr>mm_inner = [1]\<rparr>)
    (exec owner_mutex 0 (SyncHashMap_iter_mut ascending) map1)) = fmmap Suc (fmupd 1 10 fmempty)"
proof -
  have "ret (exec owner_mutex 0 (SyncHashMap_iter_mut ascending) map1) 0 = Some (Returned [1])"
    using exec_effect(2) [OF on_map1, of 0 "SyncHashMap_iter_mut ascending"]
    by (simp add: SyncHashMap_defs map1(3) ascending_def sorted_list_of_fmap_def sorted_list_of_fset.rep_eq)
  from hash_iter_mut_visits_all [OF on_map1 ascending_order this, of Suc] show ?thesis by (simp add: map1(3))
qed

end
