(* ===== verification/Sync_Btree_Map.thy ===== *)
theory Sync_Btree_Map
  imports Map_Contract
begin

text \<open>
  \<open>SyncBtreeMap\<close> (\<open>src/src/sync/map_btree.rs\<close>): the contents are a
  \<open>std::collections::BTreeMap\<close>, modelled as the list of its entries in ascending order of their
  keys (the order in which it is searched and iterated; the shape of the tree is not modelled).
  The key type's \<open>Ord\<close> is a total order, as the library requires of it; \<open>kp m k\<close>: it panics when
  \<open>k\<close> is looked up in \<open>m\<close>, and the map is then as it was.
\<close>

section \<open>The methods of \<open>BTreeMap\<close> the code uses\<close>

type_synonym ('k, 'v) btree = "('k \<times> 'v) list"

text \<open>Each walks up the keys and stops at the first one that is not below \<open>k\<close>.\<close>

fun bt_get :: "('k :: linorder, 'v) btree \<Rightarrow> 'k \<Rightarrow> 'v option" where
  "bt_get [] k = None"
| "bt_get ((k', v') # m) k =
     (if k' < k then bt_get m k else if k' = k then Some v' else None)"

fun bt_insert :: "'k :: linorder \<Rightarrow> 'v \<Rightarrow> ('k, 'v) btree \<Rightarrow> ('k, 'v) btree" where
  "bt_insert k v [] = [(k, v)]"
| "bt_insert k v ((k', v') # m) =
     (if k' < k then (k', v') # bt_insert k v m
      else if k' = k then (k', v) # m
      else (k, v) # (k', v') # m)"

fun bt_remove :: "'k :: linorder \<Rightarrow> ('k, 'v) btree \<Rightarrow> ('k, 'v) btree" where
  "bt_remove k [] = []"
| "bt_remove k ((k', v') # m) =
     (if k' < k then (k', v') # bt_remove k m
      else if k' = k then m
      else (k', v') # m)"

text \<open>The invariant of a \<open>BTreeMap\<close>: strictly ascending keys.\<close>

definition bt_sorted :: "('k :: linorder, 'v) btree \<Rightarrow> bool" where
  "bt_sorted m \<longleftrightarrow> sorted_wrt (<) (map fst m)"

lemma bt_sorted_Cons [simp]:
  "bt_sorted []" "bt_sorted ((k, v) # m) \<longleftrightarrow> (\<forall>k' \<in> fst ` set m. k < k') \<and> bt_sorted m"
  by (simp_all add: bt_sorted_def)

lemma bt_keys_insert: "fst ` set (bt_insert k v m) = insert k (fst ` set m)"
  by (induction k v m rule: bt_insert.induct) auto

lemma bt_keys_remove: "fst ` set (bt_remove k m) \<subseteq> fst ` set m"
  by (induction k m rule: bt_remove.induct) auto

lemma bt_sorted_insert: "bt_sorted m \<Longrightarrow> bt_sorted (bt_insert k v m)"
  by (induction k v m rule: bt_insert.induct) (auto simp: bt_keys_insert)

lemma bt_sorted_remove: "bt_sorted m \<Longrightarrow> bt_sorted (bt_remove k m)"
  by (induction k m rule: bt_remove.induct) (use bt_keys_remove in fastforce)+

lemma bt_distinct: "bt_sorted m \<Longrightarrow> distinct (map fst m)"
  by (simp add: bt_sorted_def strict_sorted_iff)

lemma bt_above: fixes k :: "'k :: linorder" shows "\<forall>k' \<in> fst ` set m. k < k' \<Longrightarrow> map_of m k = None"
  by (metis map_of_eq_None_iff less_irrefl)

text \<open>On a sorted list the search finds what a scan of the whole list finds.\<close>

lemma bt_get_map_of: "bt_sorted m \<Longrightarrow> bt_get m k = map_of m k"
  by (induction m k rule: bt_get.induct) (force intro!: bt_above [symmetric])+

lemma bt_insert_map_of: "bt_sorted m \<Longrightarrow> map_of (bt_insert k v m) = (map_of m)(k \<mapsto> v)"
  by (induction k v m rule: bt_insert.induct) (auto simp: fun_eq_iff)

lemma bt_remove_map_of: "bt_sorted m \<Longrightarrow> map_of (bt_remove k m) = (map_of m)(k := None)"
proof (induction k m rule: bt_remove.induct)
  case (2 k k' v' m)
  show ?case
  proof (cases "k' < k")
    case True
    then show ?thesis using 2 by (auto simp: fun_eq_iff)
  next
    case False
    then have "map_of m k = None" using 2 by (intro bt_above) force
    then show ?thesis using False by (auto simp: fun_eq_iff)
  qed
qed simp

section \<open>Construction\<close>

text \<open>
  \<open>struct SyncBtreeMap\<close>, and the two methods that \<open>map_btree.rs\<close> has its own copy of, with the text
  of those of \<open>vec.rs\<close>.
\<close>

type_synonym ('k, 'v, 'l) SyncBtreeMap = "(('k, 'v) btree, 'l) container"

definition SyncBtreeMap_begin_read :: "'l mutex_ops \<Rightarrow> tid \<Rightarrow> (('k, 'v) btree, 'r) pc \<Rightarrow>
    (('k, 'v) btree, 'l, 'r) sys \<Rightarrow> (('k, 'v) btree, 'l, 'r) sys option" where
  "SyncBtreeMap_begin_read = begin_read_step"

definition SyncBtreeMap_begin_write :: "'l mutex_ops \<Rightarrow> tid \<Rightarrow> (('k, 'v) btree, 'r) pc \<Rightarrow>
    (('k, 'v) btree, 'l, 'r) sys \<Rightarrow> (('k, 'v) btree, 'l, 'r) sys option" where
  "SyncBtreeMap_begin_write = begin_write_step"

definition SyncBtreeMap_with_map ::
    "'l mutex_ops \<Rightarrow> ('k, 'v) btree \<Rightarrow> usize \<Rightarrow> ('k, 'v, 'l) SyncBtreeMap \<times> usize" where
  "SyncBtreeMap_with_map M m next = (container_with M next m, next + 1)"

definition SyncBtreeMap_new :: "'l mutex_ops \<Rightarrow> usize \<Rightarrow> ('k, 'v, 'l) SyncBtreeMap \<times> usize" where
  "SyncBtreeMap_new M next = (container_with M next [], next + 1)"

definition SyncBtreeMap_new_arc ::
    "'l mutex_ops \<Rightarrow> usize \<Rightarrow> ('k, 'v, 'l) SyncBtreeMap \<times> usize" where
  "SyncBtreeMap_new_arc M next = SyncBtreeMap_new M next"

definition SyncBtreeMap_with_capacity ::
    "'l mutex_ops \<Rightarrow> usize \<Rightarrow> usize \<Rightarrow> ('k, 'v, 'l) SyncBtreeMap \<times> usize" where
  "SyncBtreeMap_with_capacity M capacity next = SyncBtreeMap_new M next"

definition SyncBtreeMap_from ::
    "'l mutex_ops \<Rightarrow> ('k, 'v) btree \<Rightarrow> usize \<Rightarrow> ('k, 'v, 'l) SyncBtreeMap \<times> usize" where
  "SyncBtreeMap_from M m next = SyncBtreeMap_with_map M m next"

definition SyncBtreeMap_From ::
    "'l mutex_ops \<Rightarrow> ('k, 'v) btree \<Rightarrow> usize \<Rightarrow> ('k, 'v, 'l) SyncBtreeMap \<times> usize" where
  "SyncBtreeMap_From M arg next = SyncBtreeMap_from M arg next"

definition SyncBtreeMap_default :: "'l mutex_ops \<Rightarrow> usize \<Rightarrow> ('k, 'v, 'l) SyncBtreeMap \<times> usize" where
  "SyncBtreeMap_default M next = SyncBtreeMap_new M next"

section \<open>Methods that take \<open>&self\<close>\<close>

definition SyncBtreeMap_insert :: "(('k :: linorder, 'v) btree \<Rightarrow> 'k \<Rightarrow> bool) \<Rightarrow> 'k \<Rightarrow> 'v \<Rightarrow>
    (('k, 'v) btree, 'v option) call" where
  "SyncBtreeMap_insert kp k v = WriteCall (\<lambda>m.
     if kp m k then (m, WritePanic) else (bt_insert k v m, Finished (bt_get m k)))"

definition SyncBtreeMap_remove :: "(('k :: linorder, 'v) btree \<Rightarrow> 'k \<Rightarrow> bool) \<Rightarrow> 'k \<Rightarrow>
    (('k, 'v) btree, 'v option) call" where
  "SyncBtreeMap_remove kp k = WriteCall (\<lambda>m.
     if kp m k then (m, WritePanic) else (bt_remove k m, Finished (bt_get m k)))"

definition SyncBtreeMap_len :: "(('k, 'v) btree, usize) call" where
  "SyncBtreeMap_len = ReadCall (\<lambda>m. Unpinned (of_nat (length m)))"

definition SyncBtreeMap_is_empty :: "(('k, 'v) btree, bool) call" where
  "SyncBtreeMap_is_empty = ReadCall (\<lambda>m. Unpinned (m = []))"

definition SyncBtreeMap_clear :: "(('k, 'v) btree, unit) call" where
  "SyncBtreeMap_clear = WriteCall (\<lambda>m. ([], Finished ()))"

text \<open>\<open>shrink_to_fit\<close> has an empty body: it does not even take the lock.\<close>

definition SyncBtreeMap_shrink_to_fit :: "(('k, 'v) btree, 'l, 'r) sys \<Rightarrow> (('k, 'v) btree, 'l, 'r) sys" where
  "SyncBtreeMap_shrink_to_fit s = s"

definition SyncBtreeMap_get :: "(('k :: linorder, 'v) btree \<Rightarrow> 'k \<Rightarrow> bool) \<Rightarrow> 'k \<Rightarrow>
    (('k, 'v) btree, 'v option) call" where
  "SyncBtreeMap_get kp k = ReadCall (\<lambda>m.
     if kp m k then ReadPanic
     else (case bt_get m k of
             Some v \<Rightarrow> Pinned (Some v)
           | None \<Rightarrow> Unpinned None))"

definition SyncBtreeMap_get_mut :: "(('k :: linorder, 'v) btree \<Rightarrow> 'k \<Rightarrow> bool) \<Rightarrow> 'k \<Rightarrow>
    (('k, 'v) btree, 'v option) call" where
  "SyncBtreeMap_get_mut kp k = WriteCall (\<lambda>m.
     if kp m k then (m, WritePanic)
     else (case bt_get m k of
             Some v \<Rightarrow> (m, Held (Some v))
           | None \<Rightarrow> (m, Finished None)))"

text \<open>\<open>BtreeMapRefMut::deref_mut\<close>: a store of \<open>v\<close> through the guard on the value of \<open>k\<close>.\<close>

fun BtreeMapRefMut_store :: "'k \<Rightarrow> 'v \<Rightarrow> ('k, 'v) btree \<Rightarrow> ('k, 'v) btree" where
  "BtreeMapRefMut_store k v [] = []"
| "BtreeMapRefMut_store k v ((k', v') # m) =
     (if k' = k then (k', v) # m else (k', v') # BtreeMapRefMut_store k v m)"

lemma bt_keys_store [simp]: "map fst (BtreeMapRefMut_store k v m) = map fst m"
  by (induction k v m rule: BtreeMapRefMut_store.induct) simp_all

lemma bt_sorted_store [simp]: "bt_sorted (BtreeMapRefMut_store k v m) = bt_sorted m"
  by (simp add: bt_sorted_def)

lemma bt_store_map_of:
  "map_of (BtreeMapRefMut_store k v m) =
    (if map_of m k = None then map_of m else (map_of m)(k \<mapsto> v))"
  by (induction k v m rule: BtreeMapRefMut_store.induct) (auto simp: fun_eq_iff)

text \<open>
  \<open>BtreeMapRefMut\<close>, the guard that \<open>get_mut\<close> gives out: \<open>btree_ref_mut k\<close> is the one on the
  value of \<open>k\<close>.
\<close>

type_synonym ('k, 'v) BtreeMapRefMut = "(('k, 'v) btree, 'v) ref_mut"

definition BtreeMapRefMut_new :: "(('k, 'v) btree, 'v) write_guard \<Rightarrow> ('k, 'v) BtreeMapRefMut" where
  "BtreeMapRefMut_new inner = \<lparr>rf_inner = inner\<rparr>"

definition BtreeMapRefMut_deref :: "('k, 'v) BtreeMapRefMut \<Rightarrow> ('k, 'v) btree \<Rightarrow> 'v" where
  "BtreeMapRefMut_deref g m = WriteGuard_deref (rf_inner g) m"

definition BtreeMapRefMut_deref_mut :: "('k, 'v) BtreeMapRefMut \<Rightarrow> 'v \<Rightarrow>
    (('k, 'v) btree, 'l, 'r) sys \<Rightarrow> (('k, 'v) btree, 'l, 'r) sys" where
  "BtreeMapRefMut_deref_mut g v s = WriteGuard_store (rf_inner g) v s"

definition BtreeMapRefMut_debug :: "('v \<Rightarrow> fmt_result option) \<Rightarrow> ('k, 'v) BtreeMapRefMut \<Rightarrow> ('k, 'v) btree \<Rightarrow> fmt_result option" where
  "BtreeMapRefMut_debug dbg g m = dbg (WriteGuard_deref (rf_inner g) m)"

definition BtreeMapRefMut_display :: "('v \<Rightarrow> fmt_result option) \<Rightarrow> ('k, 'v) BtreeMapRefMut \<Rightarrow> ('k, 'v) btree \<Rightarrow> fmt_result option" where
  "BtreeMapRefMut_display disp g m = disp (WriteGuard_deref (rf_inner g) m)"

definition BtreeMapRefMut_eq :: "('v \<Rightarrow> 'v \<Rightarrow> bool option) \<Rightarrow> ('k, 'v) BtreeMapRefMut \<Rightarrow> ('k, 'v) btree \<Rightarrow>
    ('k, 'v) BtreeMapRefMut \<Rightarrow> ('k, 'v) btree \<Rightarrow> bool option" where
  "BtreeMapRefMut_eq eq g m h n =
     eq (WriteGuard_deref (rf_inner g) m) (WriteGuard_deref (rf_inner h) n)"

definition btree_ref_mut :: "'k \<Rightarrow> ('k, 'v) BtreeMapRefMut" where
  "btree_ref_mut k = BtreeMapRefMut_new (WriteGuard_new (\<lambda>m. the (map_of m k)) (BtreeMapRefMut_store k))"

lemma btree_ref_mut_law: "map_of m k \<noteq> None \<Longrightarrow> place_law (rf_inner (btree_ref_mut k)) m"
  by (auto simp: place_law_def btree_ref_mut_def BtreeMapRefMut_new_def WriteGuard_new_def bt_store_map_of)

definition SyncBtreeMap_contains_key :: "(('k :: linorder, 'v) btree \<Rightarrow> 'k \<Rightarrow> bool) \<Rightarrow> 'k \<Rightarrow>
    (('k, 'v) btree, bool) call" where
  "SyncBtreeMap_contains_key kp k = ReadCall (\<lambda>m.
     if kp m k then ReadPanic else Unpinned (bt_get m k \<noteq> None))"

definition SyncBtreeMap_iter :: "(('k, 'v) btree, ('k \<times> 'v) list) call" where
  "SyncBtreeMap_iter = ReadCall (\<lambda>m. Pinned m)"

text \<open>\<open>BtreeMapIter\<close> holds the counter of the pinned slot and the library's iterator.\<close>

type_synonym ('k, 'v) BtreeMapIter = "('k \<times> 'v) map_iter"

definition BtreeMapIter_next :: "('k, 'v) BtreeMapIter \<Rightarrow> ('k \<times> 'v) option \<times> ('k, 'v) BtreeMapIter" where
  "BtreeMapIter_next it = map_iter_next it"

definition BtreeMapIter_drop :: "tid \<Rightarrow> ('k, 'v) BtreeMapIter \<Rightarrow>
    (('k, 'v) btree, 'l, 'r) sys \<Rightarrow> (('k, 'v) btree, 'l, 'r) sys" where
  "BtreeMapIter_drop t it s = drop_guard t (mi_count it) s"

text \<open>The write iterator: the keys whose entries are still to come.\<close>

definition SyncBtreeMap_iter_mut :: "(('k, 'v) btree, 'k list) call" where
  "SyncBtreeMap_iter_mut = WriteCall (\<lambda>m. (m, Held (map fst m)))"

type_synonym 'k BtreeMapIterMut = "'k map_iter_mut"

definition BtreeMapIterMut_next :: "'k BtreeMapIterMut \<Rightarrow> 'k option \<times> 'k BtreeMapIterMut" where
  "BtreeMapIterMut_next it = map_iter_mut_next it"

definition BtreeMapIterMut_deref :: "'k BtreeMapIterMut \<Rightarrow> 'k list" where
  "BtreeMapIterMut_deref it = mm_inner it"

definition BtreeMapIterMut_deref_mut :: "('k list \<Rightarrow> 'k list) \<Rightarrow> 'k BtreeMapIterMut \<Rightarrow> 'k BtreeMapIterMut" where
  "BtreeMapIterMut_deref_mut f it = it\<lparr>mm_inner := f (mm_inner it)\<rparr>"

definition SyncBtreeMap_dirty_ref :: "(('k, 'v) btree, ('k, 'v) btree) call" where
  "SyncBtreeMap_dirty_ref = ReadCall (\<lambda>m. Pinned m)"

definition SyncBtreeMap_index :: "(('k :: linorder, 'v) btree \<Rightarrow> 'k \<Rightarrow> bool) \<Rightarrow> 'k \<Rightarrow>
    (('k, 'v) btree, 'v) call" where
  "SyncBtreeMap_index kp k = UnguardedCall (\<lambda>m.
     if kp m k then Panicked
     else (case bt_get m k of Some v \<Rightarrow> Returned v | None \<Rightarrow> Panicked))"

section \<open>Methods that take \<open>&mut self\<close> or \<open>self\<close>\<close>

definition SyncBtreeMap_insert_mut :: "(('k :: linorder, 'v) btree \<Rightarrow> 'k \<Rightarrow> bool) \<Rightarrow> 'k \<Rightarrow> 'v \<Rightarrow>
    ('k, 'v) btree \<Rightarrow> (('k, 'v) btree \<times> 'v option) option" where
  "SyncBtreeMap_insert_mut kp k v m = (if kp m k then None else Some (bt_insert k v m, bt_get m k))"

definition SyncBtreeMap_remove_mut :: "(('k :: linorder, 'v) btree \<Rightarrow> 'k \<Rightarrow> bool) \<Rightarrow> 'k \<Rightarrow>
    ('k, 'v) btree \<Rightarrow> (('k, 'v) btree \<times> 'v option) option" where
  "SyncBtreeMap_remove_mut kp k m = (if kp m k then None else Some (bt_remove k m, bt_get m k))"

definition SyncBtreeMap_clear_mut :: "('k, 'v) btree \<Rightarrow> ('k, 'v) btree" where
  "SyncBtreeMap_clear_mut m = []"

definition SyncBtreeMap_shrink_to_fit_mut :: "('k, 'v) btree \<Rightarrow> ('k, 'v) btree" where
  "SyncBtreeMap_shrink_to_fit_mut m = m"

definition SyncBtreeMap_into_inner :: "('k, 'v, 'l) SyncBtreeMap \<Rightarrow> ('k, 'v) btree" where
  "SyncBtreeMap_into_inner s = dirty s"

definition SyncBtreeMap_into_iter :: "('k, 'v, 'l) SyncBtreeMap \<Rightarrow> ('k \<times> 'v) list" where
  "SyncBtreeMap_into_iter s = SyncBtreeMap_into_inner s"

text \<open>The two \<open>IntoIterator\<close>: a map that is owned, and a reference to one.\<close>

definition SyncBtreeMap_IntoIter :: "('k, 'v, 'l) SyncBtreeMap \<Rightarrow> ('k \<times> 'v) list" where
  "SyncBtreeMap_IntoIter s = SyncBtreeMap_into_iter s"

definition SyncBtreeMap_ref_IntoIter :: "(('k, 'v) btree, ('k \<times> 'v) list) call" where
  "SyncBtreeMap_ref_IntoIter = SyncBtreeMap_iter"

section \<open>Trait implementations\<close>

definition SyncBtreeMap_serialize :: "(('k, 'v) btree \<Rightarrow> 'o option) \<Rightarrow> (('k, 'v) btree, 'o) call" where
  "SyncBtreeMap_serialize ser = ReadCall (\<lambda>m. under_guard (ser m))"

definition SyncBtreeMap_deserialize :: "'l mutex_ops \<Rightarrow> ('i \<Rightarrow> 'e + ('k, 'v) btree) \<Rightarrow> 'i \<Rightarrow>
    usize \<Rightarrow> 'e + ('k, 'v, 'l) SyncBtreeMap \<times> usize" where
  "SyncBtreeMap_deserialize M de x next =
     (case de x of Inl e \<Rightarrow> Inl e | Inr m \<Rightarrow> Inr (SyncBtreeMap_from M m next))"

definition SyncBtreeMap_fmt :: "(('k, 'v) btree \<Rightarrow> fmt_result option) \<Rightarrow> (('k, 'v) btree, fmt_result) call" where
  "SyncBtreeMap_fmt fmt = ReadCall (\<lambda>m. under_guard (fmt m))"

text \<open>
  \<open>Clone::clone\<close>: a copy of the contents under a temporary \<open>dirty_ref\<close>, then a new container.
  \<open>cl\<close> is the clone of \<open>BTreeMap\<close>; \<open>None\<close>: the \<open>Clone\<close> of a key or a value panics.
\<close>

definition SyncBtreeMap_copy :: "(('k, 'v) btree \<Rightarrow> ('k, 'v) btree option) \<Rightarrow>
    (('k, 'v) btree, ('k, 'v) btree) call" where
  "SyncBtreeMap_copy cl = ReadCall (\<lambda>m. under_guard (cl m))"

definition SyncBtreeMap_clone :: "'l mutex_ops \<Rightarrow> (('k, 'v) btree \<Rightarrow> ('k, 'v) btree option) \<Rightarrow> tid \<Rightarrow>
    (('k, 'v) btree, 'l, ('k, 'v) btree) sys \<Rightarrow> usize \<Rightarrow> (('k, 'v) btree, 'l, ('k, 'v) btree) sys \<times>
      (('k, 'v, 'l) SyncBtreeMap \<times> usize) option" where
  "SyncBtreeMap_clone M cl t s next =
     (let s' = exec M t (SyncBtreeMap_copy cl) s in
      (s', case ret s' t of Some (Returned m) \<Rightarrow> Some (SyncBtreeMap_from M m next) | _ \<Rightarrow> None))"

section \<open>The contract\<close>

lemmas SyncBtreeMap_defs = SyncBtreeMap_insert_def SyncBtreeMap_remove_def SyncBtreeMap_len_def
  SyncBtreeMap_is_empty_def SyncBtreeMap_clear_def SyncBtreeMap_get_def SyncBtreeMap_get_mut_def
  SyncBtreeMap_contains_key_def SyncBtreeMap_iter_def SyncBtreeMap_iter_mut_def
  SyncBtreeMap_dirty_ref_def SyncBtreeMap_index_def

lemma bt_length: "bt_sorted m \<Longrightarrow> card (fst ` set m) = length m"
  using distinct_card [OF bt_distinct] by simp

interpretation btree: sync_map bt_sorted map_of "SyncBtreeMap_insert calm" "SyncBtreeMap_remove calm"
  "SyncBtreeMap_get calm" "SyncBtreeMap_contains_key calm" SyncBtreeMap_len SyncBtreeMap_is_empty
  SyncBtreeMap_clear
  by unfold_locales
    (simp_all add: SyncBtreeMap_defs calm_def bt_sorted_insert bt_sorted_remove bt_get_map_of
      bt_insert_map_of bt_remove_map_of bt_length dom_map_of_conv_image_fst split: option.splits)

interpretation btree_shared: shared_map bt_sorted map_of "SyncBtreeMap_insert calm"
  "SyncBtreeMap_remove calm" "SyncBtreeMap_get calm" "SyncBtreeMap_contains_key calm"
  SyncBtreeMap_len SyncBtreeMap_is_empty SyncBtreeMap_clear
  "\<lambda>s. mutex_laws M \<and> reach M c s \<and> quiet s" dirty ret "exec_and_drop M" for M c
  by intro_locales

interpretation btree_guarded: guarded_map bt_sorted map_of "SyncBtreeMap_insert calm"
  "SyncBtreeMap_remove calm" "SyncBtreeMap_get calm" "SyncBtreeMap_contains_key calm"
  SyncBtreeMap_len SyncBtreeMap_is_empty SyncBtreeMap_clear "SyncBtreeMap_get_mut calm"
  BtreeMapRefMut_store
  by unfold_locales
    (simp_all add: SyncBtreeMap_defs calm_def bt_get_map_of bt_sorted_store bt_store_map_of
      split: option.splits)

definition btree_call :: "('k :: linorder, 'v) map_op \<Rightarrow> (('k, 'v) btree, 'v map_result) call" where
  "btree_call = dispatch (SyncBtreeMap_insert calm) (SyncBtreeMap_remove calm) (SyncBtreeMap_get calm)
     (SyncBtreeMap_contains_key calm) SyncBtreeMap_len SyncBtreeMap_is_empty SyncBtreeMap_clear"

section \<open>Correctness\<close>

text \<open>
  Property C17.  \<open>SyncBtreeMap\<close> is linearizable with respect to the partial function: in every
  reachable state, if the accesses so far are those of the acts \<open>as\<close> in that order (calls of the
  methods, of \<open>get_mut\<close>, and stores through its guards), every call has returned what the partial
  function gives, and the contents are the ascending list of the entries of the partial function
  that \<open>as\<close> leave.
\<close>

theorem btree_linearizes:
  assumes "mutex_laws M" and "reach M m s" and "bt_sorted m"
    and "list_all2 (act_event btree_call (SyncBtreeMap_get_mut calm) BtreeMapRefMut_store) as (hist s)"
  shows "bt_sorted (dirty s) \<and> map_of (dirty s) = fst (ref_acts as (map_of m)) \<and>
    map event_value (hist s) = map (map_option Returned) (snd (ref_acts as (map_of m)))"
  using btree_guarded.history_refines [OF assms(1,2,3), of as] assms(4) by (simp add: btree_call_def)

text \<open>
  Calls that threads make one after the other all return: after any of them the
  container is free again, its entries are ascending and those of the partial function, and the
  next call, of any thread, returns what the partial function gives.
\<close>

theorem btree_calls_in_turn:
  fixes ops :: "('k :: linorder, 'v) map_op list"
  assumes "mutex_laws M" and "reach M m s" and "quiet s" and "bt_sorted (dirty s)"
    and "length ts = length ops"
  defines "s' \<equiv> fold (\<lambda>(t, m). exec_and_drop M t m) (zip ts (map btree_call ops)) s"
  shows "quiet s' \<and> bt_sorted (dirty s') \<and> map_of (dirty s') = fst (ref_ops ops (map_of (dirty s))) \<and>
    ret (exec_and_drop M t (btree_call op) s') t =
      Some (Returned (snd (ref_op op (fst (ref_ops ops (map_of (dirty s)))))))"
  using btree_shared.shared_run [of M m s ts ops t op] assms by (simp add: btree_call_def)

text \<open>
  \<open>iter\<close> gives every entry once, in ascending order of the keys.
\<close>

theorem btree_iter_ascending:
  assumes "mutex_laws M" and "reach M c s" and "quiet s" and "bt_sorted (dirty s)"
  shows "\<exists>es. ret (exec M t SyncBtreeMap_iter s) t = Some (Returned es) \<and>
    sorted_wrt (<) (map fst es) \<and> (\<forall>k v. (k, v) \<in> set es \<longleftrightarrow> bt_get (dirty s) k = Some v)"
proof -
  have "ret (exec M t SyncBtreeMap_iter s) t = Some (Returned (dirty s))"
    using exec_effect(2) [OF assms(1-3), of t SyncBtreeMap_iter] by (simp add: SyncBtreeMap_defs)
  then show ?thesis
    using assms(4) bt_get_map_of [OF assms(4)] bt_distinct [OF assms(4)]
    by (auto simp: bt_sorted_def map_of_eq_Some_iff)
qed

text \<open>A client's loop \<open>for (_, v) in m.iter_mut() { *v = f(*v) }\<close>.\<close>

definition btree_for_each :: "('v \<Rightarrow> 'v) \<Rightarrow> 'k :: linorder BtreeMapIterMut \<Rightarrow> ('k, 'v) btree \<Rightarrow> ('k, 'v) btree" where
  "btree_for_each f = for_each_entry (\<lambda>k m.
     case bt_get m k of None \<Rightarrow> m | Some v \<Rightarrow> BtreeMapRefMut_store k (f v) m)"

lemma btree_for_each:
  assumes "distinct ks" "bt_sorted m"
  shows "bt_sorted (btree_for_each f \<lparr>mm_inner = ks\<rparr> m) \<and> map fst (btree_for_each f \<lparr>mm_inner = ks\<rparr> m) = map fst m \<and>
    map_of (btree_for_each f \<lparr>mm_inner = ks\<rparr> m) k =
      (if k \<in> set ks then map_option f (map_of m k) else map_of m k)"
  using assms
proof (induction ks arbitrary: m)
  case (Cons x ks)
  let ?m = "case bt_get m x of None \<Rightarrow> m | Some v \<Rightarrow> BtreeMapRefMut_store x (f v) m"
  have "bt_sorted ?m" "map fst ?m = map fst m" "map_of ?m k =
      (if k = x then map_option f (map_of m k) else map_of m k)"
    using Cons.prems(2) by (auto simp: bt_get_map_of bt_store_map_of split: option.splits)
  then show ?case using Cons.IH [of ?m] Cons.prems(1) by (auto simp: btree_for_each_def)
qed (simp add: btree_for_each_def)

text \<open>
  \<open>iter_mut\<close> visits every entry once: a loop that assigns \<open>f\<close> of it to each value
  turns every value into its image and leaves the keys in place; dropping the iterator frees the
  container.
\<close>

theorem btree_iter_mut_visits_all:
  assumes "mutex_laws M" and "reach M c s" and "quiet s" and "bt_sorted (dirty s)"
    and "ret (exec M t SyncBtreeMap_iter_mut s) t = Some (Returned it)"
  shows "dirty (use_write_guard M t (btree_for_each f \<lparr>mm_inner = it\<rparr>) (exec M t SyncBtreeMap_iter_mut s)) =
      map (map_prod id f) (dirty s) \<and>
    quiet (use_write_guard M t (btree_for_each f \<lparr>mm_inner = it\<rparr>) (exec M t SyncBtreeMap_iter_mut s))"
proof -
  let ?m = "dirty s"
  have it: "it = map fst ?m"
    using exec_effect(2) [OF assms(1-3), of t SyncBtreeMap_iter_mut] assms(5)
    by (simp add: SyncBtreeMap_defs)
  note d = bt_distinct [OF assms(4)]
  have keys: "map fst (map (map_prod id f) ?m) = map fst ?m" by simp
  have none: "map_of ?m k = None" if "k \<notin> set (map fst ?m)" for k
    using that by (simp add: map_of_eq_None_iff)
  have "btree_for_each f \<lparr>mm_inner = it\<rparr> ?m = map (map_prod id f) ?m"
  proof (rule map_of_inject_keys)
    show "map fst (btree_for_each f \<lparr>mm_inner = it\<rparr> ?m) = map fst (map (map_prod id f) ?m)"
      using btree_for_each [OF d assms(4)] it keys by simp
    show "distinct (map fst (map (map_prod id f) ?m))" using d keys by simp
    show "map_of (btree_for_each f \<lparr>mm_inner = it\<rparr> ?m) k = map_of (map (map_prod id f) ?m) k" for k
      using btree_for_each [OF d assms(4), of f k] none [of k] it by (simp add: map_of_map_prod)
  qed
  moreover have "leaves SyncBtreeMap_iter_mut ?m = WriteHold" by (simp add: SyncBtreeMap_defs)
  ultimately show ?thesis
    using use_write_guard_quiet [OF assms(1-3), of SyncBtreeMap_iter_mut t "btree_for_each f \<lparr>mm_inner = it\<rparr>"]
    by (simp add: SyncBtreeMap_defs)
qed

section \<open>Instances\<close>

definition tree2 :: "((nat, nat) btree, tid option, 'r) sys" where
  "tree2 = sys_with owner_mutex 1 [(1, 10), (5, 50)]"

lemma tree2: "reach owner_mutex [(1, 10), (5, 50)] tree2" "quiet tree2" "dirty tree2 = [(1, 10), (5, 50)]"
  and tree2_sorted: "bt_sorted (dirty tree2)"
  by (simp_all add: tree2_def reach_new quiet_new)

lemmas on_tree2 = owner_mutex_laws tree2(1,2)

text \<open>Two insertions, by two threads, the second of which waits for the first.\<close>

lemma btree_two_calls:
  "\<exists>s :: ((nat, nat) btree, tid option, nat map_result) sys. reach owner_mutex [] s \<and>
    list_all2 event_of (map btree_call [OpInsert 5 50, OpInsert 1 10]) (hist s)"
  by (rule reach_by_schedule [where i = 1 and as = "[(0, Start (btree_call (OpInsert 5 50))),
      (1, Start (btree_call (OpInsert 1 10))), (0, Run), (0, Run), (0, Run), (0, Run), (0, Run),
      (0, Run), (0, Run), (0, Run), (0, Run), (1, Run), (1, Run), (1, Run), (1, Run), (1, Run),
      (1, Run), (1, Run)]"])
    (simp_all add: perform_def advance_def action_defs Let_def btree_call_def SyncBtreeMap_defs calm_def)

theorem btree_linearizes_witness:
  "\<exists>s :: ((nat, nat) btree, tid option, nat map_result) sys. reach owner_mutex [] s \<and>
    bt_sorted (dirty s) \<and> map_of (dirty s) 1 = Some 10 \<and> map_of (dirty s) 5 = Some 50"
proof -
  obtain s :: "((nat, nat) btree, tid option, nat map_result) sys" where s: "reach owner_mutex [] s"
    "list_all2 event_of (map btree_call [OpInsert 5 50, OpInsert 1 10]) (hist s)"
    using btree_two_calls by blast
  then have "list_all2 (act_event btree_call (SyncBtreeMap_get_mut calm) BtreeMapRefMut_store)
      [Call (OpInsert 5 50), Call (OpInsert 1 10)] (hist s)"
    by (auto simp: list_all2_Cons1)
  from btree_linearizes [OF owner_mutex_laws s(1) _ this] show ?thesis using s(1) by auto
qed

theorem btree_calls_in_turn_witness:
  "ret (exec_and_drop owner_mutex 1 (btree_call (OpRemove 1)) tree2) 1 =
    Some (Returned (GotValue (Some 10)))"
  using btree_calls_in_turn [OF on_tree2 tree2_sorted, where ts = "[]" and ops = "[]" and t = 1
      and op = "OpRemove 1"] by (simp add: tree2(3))

theorem btree_iter_ascending_witness:
  "\<exists>es. ret (exec owner_mutex 0 SyncBtreeMap_iter tree2) 0 = Some (Returned es) \<and>
    sorted_wrt (<) (map fst es)"
  using btree_iter_ascending [OF on_tree2 tree2_sorted, of 0] by blast

theorem btree_iter_mut_visits_all_witness:
  "dirty (use_write_guard owner_mutex 0 (btree_for_each Suc \<lparr>mm_inner = [1, 5]\<rparr>)
    (exec owner_mutex 0 SyncBtreeMap_iter_mut tree2)) = [(1, 11), (5, 51)]"
proof -
  have "ret (exec owner_mutex 0 SyncBtreeMap_iter_mut tree2) 0 = Some (Returned [1, 5])"
    using exec_effect(2) [OF on_tree2, of 0 SyncBtreeMap_iter_mut]
    by (simp add: SyncBtreeMap_defs tree2(3))
  from btree_iter_mut_visits_all [OF on_tree2 tree2_sorted this, of Suc] show ?thesis
    by (simp add: tree2(3))
qed

end
