(* ===== verification/Sync_Index_Map.thy ===== *)
theory Sync_Index_Map
  imports Map_Contract
begin

text \<open>
  \<open>SyncIndexMap\<close> (\<open>src/src/sync/map_index.rs\<close>): the contents are an \<open>indexmap::IndexMap\<close>, whose
  code is not in the repository: its methods are the parameter \<open>I\<close> of every definition here, and
  what its documentation promises of them is \<open>index_laws I\<close>.  \<open>kp m k\<close>: the key type's \<open>Hash\<close>
  or \<open>Eq\<close> panics when \<open>k\<close> is looked up in \<open>m\<close>; the map is then as it was.
\<close>

section \<open>The interface of \<open>IndexMap\<close>\<close>

text \<open>
  The methods that the code calls; \<open>ix_store k v\<close> is a store of \<open>v\<close> through the reference that
  \<open>get_mut(k)\<close> gives.  \<open>ix_entries\<close> is the view in which the documentation speaks: the entries
  in the order of their indices, which is the order of iteration.  \<open>ix_valid\<close> is the invariant.
\<close>

record ('k, 'v, 'm) index_ops =
  ix_new :: 'm
  ix_insert :: "'k \<Rightarrow> 'v \<Rightarrow> 'm \<Rightarrow> 'm \<times> 'v option"
  ix_swap_remove :: "'k \<Rightarrow> 'm \<Rightarrow> 'm \<times> 'v option"
  ix_get :: "'m \<Rightarrow> 'k \<Rightarrow> 'v option"
  ix_store :: "'k \<Rightarrow> 'v \<Rightarrow> 'm \<Rightarrow> 'm"
  ix_contains_key :: "'m \<Rightarrow> 'k \<Rightarrow> bool"
  ix_len :: "'m \<Rightarrow> nat"
  ix_is_empty :: "'m \<Rightarrow> bool"
  ix_clear :: "'m \<Rightarrow> 'm"
  ix_shrink_to_fit :: "'m \<Rightarrow> 'm"
  ix_entries :: "'m \<Rightarrow> ('k \<times> 'v) list"
  ix_valid :: "'m \<Rightarrow> bool"

text \<open>
  \<open>insert\<close>: an equivalent key keeps its place and gets the new value; a new entry goes last.
  A store through \<open>get_mut\<close> changes the value in its place.
\<close>

fun put_entry :: "'k \<Rightarrow> 'v \<Rightarrow> ('k \<times> 'v) list \<Rightarrow> ('k \<times> 'v) list" where
  "put_entry k v [] = [(k, v)]"
| "put_entry k v ((k', v') # es) = (if k' = k then (k', v) # es else (k', v') # put_entry k v es)"

fun set_entry :: "'k \<Rightarrow> 'v \<Rightarrow> ('k \<times> 'v) list \<Rightarrow> ('k \<times> 'v) list" where
  "set_entry k v [] = []"
| "set_entry k v ((k', v') # es) = (if k' = k then (k', v) # es else (k', v') # set_entry k v es)"

fun entry_pos :: "'k \<Rightarrow> ('k \<times> 'v) list \<Rightarrow> nat option" where
  "entry_pos k [] = None"
| "entry_pos k ((k', v') # es) = (if k' = k then Some 0 else map_option Suc (entry_pos k es))"

text \<open>
  \<open>swap_remove\<close>: the entry changes places with the last one and is popped off.
\<close>

definition swap_remove_entry :: "'k \<Rightarrow> ('k \<times> 'v) list \<Rightarrow> ('k \<times> 'v) list" where
  "swap_remove_entry k es =
     (case entry_pos k es of None \<Rightarrow> es | Some i \<Rightarrow> butlast (es[i := last es]))"

definition index_laws :: "('k, 'v, 'm) index_ops \<Rightarrow> bool" where
  "index_laws I \<longleftrightarrow>
     ix_valid I (ix_new I) \<and> ix_entries I (ix_new I) = [] \<and>
     (\<forall>m. ix_valid I m \<longrightarrow>
        distinct (map fst (ix_entries I m)) \<and>
        ix_valid I (ix_clear I m) \<and> ix_entries I (ix_clear I m) = [] \<and>
        ix_valid I (ix_shrink_to_fit I m) \<and> ix_entries I (ix_shrink_to_fit I m) = ix_entries I m \<and>
        ix_len I m = length (ix_entries I m) \<and> ix_is_empty I m = (ix_entries I m = [])) \<and>
     (\<forall>m k. ix_valid I m \<longrightarrow>
        ix_get I m k = map_of (ix_entries I m) k \<and>
        ix_contains_key I m k = (map_of (ix_entries I m) k \<noteq> None) \<and>
        ix_valid I (fst (ix_swap_remove I k m)) \<and>
        ix_entries I (fst (ix_swap_remove I k m)) = swap_remove_entry k (ix_entries I m) \<and>
        snd (ix_swap_remove I k m) = map_of (ix_entries I m) k) \<and>
     (\<forall>m k v. ix_valid I m \<longrightarrow>
        ix_valid I (fst (ix_insert I k v m)) \<and>
        ix_entries I (fst (ix_insert I k v m)) = put_entry k v (ix_entries I m) \<and>
        snd (ix_insert I k v m) = map_of (ix_entries I m) k \<and>
        ix_valid I (ix_store I k v m) \<and>
        ix_entries I (ix_store I k v m) = set_entry k v (ix_entries I m))"

lemma index_new: "index_laws I \<Longrightarrow> ix_valid I (ix_new I) \<and> ix_entries I (ix_new I) = []"
  unfolding index_laws_def by blast

lemma index_map:
  assumes "index_laws I" "ix_valid I m"
  shows "distinct (map fst (ix_entries I m))" "ix_valid I (ix_clear I m)" "ix_entries I (ix_clear I m) = []"
    "ix_valid I (ix_shrink_to_fit I m)" "ix_entries I (ix_shrink_to_fit I m) = ix_entries I m"
    "ix_len I m = length (ix_entries I m)" "ix_is_empty I m = (ix_entries I m = [])"
  using assms unfolding index_laws_def by blast+

lemma index_key:
  assumes "index_laws I" "ix_valid I m"
  shows "ix_get I m k = map_of (ix_entries I m) k"
    "ix_contains_key I m k = (map_of (ix_entries I m) k \<noteq> None)"
    "ix_valid I (fst (ix_swap_remove I k m))"
    "ix_entries I (fst (ix_swap_remove I k m)) = swap_remove_entry k (ix_entries I m)"
    "snd (ix_swap_remove I k m) = map_of (ix_entries I m) k"
  using assms unfolding index_laws_def by blast+

lemma index_put:
  assumes "index_laws I" "ix_valid I m"
  shows "ix_valid I (fst (ix_insert I k v m))"
    "ix_entries I (fst (ix_insert I k v m)) = put_entry k v (ix_entries I m)"
    "snd (ix_insert I k v m) = map_of (ix_entries I m) k"
    "ix_valid I (ix_store I k v m)"
    "ix_entries I (ix_store I k v m) = set_entry k v (ix_entries I m)"
  using assms unfolding index_laws_def by blast+

section \<open>Lists of entries\<close>

lemma put_entry_map_of: "map_of (put_entry k v es) = (map_of es)(k \<mapsto> v)"
  by (induction k v es rule: put_entry.induct) (auto simp: fun_eq_iff)

lemma put_entry_keys: "fst ` set (put_entry k v es) = insert k (fst ` set es)"
  by (induction k v es rule: put_entry.induct) auto

lemma put_entry_distinct: "distinct (map fst es) \<Longrightarrow> distinct (map fst (put_entry k v es))"
  by (induction k v es rule: put_entry.induct) (auto simp: put_entry_keys)

lemma put_entry_order:
  "map fst (put_entry k v es) = (if k \<in> fst ` set es then map fst es else map fst es @ [k])"
  by (induction k v es rule: put_entry.induct) auto

lemma set_entry_order: "map fst (set_entry k v es) = map fst es"
  by (induction k v es rule: set_entry.induct) auto

lemma set_entry_map_of:
  "map_of (set_entry k v es) = (if map_of es k = None then map_of es else (map_of es)(k \<mapsto> v))"
  by (induction k v es rule: set_entry.induct) (auto simp: fun_eq_iff)

lemma entry_pos_None: "entry_pos k es = None \<longleftrightarrow> k \<notin> fst ` set es"
  by (induction k es rule: entry_pos.induct) auto

lemma entry_pos_Some:
  "entry_pos k es = Some i \<Longrightarrow> i < length es \<and> fst (es ! i) = k"
  by (induction k es arbitrary: i rule: entry_pos.induct) (auto split: if_splits)

lemma entry_pos_first: "k \<notin> fst ` set as \<Longrightarrow> entry_pos k (as @ (k, v) # bs) = Some (length as)"
  by (induction as) auto

lemma first_entry:
  "map_of es k = Some v \<Longrightarrow> \<exists>as bs. es = as @ (k, v) # bs \<and> k \<notin> fst ` set as"
proof (induction es)
  case (Cons e es)
  obtain k' v' where e: "e = (k', v')" by (cases e)
  show ?case
  proof (cases "k' = k")
    case True
    then show ?thesis using Cons.prems e by (intro exI [of _ "[]"] exI [of _ es]) simp
  next
    case False
    then obtain as bs where "es = as @ (k, v) # bs" "k \<notin> fst ` set as"
      using Cons e by auto
    then show ?thesis using False e by (intro exI [of _ "e # as"] exI [of _ bs]) simp
  qed
qed simp

text \<open>
  What \<open>swap_remove\<close> does: the last entry is popped, or it moves to the place of the removed
  one; every other entry stays where it is.
\<close>

lemma swap_remove_cases:
  assumes "map_of es k = Some v"
  obtains as where "es = as @ [(k, v)]" "swap_remove_entry k es = as"
  | as z cs where "es = as @ (k, v) # cs @ [z]" "swap_remove_entry k es = as @ z # cs"
proof -
  obtain as bs where es: "es = as @ (k, v) # bs" and k: "k \<notin> fst ` set as"
    using first_entry [OF assms] by blast
  have pos: "entry_pos k es = Some (length as)" using entry_pos_first [OF k] es by simp
  show ?thesis
  proof (cases bs rule: rev_cases)
    case Nil
    then show ?thesis using es pos by (intro that(1)) (simp_all add: swap_remove_entry_def)
  next
    case (snoc cs z)
    then show ?thesis using es pos
      by (intro that(2) [of as cs z]) (simp_all add: swap_remove_entry_def butlast_append)
  qed
qed

lemma swap_remove_None: "map_of es k = None \<Longrightarrow> swap_remove_entry k es = es"
  using entry_pos_None [of k es] by (simp add: swap_remove_entry_def map_of_eq_None_iff)

lemma swap_remove_distinct:
  assumes "distinct (map fst es)"
  shows "distinct (map fst (swap_remove_entry k es))"
proof (cases "map_of es k")
  case (Some v)
  then show ?thesis by (cases rule: swap_remove_cases) (use assms in auto)
qed (use assms in \<open>simp add: swap_remove_None\<close>)

lemma swap_remove_map_of:
  assumes "distinct (map fst es)"
  shows "map_of (swap_remove_entry k es) = (map_of es)(k := None)"
proof (cases "map_of es k")
  case None
  then show ?thesis by (auto simp: swap_remove_None fun_eq_iff)
next
  case (Some v)
  then show ?thesis
  proof (cases rule: swap_remove_cases)
    case (1 as)
    then have "map_of as k = None" using assms by (auto simp: map_of_eq_None_iff)
    then show ?thesis using 1 by (auto simp: fun_eq_iff map_add_def split: option.splits)
  next
    case (2 as z cs)
    obtain kz vz where z: "z = (kz, vz)" by (cases z)
    have none: "map_of as k = None" "map_of cs k = None" "kz \<noteq> k" "map_of as kz = None" "map_of cs kz = None"
      using assms 2 z by (auto simp: map_of_eq_None_iff)
    show ?thesis using 2 z none by (auto simp: fun_eq_iff map_add_def split: option.splits)
  qed
qed

section \<open>Construction\<close>

text \<open>
  \<open>struct SyncIndexMap\<close>, and the two methods that \<open>map_index.rs\<close> has its own copy of, with the text
  of those of \<open>vec.rs\<close>.
\<close>

type_synonym ('m, 'l) SyncIndexMap = "('m, 'l) container"

definition SyncIndexMap_begin_read :: "'l mutex_ops \<Rightarrow> tid \<Rightarrow> ('m, 'r) pc \<Rightarrow>
    ('m, 'l, 'r) sys \<Rightarrow> ('m, 'l, 'r) sys option" where
  "SyncIndexMap_begin_read = begin_read_step"

definition SyncIndexMap_begin_write :: "'l mutex_ops \<Rightarrow> tid \<Rightarrow> ('m, 'r) pc \<Rightarrow>
    ('m, 'l, 'r) sys \<Rightarrow> ('m, 'l, 'r) sys option" where
  "SyncIndexMap_begin_write = begin_write_step"

definition SyncIndexMap_with_map :: "'l mutex_ops \<Rightarrow> 'm \<Rightarrow> usize \<Rightarrow> ('m, 'l) SyncIndexMap \<times> usize" where
  "SyncIndexMap_with_map M m next = (container_with M next m, next + 1)"

definition SyncIndexMap_new ::
    "('k, 'v, 'm) index_ops \<Rightarrow> 'l mutex_ops \<Rightarrow> usize \<Rightarrow> ('m, 'l) SyncIndexMap \<times> usize" where
  "SyncIndexMap_new I M next = (container_with M next (ix_new I), next + 1)"

definition SyncIndexMap_new_arc ::
    "('k, 'v, 'm) index_ops \<Rightarrow> 'l mutex_ops \<Rightarrow> usize \<Rightarrow> ('m, 'l) SyncIndexMap \<times> usize" where
  "SyncIndexMap_new_arc I M next = SyncIndexMap_new I M next"

definition SyncIndexMap_with_capacity ::
    "('k, 'v, 'm) index_ops \<Rightarrow> 'l mutex_ops \<Rightarrow> usize \<Rightarrow> usize \<Rightarrow> ('m, 'l) SyncIndexMap \<times> usize" where
  "SyncIndexMap_with_capacity I M capacity next = (container_with M next (ix_new I), next + 1)"

definition SyncIndexMap_from :: "'l mutex_ops \<Rightarrow> 'm \<Rightarrow> usize \<Rightarrow> ('m, 'l) SyncIndexMap \<times> usize" where
  "SyncIndexMap_from M m next = SyncIndexMap_with_map M m next"

definition SyncIndexMap_From :: "'l mutex_ops \<Rightarrow> 'm \<Rightarrow> usize \<Rightarrow> ('m, 'l) SyncIndexMap \<times> usize" where
  "SyncIndexMap_From M arg next = SyncIndexMap_from M arg next"

definition SyncIndexMap_default ::
    "('k, 'v, 'm) index_ops \<Rightarrow> 'l mutex_ops \<Rightarrow> usize \<Rightarrow> ('m, 'l) SyncIndexMap \<times> usize" where
  "SyncIndexMap_default I M next = SyncIndexMap_new I M next"

section \<open>Methods that take \<open>&self\<close>\<close>

definition SyncIndexMap_insert :: "('k, 'v, 'm) index_ops \<Rightarrow> ('m \<Rightarrow> 'k \<Rightarrow> bool) \<Rightarrow> 'k \<Rightarrow> 'v \<Rightarrow>
    ('m, 'v option) call" where
  "SyncIndexMap_insert I kp k v = WriteCall (\<lambda>m.
     if kp m k then (m, WritePanic)
     else (let (m', r) = ix_insert I k v m in (m', Finished r)))"

definition SyncIndexMap_remove :: "('k, 'v, 'm) index_ops \<Rightarrow> ('m \<Rightarrow> 'k \<Rightarrow> bool) \<Rightarrow> 'k \<Rightarrow>
    ('m, 'v option) call" where
  "SyncIndexMap_remove I kp k = WriteCall (\<lambda>m.
     if kp m k then (m, WritePanic)
     else (let (m', r) = ix_swap_remove I k m in (m', Finished r)))"

definition SyncIndexMap_len :: "('k, 'v, 'm) index_ops \<Rightarrow> ('m, usize) call" where
  "SyncIndexMap_len I = ReadCall (\<lambda>m. Unpinned (of_nat (ix_len I m)))"

definition SyncIndexMap_is_empty :: "('k, 'v, 'm) index_ops \<Rightarrow> ('m, bool) call" where
  "SyncIndexMap_is_empty I = ReadCall (\<lambda>m. Unpinned (ix_is_empty I m))"

definition SyncIndexMap_clear :: "('k, 'v, 'm) index_ops \<Rightarrow> ('m, unit) call" where
  "SyncIndexMap_clear I = WriteCall (\<lambda>m. (ix_clear I m, Finished ()))"

definition SyncIndexMap_shrink_to_fit :: "('k, 'v, 'm) index_ops \<Rightarrow> ('m, unit) call" where
  "SyncIndexMap_shrink_to_fit I = WriteCall (\<lambda>m. (ix_shrink_to_fit I m, Finished ()))"

definition SyncIndexMap_get :: "('k, 'v, 'm) index_ops \<Rightarrow> ('m \<Rightarrow> 'k \<Rightarrow> bool) \<Rightarrow> 'k \<Rightarrow>
    ('m, 'v option) call" where
  "SyncIndexMap_get I kp k = ReadCall (\<lambda>m.
     if kp m k then ReadPanic
     else (case ix_get I m k of
             Some v \<Rightarrow> Pinned (Some v)
           | None \<Rightarrow> Unpinned None))"

definition SyncIndexMap_get_mut :: "('k, 'v, 'm) index_ops \<Rightarrow> ('m \<Rightarrow> 'k \<Rightarrow> bool) \<Rightarrow> 'k \<Rightarrow>
    ('m, 'v option) call" where
  "SyncIndexMap_get_mut I kp k = WriteCall (\<lambda>m.
     if kp m k then (m, WritePanic)
     else (case ix_get I m k of
             Some v \<Rightarrow> (m, Held (Some v))
           | None \<Rightarrow> (m, Finished None)))"

text \<open>\<open>IndexMapRefMut::deref_mut\<close>: a store of \<open>v\<close> through the guard on the value of \<open>k\<close>.\<close>

definition IndexMapRefMut_store :: "('k, 'v, 'm) index_ops \<Rightarrow> 'k \<Rightarrow> 'v \<Rightarrow> 'm \<Rightarrow> 'm" where
  "IndexMapRefMut_store I k v m = ix_store I k v m"

text \<open>
  \<open>IndexMapRefMut\<close>, the guard that \<open>get_mut\<close> gives out: \<open>index_ref_mut k\<close> is the one on the
  value of \<open>k\<close>.
\<close>

type_synonym ('m, 'v) IndexMapRefMut = "('m, 'v) ref_mut"

definition IndexMapRefMut_new :: "('m, 'v) write_guard \<Rightarrow> ('m, 'v) IndexMapRefMut" where
  "IndexMapRefMut_new inner = \<lparr>rf_inner = inner\<rparr>"

definition IndexMapRefMut_deref :: "('m, 'v) IndexMapRefMut \<Rightarrow> 'm \<Rightarrow> 'v" where
  "IndexMapRefMut_deref g m = WriteGuard_deref (rf_inner g) m"

definition IndexMapRefMut_deref_mut :: "('m, 'v) IndexMapRefMut \<Rightarrow> 'v \<Rightarrow>
    ('m, 'l, 'r) sys \<Rightarrow> ('m, 'l, 'r) sys" where
  "IndexMapRefMut_deref_mut g v s = WriteGuard_store (rf_inner g) v s"

definition IndexMapRefMut_debug :: "('v \<Rightarrow> fmt_result option) \<Rightarrow> ('m, 'v) IndexMapRefMut \<Rightarrow> 'm \<Rightarrow> fmt_result option" where
  "IndexMapRefMut_debug dbg g m = dbg (WriteGuard_deref (rf_inner g) m)"

definition IndexMapRefMut_display :: "('v \<Rightarrow> fmt_result option) \<Rightarrow> ('m, 'v) IndexMapRefMut \<Rightarrow> 'm \<Rightarrow> fmt_result option" where
  "IndexMapRefMut_display disp g m = disp (WriteGuard_deref (rf_inner g) m)"

definition IndexMapRefMut_eq :: "('v \<Rightarrow> 'v \<Rightarrow> bool option) \<Rightarrow> ('m, 'v) IndexMapRefMut \<Rightarrow> 'm \<Rightarrow>
    ('m, 'v) IndexMapRefMut \<Rightarrow> 'm \<Rightarrow> bool option" where
  "IndexMapRefMut_eq eq g m h n =
     eq (WriteGuard_deref (rf_inner g) m) (WriteGuard_deref (rf_inner h) n)"

definition index_ref_mut :: "('k, 'v, 'm) index_ops \<Rightarrow> 'k \<Rightarrow> ('m, 'v) IndexMapRefMut" where
  "index_ref_mut I k = IndexMapRefMut_new (WriteGuard_new (\<lambda>m. the (ix_get I m k)) (ix_store I k))"

lemma index_ref_mut_law:
  assumes "index_laws I" "ix_valid I m" "ix_get I m k \<noteq> None"
  shows "place_law (rf_inner (index_ref_mut I k)) m"
  using assms(3)
  by (auto simp: place_law_def index_ref_mut_def IndexMapRefMut_new_def WriteGuard_new_def
      index_key [OF assms(1)] index_put [OF assms(1,2)] index_key [OF assms(1,2)] set_entry_map_of)

definition SyncIndexMap_contains_key :: "('k, 'v, 'm) index_ops \<Rightarrow> ('m \<Rightarrow> 'k \<Rightarrow> bool) \<Rightarrow> 'k \<Rightarrow>
    ('m, bool) call" where
  "SyncIndexMap_contains_key I kp k = ReadCall (\<lambda>m.
     if kp m k then ReadPanic else Unpinned (ix_contains_key I m k))"

definition SyncIndexMap_iter :: "('k, 'v, 'm) index_ops \<Rightarrow> ('m, ('k \<times> 'v) list) call" where
  "SyncIndexMap_iter I = ReadCall (\<lambda>m. Pinned (ix_entries I m))"

text \<open>\<open>IndexMapIter\<close> holds the counter of the pinned slot and the library's iterator.\<close>

type_synonym ('k, 'v) IndexMapIter = "('k \<times> 'v) map_iter"

definition IndexMapIter_next :: "('k, 'v) IndexMapIter \<Rightarrow> ('k \<times> 'v) option \<times> ('k, 'v) IndexMapIter" where
  "IndexMapIter_next it = map_iter_next it"

definition IndexMapIter_drop :: "tid \<Rightarrow> ('k, 'v) IndexMapIter \<Rightarrow>
    ('m, 'l, 'r) sys \<Rightarrow> ('m, 'l, 'r) sys" where
  "IndexMapIter_drop t it s = drop_guard t (mi_count it) s"

definition SyncIndexMap_iter_mut :: "('k, 'v, 'm) index_ops \<Rightarrow> ('m, 'k list) call" where
  "SyncIndexMap_iter_mut I = WriteCall (\<lambda>m. (m, Held (map fst (ix_entries I m))))"

type_synonym 'k IndexMapIterMut = "'k map_iter_mut"

definition IndexMapIterMut_next :: "'k IndexMapIterMut \<Rightarrow> 'k option \<times> 'k IndexMapIterMut" where
  "IndexMapIterMut_next it = map_iter_mut_next it"

definition IndexMapIterMut_deref :: "'k IndexMapIterMut \<Rightarrow> 'k list" where
  "IndexMapIterMut_deref it = mm_inner it"

definition IndexMapIterMut_deref_mut :: "('k list \<Rightarrow> 'k list) \<Rightarrow> 'k IndexMapIterMut \<Rightarrow> 'k IndexMapIterMut" where
  "IndexMapIterMut_deref_mut f it = it\<lparr>mm_inner := f (mm_inner it)\<rparr>"

definition SyncIndexMap_dirty_ref :: "('m, 'm) call" where
  "SyncIndexMap_dirty_ref = ReadCall (\<lambda>m. Pinned m)"

definition SyncIndexMap_index :: "('k, 'v, 'm) index_ops \<Rightarrow> ('m \<Rightarrow> 'k \<Rightarrow> bool) \<Rightarrow> 'k \<Rightarrow>
    ('m, 'v) call" where
  "SyncIndexMap_index I kp k = UnguardedCall (\<lambda>m.
     if kp m k then Panicked
     else (case ix_get I m k of Some v \<Rightarrow> Returned v | None \<Rightarrow> Panicked))"

section \<open>Methods that take \<open>&mut self\<close> or \<open>self\<close>\<close>

definition SyncIndexMap_insert_mut :: "('k, 'v, 'm) index_ops \<Rightarrow> ('m \<Rightarrow> 'k \<Rightarrow> bool) \<Rightarrow> 'k \<Rightarrow> 'v \<Rightarrow>
    'm \<Rightarrow> ('m \<times> 'v option) option" where
  "SyncIndexMap_insert_mut I kp k v m = (if kp m k then None else Some (ix_insert I k v m))"

definition SyncIndexMap_remove_mut :: "('k, 'v, 'm) index_ops \<Rightarrow> ('m \<Rightarrow> 'k \<Rightarrow> bool) \<Rightarrow> 'k \<Rightarrow>
    'm \<Rightarrow> ('m \<times> 'v option) option" where
  "SyncIndexMap_remove_mut I kp k m = (if kp m k then None else Some (ix_swap_remove I k m))"

definition SyncIndexMap_clear_mut :: "('k, 'v, 'm) index_ops \<Rightarrow> 'm \<Rightarrow> 'm" where
  "SyncIndexMap_clear_mut I m = ix_clear I m"

definition SyncIndexMap_shrink_to_fit_mut :: "('k, 'v, 'm) index_ops \<Rightarrow> 'm \<Rightarrow> 'm" where
  "SyncIndexMap_shrink_to_fit_mut I m = ix_shrink_to_fit I m"

definition SyncIndexMap_into_inner :: "('m, 'l) SyncIndexMap \<Rightarrow> 'm" where
  "SyncIndexMap_into_inner s = dirty s"

definition SyncIndexMap_into_iter ::
    "('k, 'v, 'm) index_ops \<Rightarrow> ('m, 'l) SyncIndexMap \<Rightarrow> ('k \<times> 'v) list" where
  "SyncIndexMap_into_iter I s = ix_entries I (SyncIndexMap_into_inner s)"

text \<open>The two \<open>IntoIterator\<close>: a map that is owned, and a reference to one.\<close>

definition SyncIndexMap_IntoIter ::
    "('k, 'v, 'm) index_ops \<Rightarrow> ('m, 'l) SyncIndexMap \<Rightarrow> ('k \<times> 'v) list" where
  "SyncIndexMap_IntoIter I s = SyncIndexMap_into_iter I s"

definition SyncIndexMap_ref_IntoIter :: "('k, 'v, 'm) index_ops \<Rightarrow> ('m, ('k \<times> 'v) list) call" where
  "SyncIndexMap_ref_IntoIter I = SyncIndexMap_iter I"

section \<open>Trait implementations\<close>

definition SyncIndexMap_serialize :: "('m \<Rightarrow> 'o option) \<Rightarrow> ('m, 'o) call" where
  "SyncIndexMap_serialize ser = ReadCall (\<lambda>m. under_guard (ser m))"

definition SyncIndexMap_deserialize :: "'l mutex_ops \<Rightarrow> ('i \<Rightarrow> 'e + 'm) \<Rightarrow> 'i \<Rightarrow> usize \<Rightarrow>
    'e + ('m, 'l) SyncIndexMap \<times> usize" where
  "SyncIndexMap_deserialize M de x next =
     (case de x of Inl e \<Rightarrow> Inl e | Inr m \<Rightarrow> Inr (SyncIndexMap_from M m next))"

definition SyncIndexMap_fmt :: "('m \<Rightarrow> fmt_result option) \<Rightarrow> ('m, fmt_result) call" where
  "SyncIndexMap_fmt fmt = ReadCall (\<lambda>m. under_guard (fmt m))"

text \<open>
  \<open>Clone::clone\<close>: a copy of the contents under a temporary \<open>dirty_ref\<close>, then a new container.
  \<open>cl\<close> is the clone of \<open>IndexMap\<close>; \<open>None\<close>: the \<open>Clone\<close> of a key or a value panics.
\<close>

definition SyncIndexMap_copy :: "('m \<Rightarrow> 'm option) \<Rightarrow> ('m, 'm) call" where
  "SyncIndexMap_copy cl = ReadCall (\<lambda>m. under_guard (cl m))"

definition SyncIndexMap_clone :: "'l mutex_ops \<Rightarrow> ('m \<Rightarrow> 'm option) \<Rightarrow> tid \<Rightarrow> ('m, 'l, 'm) sys \<Rightarrow> usize \<Rightarrow>
    ('m, 'l, 'm) sys \<times> (('m, 'l) SyncIndexMap \<times> usize) option" where
  "SyncIndexMap_clone M cl t s next =
     (let s' = exec M t (SyncIndexMap_copy cl) s in
      (s', case ret s' t of Some (Returned m) \<Rightarrow> Some (SyncIndexMap_from M m next) | _ \<Rightarrow> None))"

section \<open>The contract\<close>

lemmas SyncIndexMap_defs = SyncIndexMap_insert_def SyncIndexMap_remove_def SyncIndexMap_len_def
  SyncIndexMap_is_empty_def SyncIndexMap_clear_def SyncIndexMap_shrink_to_fit_def
  SyncIndexMap_get_def SyncIndexMap_get_mut_def SyncIndexMap_contains_key_def SyncIndexMap_iter_def
  SyncIndexMap_iter_mut_def SyncIndexMap_dirty_ref_def SyncIndexMap_index_def

lemma index_card:
  assumes "index_laws I" "ix_valid I m"
  shows "card (fst ` set (ix_entries I m)) = length (ix_entries I m)"
  using distinct_card [OF index_map(1) [OF assms]] by simp

lemmas index_swap_map_of = swap_remove_map_of [OF index_map(1)]

interpretation index: sync_map "\<lambda>m. index_laws I \<and> ix_valid I m" "\<lambda>m. map_of (ix_entries I m)"
  "SyncIndexMap_insert I calm" "SyncIndexMap_remove I calm" "SyncIndexMap_get I calm"
  "SyncIndexMap_contains_key I calm" "SyncIndexMap_len I" "SyncIndexMap_is_empty I"
  "SyncIndexMap_clear I" for I
  by unfold_locales
    (simp_all add: SyncIndexMap_defs calm_def split_beta Let_def index_map(2-) index_key index_put
      put_entry_map_of index_swap_map_of index_card dom_map_of_conv_image_fst split: option.splits)

interpretation index_shared: shared_map "\<lambda>m. index_laws I \<and> ix_valid I m"
  "\<lambda>m. map_of (ix_entries I m)" "SyncIndexMap_insert I calm" "SyncIndexMap_remove I calm"
  "SyncIndexMap_get I calm" "SyncIndexMap_contains_key I calm" "SyncIndexMap_len I"
  "SyncIndexMap_is_empty I" "SyncIndexMap_clear I"
  "\<lambda>s. mutex_laws M \<and> reach M c s \<and> quiet s" dirty ret "exec_and_drop M" for I M c
  by intro_locales

interpretation index_guarded: guarded_map "\<lambda>m. index_laws I \<and> ix_valid I m"
  "\<lambda>m. map_of (ix_entries I m)" "SyncIndexMap_insert I calm" "SyncIndexMap_remove I calm"
  "SyncIndexMap_get I calm" "SyncIndexMap_contains_key I calm" "SyncIndexMap_len I"
  "SyncIndexMap_is_empty I" "SyncIndexMap_clear I" "SyncIndexMap_get_mut I calm" "ix_store I" for I
  by unfold_locales
    (simp_all add: SyncIndexMap_defs calm_def index_key index_put set_entry_map_of split: option.splits)

definition index_call :: "('k, 'v, 'm) index_ops \<Rightarrow> ('k, 'v) map_op \<Rightarrow> ('m, 'v map_result) call" where
  "index_call I = dispatch (SyncIndexMap_insert I calm) (SyncIndexMap_remove I calm)
     (SyncIndexMap_get I calm) (SyncIndexMap_contains_key I calm) (SyncIndexMap_len I)
     (SyncIndexMap_is_empty I) (SyncIndexMap_clear I)"

section \<open>Correctness\<close>

text \<open>
  Property C18.  \<open>SyncIndexMap\<close> is linearizable with respect to the partial function, for every
  \<open>IndexMap\<close> that behaves as documented: in every reachable state, if the accesses so far are
  those of the acts \<open>as\<close> in that order (calls of the methods, of \<open>get_mut\<close>, and stores through
  its guards), every call has returned what the partial function gives, and the contents are
  valid and stand for the partial function that \<open>as\<close> leave.
\<close>

theorem index_linearizes:
  assumes "mutex_laws M" and "index_laws I" and "reach M m s" and "ix_valid I m"
    and "list_all2 (act_event (index_call I) (SyncIndexMap_get_mut I calm) (ix_store I)) as (hist s)"
  shows "ix_valid I (dirty s) \<and>
    map_of (ix_entries I (dirty s)) = fst (ref_acts as (map_of (ix_entries I m))) \<and>
    map event_value (hist s) = map (map_option Returned) (snd (ref_acts as (map_of (ix_entries I m))))"
  using index_guarded.history_refines [OF assms(1,3), of I as] assms(2,4,5)
  by (simp add: index_call_def)

text \<open>
  Calls that threads make one after the other all return, and what they return is
  what the partial function gives.
\<close>

theorem index_calls_in_turn:
  fixes ops :: "('k, 'v) map_op list"
  assumes "mutex_laws M" and "index_laws I" and "reach M m s" and "quiet s" and "ix_valid I (dirty s)"
    and "length ts = length ops"
  defines "s' \<equiv> fold (\<lambda>(t, m). exec_and_drop M t m) (zip ts (map (index_call I) ops)) s"
  shows "quiet s' \<and>
    map_of (ix_entries I (dirty s')) = fst (ref_ops ops (map_of (ix_entries I (dirty s)))) \<and>
    ret (exec_and_drop M t (index_call I op) s') t =
      Some (Returned (snd (ref_op op (fst (ref_ops ops (map_of (ix_entries I (dirty s))))))))"
  using index_shared.shared_run [of M m s I ts ops t op] assms by (simp add: index_call_def)

text \<open>
  Property C25.  \<open>remove\<close> perturbs the order in one place only: it returns the value of the key,
  and the entry that was last takes the place of the removed one (or, when the removed one was
  last, the rest stays as it is).
\<close>

theorem index_remove_moves_last:
  fixes t :: tid
  assumes "mutex_laws M" and "index_laws I" and "reach M c s" and "quiet s" and "ix_valid I (dirty s)"
    and "ix_entries I (dirty s) = es @ (k, v) # fs"
  defines "s' \<equiv> exec M t (SyncIndexMap_remove I calm k) s"
  shows "ret s' t = Some (Returned (Some v)) \<and> quiet s' \<and>
    ix_entries I (dirty s') = es @ (if fs = [] then [] else last fs # butlast fs)"
proof -
  let ?m = "dirty s"
  note ok = assms(2,5)
  have k: "k \<notin> fst ` set es" using index_map(1) [OF ok] assms(6) by auto
  have v: "map_of (ix_entries I ?m) k = Some v"
    using k by (simp add: assms(6) map_add_def map_of_eq_None_iff [THEN iffD2])
  have "entry_pos k (ix_entries I ?m) = Some (length es)" using entry_pos_first [OF k] assms(6) by simp
  then have swap: "swap_remove_entry k (ix_entries I ?m) = es @ (if fs = [] then [] else last fs # butlast fs)"
    by (simp add: swap_remove_entry_def assms(6) butlast_append)
  have "effect (SyncIndexMap_remove I calm k) ?m = (fst (ix_swap_remove I k ?m), Returned (Some v))"
    "releases (SyncIndexMap_remove I calm k) ?m"
    using index_key(5) [OF ok, of k] v
    by (simp_all add: SyncIndexMap_defs calm_def releases_def split_beta Let_def)
  then show ?thesis
    using exec_effect [OF assms(1,3,4), of t "SyncIndexMap_remove I calm k"]
      exec_quiet [OF assms(1,3,4)] index_key(4) [OF ok, of k] swap by (simp add: s'_def)
qed

text \<open>Insertions one after the other, on the entries.\<close>

lemma effects_inserts:
  assumes "index_laws I" "ix_valid I m"
  shows "ix_valid I (effects (map (\<lambda>(k, v). index_call I (OpInsert k v)) ps) m) \<and>
    ix_entries I (effects (map (\<lambda>(k, v). index_call I (OpInsert k v)) ps) m) =
      fold (\<lambda>(k, v). put_entry k v) ps (ix_entries I m)"
  using assms(2)
proof (induction ps arbitrary: m)
  case (Cons p ps)
  obtain k v where p: "p = (k, v)" by (cases p)
  have "fst (effect (index_call I (OpInsert k v)) m) = fst (ix_insert I k v m)"
    by (simp add: index_call_def effect_map_call SyncIndexMap_defs calm_def split_beta Let_def)
  then show ?case using Cons.IH [of "fst (ix_insert I k v m)"] Cons.prems index_put(1,2) [OF assms(1)]
    by (simp add: p)
qed simp

lemma fold_put_entry:
  "map fst (fold (\<lambda>(k, v). put_entry k v) ps []) = rev (remdups (rev (map fst ps)))"
  "map_of (fold (\<lambda>(k, v). put_entry k v) ps []) = map_of (rev ps)"
proof (induction ps rule: rev_induct)
  case (snoc p ps)
  obtain k v where p: "p = (k, v)" by (cases p)
  have keys: "fst ` set (fold (\<lambda>(k, v). put_entry k v) ps []) = fst ` set ps"
    using arg_cong [OF snoc.IH(1), of set] by simp
  {
    case 1
    show ?case using snoc.IH(1) keys by (simp add: p put_entry_order)
  next
    case 2
    show ?case using snoc.IH(2) by (simp add: p put_entry_map_of fun_eq_iff)
  }
qed simp_all

text \<open>
  The order of iteration is the order in which the keys were first inserted: when
  the writing accesses so far are insertions of the pairs \<open>ps\<close>, in this order, into an empty
  map, the keys stand in the order of their first occurrence in \<open>ps\<close>, each with the value of
  its last occurrence.
\<close>

theorem index_insertion_order:
  assumes "mutex_laws M" and "index_laws I" and "reach M (ix_new I) s"
    and "list_all2 event_of (map (\<lambda>(k, v). index_call I (OpInsert k v)) ps) (filter is_write (hist s))"
  shows "map fst (ix_entries I (dirty s)) = rev (remdups (rev (map fst ps))) \<and>
    map_of (ix_entries I (dirty s)) = map_of (rev ps)"
  using effects_inserts [OF assms(2), of "ix_new I" ps] index_new [OF assms(2)]
    reach_effects [OF assms(1,3,4)] fold_put_entry [of ps] by simp

section \<open>Instances\<close>

text \<open>A concrete map that behaves as documented: the list of its entries.\<close>

definition entry_list :: "('k, 'v, ('k \<times> 'v) list) index_ops" where
  "entry_list = \<lparr>ix_new = [], ix_insert = (\<lambda>k v m. (put_entry k v m, map_of m k)),
     ix_swap_remove = (\<lambda>k m. (swap_remove_entry k m, map_of m k)), ix_get = map_of,
     ix_store = set_entry, ix_contains_key = (\<lambda>m k. map_of m k \<noteq> None), ix_len = length,
     ix_is_empty = (\<lambda>m. m = []), ix_clear = (\<lambda>m. []), ix_shrink_to_fit = (\<lambda>m. m),
     ix_entries = (\<lambda>m. m), ix_valid = (\<lambda>m. distinct (map fst m))\<rparr>"

lemma entry_list_laws: "index_laws entry_list"
  by (simp add: index_laws_def entry_list_def put_entry_distinct swap_remove_distinct set_entry_order)

definition index3 :: "((nat \<times> nat) list, tid option, 'r) sys" where
  "index3 = sys_with owner_mutex 1 [(1, 10), (2, 20), (3, 30)]"

lemma index3: "reach owner_mutex [(1, 10), (2, 20), (3, 30)] index3" "quiet index3"
  "dirty index3 = [(1, 10), (2, 20), (3, 30)]"
  and index3_valid: "ix_valid entry_list (dirty index3)"
  by (simp_all add: index3_def reach_new quiet_new entry_list_def)

lemmas on_index3 = owner_mutex_laws entry_list_laws index3(1,2) index3_valid

lemma index_two_calls:
  "\<exists>s :: ((nat \<times> nat) list, tid option, nat map_result) sys. reach owner_mutex [] s \<and>
    list_all2 event_of (map (index_call entry_list) [OpInsert 5 50, OpInsert 1 10]) (hist s) \<and>
    filter is_write (hist s) = hist s"
  by (rule reach_by_schedule [where i = 1 and as = "[(0, Start (index_call entry_list (OpInsert 5 50))),
      (1, Start (index_call entry_list (OpInsert 1 10))), (0, Run), (0, Run), (0, Run), (0, Run),
      (0, Run), (0, Run), (0, Run), (0, Run), (0, Run), (1, Run), (1, Run), (1, Run), (1, Run),
      (1, Run), (1, Run), (1, Run)]"])
    (simp_all add: perform_def advance_def action_defs Let_def index_call_def SyncIndexMap_defs
      calm_def entry_list_def split_beta)

theorem index_linearizes_witness:
  "\<exists>s :: ((nat \<times> nat) list, tid option, nat map_result) sys. reach owner_mutex [] s \<and>
    map_of (ix_entries entry_list (dirty s)) 1 = Some 10"
proof -
  obtain s :: "((nat \<times> nat) list, tid option, nat map_result) sys" where s: "reach owner_mutex [] s"
    "list_all2 event_of (map (index_call entry_list) [OpInsert 5 50, OpInsert 1 10]) (hist s)"
    using index_two_calls by metis
  have v: "ix_valid entry_list []" by (simp add: entry_list_def)
  have "list_all2 (act_event (index_call entry_list) (SyncIndexMap_get_mut entry_list calm)
      (ix_store entry_list)) [Call (OpInsert 5 50), Call (OpInsert 1 10)] (hist s)"
    using s(2) by (auto simp: list_all2_Cons1)
  from index_linearizes [OF owner_mutex_laws entry_list_laws s(1) v this] s(1)
  show ?thesis by (intro exI [of _ s]) (simp add: entry_list_def)
qed

theorem index_calls_in_turn_witness:
  "ret (exec_and_drop owner_mutex 1 (index_call entry_list (OpRemove 1)) index3) 1 =
    Some (Returned (GotValue (Some 10)))"
  using index_calls_in_turn [OF on_index3, where ts = "[]" and ops = "[]" and t = 1
      and op = "OpRemove 1"] by (simp add: index3(3) entry_list_def)

theorem index_remove_moves_last_witness:
  "ix_entries entry_list (dirty (exec owner_mutex 0 (SyncIndexMap_remove entry_list calm 1) index3)) =
    [(3, 30), (2, 20)]"
  using index_remove_moves_last [OF on_index3, where es = "[]" and k = 1 and v = 10
      and fs = "[(2, 20), (3, 30)]" and t = 0] by (simp add: index3(3) entry_list_def)

theorem index_insertion_order_witness:
  "\<exists>s :: ((nat \<times> nat) list, tid option, nat map_result) sys. reach owner_mutex [] s \<and>
    map fst (ix_entries entry_list (dirty s)) = [5, 1]"
proof -
  obtain s :: "((nat \<times> nat) list, tid option, nat map_result) sys" where s: "reach owner_mutex [] s"
    and two: "list_all2 event_of (map (index_call entry_list) [OpInsert 5 50, OpInsert 1 10]) (filter is_write (hist s))"
    using index_two_calls by metis
  have new: "ix_new entry_list = []" by (simp add: entry_list_def)
  have "map (\<lambda>(k, v). index_call entry_list (OpInsert k v)) [(5, 50), (1, 10)] =
    map (index_call entry_list) [OpInsert 5 50, OpInsert 1 10]" by simp
  note order = index_insertion_order [OF owner_mutex_laws entry_list_laws, unfolded new, OF s(1),
    where ps = "[(5, 50), (1, 10)]", unfolded this, OF two]
  show ?thesis using s order by auto
qed

end
