(* ===== verification/Heap_Containers.thy ===== *)
theory Heap_Containers
  imports Rw_Heap_Reach Sync_Hash_Map Sync_Btree_Map Sync_Index_Map
begin

text \<open>
  The containers in a program on the heap: what the theories of the containers show of one
  container with the protocol of \<open>Rw_Lock\<close> holds of each container of a program that creates and
  drops any number of them, and whose threads find their counters through their tables.
\<close>

section \<open>From the lock to the heap\<close>

lemma heap_reach:
  assumes "machine_reach M m" "alive n m"
  shows "reach M (origin (objects m n)) (view_of n m)"
    and "dirty (view_of n m) = data (objects m n)" "hist (view_of n m) = past (objects m n)"
proof -
  show "reach M (origin (objects m n)) (view_of n m)"
    using machine_ok_reach [OF assms(1)] assms(2) by (simp add: machine_ok_def)
  obtain i reg where "conts (memory m) n = Some (i, reg)" using assms(2) by (auto simp: alive_def)
  then show "dirty (view_of n m) = data (objects m n)" "hist (view_of n m) = past (objects m n)"
    by (simp_all add: view_of_def)
qed

section \<open>The containers\<close>

text \<open>
  Property C15.  \<open>SyncHashMap\<close>, from the pointers of the reader slots to the partial function: in a
  program with any number of containers that come and go, if the accesses to one of them so far
  are those of the acts \<open>as\<close>, whatever threads made them and however they interleave, every call
  has returned what the partial function gives, and the contents are the partial function that
  \<open>as\<close> leave.
\<close>

theorem heap_hash_linearizes:
  assumes "mutex_laws M" and "machine_reach M m" and "alive n m"
    and "list_all2 (act_event hash_call (SyncHashMap_get_mut calm) HashMapRefMut_store) as (past (objects m n))"
  shows "fmlookup (data (objects m n)) = fst (ref_acts as (fmlookup (origin (objects m n)))) \<and>
    map event_value (past (objects m n)) =
      map (map_option Returned) (snd (ref_acts as (fmlookup (origin (objects m n)))))"
  using hash_guarded.history_refines [OF assms(1) heap_reach(1) [OF assms(2,3)] TrueI, of as] assms(4)
  by (simp add: hash_call_def heap_reach(2,3) [OF assms(2,3)])

text \<open>The same for the other two maps.\<close>

theorem heap_btree_linearizes:
  assumes "mutex_laws M" and "machine_reach M m" and "alive n m" and "bt_sorted (origin (objects m n))"
    and "list_all2 (act_event btree_call (SyncBtreeMap_get_mut calm) BtreeMapRefMut_store) as (past (objects m n))"
  shows "bt_sorted (data (objects m n)) \<and>
    map_of (data (objects m n)) = fst (ref_acts as (map_of (origin (objects m n)))) \<and>
    map event_value (past (objects m n)) =
      map (map_option Returned) (snd (ref_acts as (map_of (origin (objects m n)))))"
  using btree_guarded.history_refines [OF assms(1) heap_reach(1) [OF assms(2,3)] assms(4), of as] assms(5)
  by (simp add: btree_call_def heap_reach(2,3) [OF assms(2,3)])

theorem heap_index_linearizes:
  assumes "mutex_laws M" and "index_laws I" and "machine_reach M m" and "alive n m"
    and "ix_valid I (origin (objects m n))"
    and "list_all2 (act_event (index_call I) (SyncIndexMap_get_mut I calm) (ix_store I)) as (past (objects m n))"
  shows "ix_valid I (data (objects m n)) \<and>
    map_of (ix_entries I (data (objects m n))) =
      fst (ref_acts as (map_of (ix_entries I (origin (objects m n))))) \<and>
    map event_value (past (objects m n)) =
      map (map_option Returned) (snd (ref_acts as (map_of (ix_entries I (origin (objects m n))))))"
  using index_guarded.history_refines [OF assms(1) heap_reach(1) [OF assms(3,4)], of I as] assms(2,5,6)
  by (simp add: index_call_def heap_reach(2,3) [OF assms(3,4)])

section \<open>Instances\<close>

text \<open>
  A program with one map: an insertion, a store through the guard of \<open>get_mut\<close> of another thread,
  and a lookup that makes its counter while the guard is alive and waits until it is dropped.
\<close>

type_synonym map_machine = "((nat, nat) fmap, tid option, nat map_result) machine"

definition map_machine0 :: map_machine where
  "map_machine0 = create owner_mutex fmempty
     \<lparr>memory = new_world, objects = (\<lambda>_. new_object owner_mutex fmempty)\<rparr>"

definition map_schedule :: "(tid \<times> addr \<times> ((nat, nat) fmap, nat map_result) action) list" where
  "map_schedule = [(0, 5, Start (hash_call (OpInsert 1 10))),
      (0, 5, Run), (0, 5, Run), (0, 5, Run), (0, 5, Run), (0, 5, Run), (0, 5, Run), (0, 5, Run), (0, 5, Run), (0, 5, Run),
      (2, 5, Start (map_call GotValue (SyncHashMap_get_mut calm 1))), (2, 5, Run), (2, 5, Run), (2, 5, Run),
      (2, 5, Run), (2, 5, Run), (2, 5, Run), (2, 5, Run), (0, 5, Start (hash_call (OpGet 1))), (0, 5, Run), (0, 5, Run),
      (0, 6, Run), (2, 6, WriteThrough (HashMapRefMut_store 1 11)), (0, 6, Run), (0, 6, Run), (0, 6, Run),
      (2, 6, DropWriteGuard), (2, 6, Run), (2, 6, Run), (0, 6, Run), (0, 6, Run), (0, 6, Run)]"

definition map_machine1 :: map_machine where
  "map_machine1 = the (machine_run owner_mutex 0 map_schedule map_machine0)"

lemma map_machine1: "machine_run owner_mutex 0 map_schedule map_machine0 = Some map_machine1"
  "conts (memory map_machine1) 0 = Some (0, [5])" "origin (objects map_machine1 0) = fmempty"
  "list_all2 (act_event hash_call (SyncHashMap_get_mut calm) HashMapRefMut_store)
      [Call (OpInsert 1 10), GetMut 1, Store 1 11, Call (OpGet 1)] (past (objects map_machine1 0))"
  by (simp_all add: map_machine1_def map_machine0_def map_schedule_def machine_defs hash_call_def
      SyncHashMap_defs calm_def HashMapRefMut_store_def)

lemma map_machine1_reach: "machine_reach owner_mutex map_machine1"
proof (rule machine_run_reach [OF _ _ map_machine1(1)])
  show "machine_reach owner_mutex map_machine0"
    unfolding map_machine0_def by (intro machine_create machine_start) (simp_all add: new_world_def)
qed (simp_all add: alive_def map_machine0_def create_def create_container_def new_world_def kept_guards_def
    new_object_def map_schedule_def)

theorem heap_hash_linearizes_witness:
  "fmlookup (data (objects map_machine1 0)) 1 = Some 11 \<and>
    map event_value (past (objects map_machine1 0)) = [Some (Returned (GotValue None)),
      Some (Returned (GotValue (Some 10))), None, Some (Returned (GotValue (Some 11)))]"
  using heap_hash_linearizes [OF owner_mutex_laws map_machine1_reach _ map_machine1(4)] map_machine1(2,3)
  by (simp add: alive_def)

end
