(* ===== verification/Sync_Vec.thy ===== *)
theory Sync_Vec
  imports Guards
begin

text \<open>
  \<open>SyncVec\<close> (\<open>src/src/sync/vec.rs\<close>): the contents are a \<open>Vec<V>\<close>, modelled as a list (its
  capacity is not modelled, nor the abort when memory runs out).  A method that takes \<open>&self\<close>
  is a call of \<open>Rw_Lock\<close>: \<open>ReadCall\<close> where the code starts with \<open>begin_read\<close>, \<open>WriteCall\<close>
  where it starts with \<open>begin_write\<close>.  Methods that take \<open>&mut self\<close> or \<open>self\<close> touch the
  contents directly and are functions on the contents.
\<close>

section \<open>The methods of \<open>Vec\<close> the code uses\<close>

text \<open>\<open>Vec::insert\<close> panics when \<open>index > len\<close>.\<close>

definition vec_insert :: "usize \<Rightarrow> 'v \<Rightarrow> 'v list \<Rightarrow> 'v list option" where
  "vec_insert i v xs =
     (if unat i \<le> length xs then Some (take (unat i) xs @ v # drop (unat i) xs) else None)"

text \<open>\<open>Vec::remove\<close> panics when \<open>index >= len\<close>; it returns the element and shifts the rest.\<close>

definition vec_remove :: "usize \<Rightarrow> 'v list \<Rightarrow> ('v list \<times> 'v) option" where
  "vec_remove i xs =
     (if unat i < length xs then Some (take (unat i) xs @ drop (Suc (unat i)) xs, xs ! unat i)
      else None)"

definition vec_pop :: "'v list \<Rightarrow> 'v list \<times> 'v option" where
  "vec_pop xs = (if xs = [] then (xs, None) else (butlast xs, Some (last xs)))"

definition vec_get :: "'v list \<Rightarrow> usize \<Rightarrow> 'v option" where
  "vec_get xs i = (if unat i < length xs then Some (xs ! unat i) else None)"

text \<open>
  \<open>slice::contains\<close>: \<open>iter().any(|y| *y == *x)\<close>, which stops at the first equal element;
  \<open>eq y x = None\<close> when the element type's \<open>PartialEq\<close> panics.
\<close>

fun vec_contains :: "('v \<Rightarrow> 'v \<Rightarrow> bool option) \<Rightarrow> 'v list \<Rightarrow> 'v \<Rightarrow> bool option" where
  "vec_contains eq [] x = Some False"
| "vec_contains eq (y # ys) x =
     (case eq y x of
        None \<Rightarrow> None
      | Some True \<Rightarrow> Some True
      | Some False \<Rightarrow> vec_contains eq ys x)"

section \<open>Construction\<close>

text \<open>
  \<open>struct SyncVec\<close>.  The actions of its \<open>begin_read\<close> and \<open>begin_write\<close> are \<open>begin_read_step\<close>
  and \<open>begin_write_step\<close> of \<open>Rw_Lock\<close>.
\<close>

type_synonym ('v, 'l) SyncVec = "('v list, 'l) container"

text \<open>The constructors: the contents and the id from \<open>CONTAINER_ID\<close>, which is advanced.\<close>

definition SyncVec_with_vec :: "'l mutex_ops \<Rightarrow> 'v list \<Rightarrow> usize \<Rightarrow> ('v, 'l) SyncVec \<times> usize" where
  "SyncVec_with_vec M xs next = (container_with M next xs, next + 1)"

definition SyncVec_new :: "'l mutex_ops \<Rightarrow> usize \<Rightarrow> ('v, 'l) SyncVec \<times> usize" where
  "SyncVec_new M next = (container_with M next [], next + 1)"

text \<open>\<open>new_arc\<close>: the \<open>Arc\<close> around it only shares it.\<close>

definition SyncVec_new_arc :: "'l mutex_ops \<Rightarrow> usize \<Rightarrow> ('v, 'l) SyncVec \<times> usize" where
  "SyncVec_new_arc M next = SyncVec_new M next"

definition SyncVec_with_capacity ::
    "'l mutex_ops \<Rightarrow> usize \<Rightarrow> usize \<Rightarrow> ('v, 'l) SyncVec \<times> usize" where
  "SyncVec_with_capacity M capacity next = (container_with M next [], next + 1)"

definition SyncVec_from :: "'l mutex_ops \<Rightarrow> 'v list \<Rightarrow> usize \<Rightarrow> ('v, 'l) SyncVec \<times> usize" where
  "SyncVec_from M xs next = SyncVec_with_vec M xs next"

definition SyncVec_default :: "'l mutex_ops \<Rightarrow> usize \<Rightarrow> ('v, 'l) SyncVec \<times> usize" where
  "SyncVec_default M next = SyncVec_new M next"

text \<open>The macro \<open>sync_vec!\<close>: no element, an element and a count, a list of elements.\<close>

datatype 'v sync_vec_args = NoElems | Repeat 'v usize | Elems "'v list"

fun sync_vec_macro :: "'l mutex_ops \<Rightarrow> 'v sync_vec_args \<Rightarrow> usize \<Rightarrow> ('v, 'l) SyncVec \<times> usize" where
  "sync_vec_macro M NoElems next = SyncVec_new M next"
| "sync_vec_macro M (Repeat e n) next = SyncVec_with_vec M (replicate (unat n) e) next"
| "sync_vec_macro M (Elems xs) next = SyncVec_with_vec M xs next"

section \<open>Methods that take \<open>&self\<close>\<close>

definition SyncVec_insert :: "usize \<Rightarrow> 'v \<Rightarrow> ('v list, 'v option) call" where
  "SyncVec_insert index v = WriteCall (\<lambda>m.
     case vec_insert index v m of
       Some m' \<Rightarrow> (m', Finished None)
     | None \<Rightarrow> (m, WritePanic))"

text \<open>
  \<open>set\<close> and \<open>clear\<close> drop elements while they have the write lock; \<open>dr v\<close>: the destructor of \<open>v\<close>
  panics.  An assignment \<open>m[index] = v\<close> drops the old value and then moves the new one in, also
  when it unwinds.
\<close>

definition SyncVec_set :: "('v \<Rightarrow> bool) \<Rightarrow> usize \<Rightarrow> 'v \<Rightarrow> ('v list, 'v option) call" where
  "SyncVec_set dr index v = WriteCall (\<lambda>m.
     if unat index < length m
     then (m[unat index := v], if dr (m ! unat index) then WritePanic else Finished None)
     else (m, WritePanic))"

definition SyncVec_push :: "'v \<Rightarrow> ('v list, 'v option) call" where
  "SyncVec_push v = WriteCall (\<lambda>m. (m @ [v], Finished None))"

definition SyncVec_pushes :: "'v list \<Rightarrow> ('v list, 'v option) call" where
  "SyncVec_pushes arr = WriteCall (\<lambda>m. (m @ arr, Finished None))"

definition SyncVec_pop :: "('v list, 'v option) call" where
  "SyncVec_pop = WriteCall (\<lambda>m. let (m', r) = vec_pop m in (m', Finished r))"

definition SyncVec_remove :: "usize \<Rightarrow> ('v list, 'v option) call" where
  "SyncVec_remove index = WriteCall (\<lambda>m.
     if length m > unat index
     then (case vec_remove index m of
             Some (m', v) \<Rightarrow> (m', Finished (Some v))
           | None \<Rightarrow> (m, WritePanic))
     else (m, Finished None))"

definition SyncVec_len :: "('v list, usize) call" where
  "SyncVec_len = ReadCall (\<lambda>m. Unpinned (of_nat (length m)))"

definition SyncVec_is_empty :: "('v list, bool) call" where
  "SyncVec_is_empty = ReadCall (\<lambda>m. Unpinned (m = []))"

text \<open>
  \<open>Vec::clear\<close> sets the length to zero and then drops all elements, also those after one whose
  destructor panics (a second panic would end the process).
\<close>

definition SyncVec_clear :: "('v \<Rightarrow> bool) \<Rightarrow> ('v list, unit) call" where
  "SyncVec_clear dr = WriteCall (\<lambda>m. ([], if list_ex dr m then WritePanic else Finished ()))"

definition SyncVec_shrink_to_fit :: "('v list, unit) call" where
  "SyncVec_shrink_to_fit = WriteCall (\<lambda>m. (m, Finished ()))"

text \<open>
  The result of \<open>get\<close> is a \<open>VecGet\<close>, a \<open>ReadGuard\<close> on the place of the element: its slot stays
  pinned.  The result of the call is the value that the guard shows at that moment.
\<close>

type_synonym 'v VecGet = "('v list, 'v) read_guard"

definition vec_place :: "usize \<Rightarrow> 'v list \<Rightarrow> 'v" where
  "vec_place index m = m ! unat index"

definition SyncVec_get :: "usize \<Rightarrow> ('v list, 'v option) call" where
  "SyncVec_get index = ReadCall (\<lambda>m.
     case vec_get m index of
       Some v \<Rightarrow> Pinned (Some v)
     | None \<Rightarrow> Unpinned None)"

text \<open>
  The result of \<open>get_mut\<close> is a \<open>VecRefMut\<close>, a \<open>WriteGuard\<close> on the element; \<open>*guard = v\<close>
  through it stores at the same index.
\<close>

type_synonym 'v VecRefMut = "('v list, 'v) write_guard"

definition SyncVec_get_mut :: "usize \<Rightarrow> ('v list, 'v option) call" where
  "SyncVec_get_mut index = WriteCall (\<lambda>m.
     case vec_get m index of
       Some v \<Rightarrow> (m, Held (Some v))
     | None \<Rightarrow> (m, Finished None))"

definition SyncVec_get_mut_store :: "usize \<Rightarrow> 'v \<Rightarrow> 'v list \<Rightarrow> 'v list" where
  "SyncVec_get_mut_store index v m = m[unat index := v]"

definition vec_ref_mut :: "usize \<Rightarrow> 'v VecRefMut" where
  "vec_ref_mut index = WriteGuard_new (vec_place index) (SyncVec_get_mut_store index)"

text \<open>\<open>get_unchecked\<close> has undefined behaviour out of range: the result is then \<open>None\<close>.\<close>

definition SyncVec_get_uncheck :: "usize \<Rightarrow> ('v list, 'v option) call" where
  "SyncVec_get_uncheck index = UnguardedCall (\<lambda>m. Returned (vec_get m index))"

text \<open>\<open>Index::index\<close>: no slot and no lock; \<open>expect("index out of bounds")\<close> panics.\<close>

definition SyncVec_index :: "usize \<Rightarrow> ('v list, 'v) call" where
  "SyncVec_index index = UnguardedCall (\<lambda>m.
     case vec_get m index of Some v \<Rightarrow> Returned v | None \<Rightarrow> Panicked)"

definition SyncVec_contains :: "('v \<Rightarrow> 'v \<Rightarrow> bool option) \<Rightarrow> 'v \<Rightarrow> ('v list, bool) call" where
  "SyncVec_contains eq x = ReadCall (\<lambda>m.
     case vec_contains eq m x of
       Some b \<Rightarrow> Unpinned b
     | None \<Rightarrow> ReadPanic)"

definition SyncVec_dirty_ref :: "('v list, 'v list) call" where
  "SyncVec_dirty_ref = ReadCall (\<lambda>m. Pinned m)"

section \<open>Iterators\<close>

text \<open>
  \<open>VecIter\<close> holds a slot and the range of positions that are still to come.  Its items are
  references to elements, that is, positions; the slot is released when it is dropped.  (Theory
  \<open>Vec_Items\<close> has the threads that own iterators and items, and the lifetimes.)
\<close>

record VecIter =
  vi_count :: nat
  vi_inner :: "nat \<times> nat"

fun slice_next :: "nat \<times> nat \<Rightarrow> nat option \<times> (nat \<times> nat)" where
  "slice_next (i, n) = (if i < n then (Some i, (Suc i, n)) else (None, (i, n)))"

definition VecIter_next :: "VecIter \<Rightarrow> nat option \<times> VecIter" where
  "VecIter_next it =
     (let (x, inner) = slice_next (vi_inner it) in (x, it\<lparr>vi_inner := inner\<rparr>))"

definition VecIter_drop :: "tid \<Rightarrow> VecIter \<Rightarrow> ('c, 'l, 'r) sys \<Rightarrow> ('c, 'l, 'r) sys" where
  "VecIter_drop t it s = drop_guard t (vi_count it) s"

text \<open>The result of the call is the field \<open>inner\<close>; the counter is that of the pinned slot.\<close>

definition SyncVec_iter :: "('v list, nat \<times> nat) call" where
  "SyncVec_iter = ReadCall (\<lambda>m. Pinned (0, length m))"

text \<open>
  \<open>VecIterMut\<close> holds the write lock and the range of positions that are still to come;
  assigning to the item it gives stores at that position.  \<open>Deref\<close> and \<open>DerefMut\<close> give access
  to the slice iterator itself.
\<close>

record VecIterMut =
  vm_inner :: "nat \<times> nat"

definition SyncVec_iter_mut :: "('v list, nat \<times> nat) call" where
  "SyncVec_iter_mut = WriteCall (\<lambda>m. (m, Held (0, length m)))"

definition VecIterMut_next :: "VecIterMut \<Rightarrow> nat option \<times> VecIterMut" where
  "VecIterMut_next it =
     (let (x, inner) = slice_next (vm_inner it) in (x, it\<lparr>vm_inner := inner\<rparr>))"

definition VecIterMut_deref :: "VecIterMut \<Rightarrow> nat \<times> nat" where
  "VecIterMut_deref it = vm_inner it"

definition VecIterMut_deref_mut :: "(nat \<times> nat \<Rightarrow> nat \<times> nat) \<Rightarrow> VecIterMut \<Rightarrow> VecIterMut" where
  "VecIterMut_deref_mut f it = it\<lparr>vm_inner := f (vm_inner it)\<rparr>"

section \<open>Methods that take \<open>&mut self\<close> or \<open>self\<close>\<close>

definition SyncVec_push_mut :: "'v \<Rightarrow> 'v list \<Rightarrow> 'v list \<times> 'v option" where
  "SyncVec_push_mut v m = (m @ [v], None)"

definition SyncVec_pop_mut :: "'v list \<Rightarrow> 'v list \<times> 'v option" where
  "SyncVec_pop_mut m = vec_pop m"

definition SyncVec_remove_mut :: "usize \<Rightarrow> 'v list \<Rightarrow> ('v list \<times> 'v option) option" where
  "SyncVec_remove_mut index m =
     (if length m > unat index then map_option (\<lambda>(m', v). (m', Some v)) (vec_remove index m)
      else Some (m, None))"

definition SyncVec_into_inner :: "('v, 'l) SyncVec \<Rightarrow> 'v list" where
  "SyncVec_into_inner s = dirty s"

definition SyncVec_into_iter :: "('v, 'l) SyncVec \<Rightarrow> 'v list" where
  "SyncVec_into_iter s = SyncVec_into_inner s"

text \<open>The two \<open>IntoIterator\<close>: a vector that is owned, and a reference to one.\<close>

definition SyncVec_IntoIter :: "('v, 'l) SyncVec \<Rightarrow> 'v list" where
  "SyncVec_IntoIter s = SyncVec_into_iter s"

definition SyncVec_ref_IntoIter :: "('v list, nat \<times> nat) call" where
  "SyncVec_ref_IntoIter = SyncVec_iter"

section \<open>Trait implementations\<close>

text \<open>
  \<open>Serialize\<close>, \<open>Debug\<close> and \<open>Display\<close> run the trait of the contents (\<open>ser\<close>, \<open>fmt\<close>; \<open>None\<close>: the
  element type's code panics) under a temporary \<open>dirty_ref\<close> guard, which is dropped at the end
  of the statement, or by unwinding.
\<close>

definition SyncVec_serialize :: "('v list \<Rightarrow> 'o option) \<Rightarrow> ('v list, 'o) call" where
  "SyncVec_serialize ser = ReadCall (\<lambda>m. under_guard (ser m))"

definition SyncVec_deserialize ::
    "'l mutex_ops \<Rightarrow> ('i \<Rightarrow> 'e + 'v list) \<Rightarrow> 'i \<Rightarrow> usize \<Rightarrow> 'e + ('v, 'l) SyncVec \<times> usize" where
  "SyncVec_deserialize M de x next =
     (case de x of Inl e \<Rightarrow> Inl e | Inr m \<Rightarrow> Inr (SyncVec_from M m next))"

definition SyncVec_fmt :: "('v list \<Rightarrow> fmt_result option) \<Rightarrow> ('v list, fmt_result) call" where
  "SyncVec_fmt fmt = ReadCall (\<lambda>m. under_guard (fmt m))"

text \<open>
  \<open>Clone::clone\<close>: \<open>dirty_ref().to_vec()\<close> clones the elements in order (\<open>cl\<close>; \<open>None\<close>: the
  element's \<open>Clone\<close> panics), and the copies go into a new container.  The second result is
  \<open>None\<close> when the call has panicked, and no container is made.
\<close>

definition SyncVec_to_vec :: "('v \<Rightarrow> 'v option) \<Rightarrow> ('v list, 'v list) call" where
  "SyncVec_to_vec cl = ReadCall (\<lambda>m. under_guard (those (map cl m)))"

definition SyncVec_clone :: "'l mutex_ops \<Rightarrow> ('v \<Rightarrow> 'v option) \<Rightarrow> tid \<Rightarrow>
    ('v list, 'l, 'v list) sys \<Rightarrow> usize \<Rightarrow>
    ('v list, 'l, 'v list) sys \<times> (('v, 'l) SyncVec \<times> usize) option" where
  "SyncVec_clone M cl t s next =
     (let s' = exec M t (SyncVec_to_vec cl) s in
      (s', case ret s' t of Some (Returned m) \<Rightarrow> Some (SyncVec_from M m next) | _ \<Rightarrow> None))"

text \<open>
  \<open>Vec == Vec\<close>: vectors of different length differ; otherwise the elements are compared in order
  up to the first two that differ.  \<open>None\<close>: the element type's \<open>PartialEq\<close> panics.
\<close>

fun elems_eq :: "('v \<Rightarrow> 'v \<Rightarrow> bool option) \<Rightarrow> 'v list \<Rightarrow> 'v list \<Rightarrow> bool option" where
  "elems_eq eq (x # xs) (y # ys) =
     (case eq x y of
        None \<Rightarrow> None
      | Some False \<Rightarrow> Some False
      | Some True \<Rightarrow> elems_eq eq xs ys)"
| "elems_eq eq _ _ = Some True"

definition vec_eq :: "('v \<Rightarrow> 'v \<Rightarrow> bool option) \<Rightarrow> 'v list \<Rightarrow> 'v list \<Rightarrow> bool option" where
  "vec_eq eq xs ys = (if length xs = length ys then elems_eq eq xs ys else Some False)"

text \<open>
  \<open>PartialEq::eq\<close>: a \<open>dirty_ref\<close> guard on each operand, both alive during the comparison and
  dropped after it, or by unwinding when it panics (here the operands are two different
  containers).
\<close>

definition SyncVec_eq :: "'l mutex_ops \<Rightarrow> ('v \<Rightarrow> 'v \<Rightarrow> bool option) \<Rightarrow> tid \<Rightarrow>
    ('v list, 'l, 'v list) sys \<Rightarrow> ('v list, 'l, 'v list) sys \<Rightarrow>
    bool outcome option \<times> ('v list, 'l, 'v list) sys \<times> ('v list, 'l, 'v list) sys" where
  "SyncVec_eq M eq t a b =
     (let a' = exec M t SyncVec_dirty_ref a;
          b' = exec M t SyncVec_dirty_ref b
      in (case (ret a' t, ret b' t) of
            (Some (Returned x), Some (Returned y)) \<Rightarrow> Some (user_outcome (vec_eq eq x y))
          | _ \<Rightarrow> None, drop_newest t a', drop_newest t b'))"

section \<open>Contents\<close>

lemmas SyncVec_defs = SyncVec_insert_def SyncVec_set_def SyncVec_push_def SyncVec_pushes_def
  SyncVec_pop_def SyncVec_remove_def SyncVec_len_def SyncVec_is_empty_def SyncVec_clear_def
  SyncVec_shrink_to_fit_def SyncVec_get_def SyncVec_get_mut_def SyncVec_get_uncheck_def
  SyncVec_index_def SyncVec_contains_def SyncVec_dirty_ref_def SyncVec_iter_def
  SyncVec_iter_mut_def SyncVec_serialize_def SyncVec_fmt_def SyncVec_to_vec_def

lemma vec_insert_remove:
  "vec_insert i v xs = Some ys \<Longrightarrow> vec_remove i ys = Some (xs, v)"
  by (auto simp: vec_insert_def vec_remove_def nth_append split: if_splits)

lemma vec_get_insert:
  assumes "vec_insert i v xs = Some ys"
  shows "vec_get ys j =
    (if j < i then vec_get xs j else if j = i then Some v else vec_get xs (j - 1))"
proof -
  have i: "unat i \<le> length xs" and ys: "ys = take (unat i) xs @ v # drop (unat i) xs"
    using assms by (auto simp: vec_insert_def split: if_splits)
  consider "j < i" | "j = i" | "i < j" by (rule linorder_cases)
  then show ?thesis
  proof cases
    case 1
    then have "unat j < unat i" by (simp add: word_less_nat_alt)
    then show ?thesis using 1 i ys by (simp add: vec_get_def nth_append)
  next
    case 2
    then show ?thesis using i ys by (simp add: vec_get_def nth_append)
  next
    case 3
    then have lt: "unat i < unat j" and nz: "j \<noteq> 0" by (auto simp: word_less_nat_alt)
    obtain k where k: "unat j = Suc k" "unat i \<le> k" using lt by (cases "unat j") auto
    have "unat (j - 1) = k" using unat_minus_one [OF nz] k by simp
    then show ?thesis using 3 i ys k by (auto simp: vec_get_def nth_append Suc_diff_le)
  qed
qed

lemma vec_contains_total:
  "(\<And>y. y \<in> set xs \<Longrightarrow> eq y x = Some (R y x)) \<Longrightarrow> vec_contains eq xs x = Some (\<exists>y \<in> set xs. R y x)"
proof (induction xs)
  case (Cons y ys)
  then show ?case by (cases "R y x") simp_all
qed simp

section \<open>Correctness\<close>

lemmas solo = exec_effect exec_quiet


lemma vec_get_range: "vec_get xs i = None \<longleftrightarrow> length xs \<le> unat i"
  by (auto simp: vec_get_def)

text \<open>
  Property C26.  \<open>insert\<close> then \<open>remove\<close> at the same index, by any two threads, is a round trip:
  \<open>remove\<close> gives the inserted value back, and the vector is what it was.
\<close>

theorem insert_remove_roundtrip:
  fixes t u :: tid and i :: usize and v :: 'v
  assumes "mutex_laws M" and "reach M c s" and "quiet s" and "unat i \<le> length (dirty s)"
  defines "s1 \<equiv> exec M t (SyncVec_insert i v) s"
  defines "s2 \<equiv> exec M u (SyncVec_remove i) s1"
  shows "ret s1 t = Some (Returned None) \<and> ret s2 u = Some (Returned (Some v)) \<and>
    dirty s2 = dirty s \<and> quiet s2"
proof -
  obtain ys where ys: "vec_insert i v (dirty s) = Some ys"
    using assms(4) by (simp add: vec_insert_def)
  have r: "vec_remove i ys = Some (dirty s, v)" by (rule vec_insert_remove [OF ys])
  have len: "unat i < length ys" using r by (simp add: vec_remove_def split: if_splits)
  have 1: "dirty s1 = ys" "ret s1 t = Some (Returned None)" "quiet s1" "reach M c s1"
    using solo [OF assms(1-3), where t = t and m = "SyncVec_insert i v"] exec_reach [OF assms(2,3)] ys
    by (simp_all add: s1_def SyncVec_insert_def releases_def)
  have "dirty s2 = dirty s" "ret s2 u = Some (Returned (Some v))" "quiet s2"
    using solo(1-3) [OF assms(1) 1(4,3), where t = u and m = "SyncVec_remove i"] r len 1(1)
    by (simp_all add: s2_def SyncVec_remove_def releases_def)
  then show ?thesis using 1(2) by blast
qed

text \<open>
  Property C27.  Indices out of range: \<open>insert\<close> beyond the end and \<open>set\<close> at or beyond it panic,
  \<open>remove\<close> and \<open>get\<close> return \<open>None\<close>; each of them leaves the vector as it was, with the write
  lock free and no reader slot pinned.
\<close>

theorem out_of_range:
  assumes "mutex_laws M" and "reach M c s" and "quiet s"
    and "length (dirty s) \<le> unat i" and "length (dirty s) < unat j"
    and "(m, r) \<in> {(SyncVec_insert j v, Panicked), (SyncVec_set dr i v, Panicked),
      (SyncVec_remove i, Returned None), (SyncVec_get i, Returned None),
      (SyncVec_get_mut i, Returned None)}"
  shows "dirty (exec M t m s) = dirty s \<and> quiet (exec M t m s) \<and> ret (exec M t m s) t = Some r"
proof -
  have "effect m (dirty s) = (dirty s, r)" "releases m (dirty s)"
    using assms(4-6) by (auto simp: SyncVec_defs vec_insert_def vec_get_def releases_def)
  then show ?thesis using solo [OF assms(1-3)] by simp
qed

text \<open>
  \<open>insert\<close> shifts: after it, \<open>get\<close> finds the new value at its index, the old
  values below it where they were, and those above it one place further up.
\<close>

theorem get_after_insert:
  assumes "mutex_laws M" and "reach M c s" and "quiet s" and "unat i \<le> length (dirty s)"
  shows "ret (exec M u (SyncVec_get j) (exec M t (SyncVec_insert i v) s)) u =
    Some (Returned (if j < i then vec_get (dirty s) j
                    else if j = i then Some v
                    else vec_get (dirty s) (j - 1)))"
proof -
  let ?s = "exec M t (SyncVec_insert i v) s"
  obtain ys where ys: "vec_insert i v (dirty s) = Some ys"
    using assms(4) by (simp add: vec_insert_def)
  have 1: "dirty ?s = ys" "quiet ?s" "reach M c ?s"
    using solo [OF assms(1-3), where t = t and m = "SyncVec_insert i v"] exec_reach [OF assms(2,3)] ys
    by (simp_all add: SyncVec_insert_def releases_def)
  have "ret (exec M u (SyncVec_get j) ?s) u = Some (Returned (vec_get ys j))"
    using exec_effect(2) [OF assms(1) 1(3,2), of u "SyncVec_get j"] 1(1)
    by (cases "vec_get ys j") (simp_all add: SyncVec_get_def)
  then show ?thesis using vec_get_insert [OF ys] by simp
qed

text \<open>
  The methods that take \<open>&mut self\<close> agree with those that take \<open>&self\<close> on a
  container that nobody uses: the same vector and the same result, without the lock.
\<close>

theorem mut_variants_agree:
  assumes "mutex_laws M" and "reach M c s" and "quiet s"
  shows "SyncVec_push_mut v (dirty s) = (dirty (exec M t (SyncVec_push v) s), None) \<and>
    ret (exec M t (SyncVec_push v) s) t = Some (Returned None) \<and>
    (\<exists>r. SyncVec_pop_mut (dirty s) = (dirty (exec M t SyncVec_pop s), r) \<and>
      ret (exec M t SyncVec_pop s) t = Some (Returned r)) \<and>
    (\<exists>r. SyncVec_remove_mut i (dirty s) = Some (dirty (exec M t (SyncVec_remove i) s), r) \<and>
      ret (exec M t (SyncVec_remove i) s) t = Some (Returned r))"
proof (intro conjI)
  note eff = exec_effect [OF assms]
  show "SyncVec_push_mut v (dirty s) = (dirty (exec M t (SyncVec_push v) s), None)"
    "ret (exec M t (SyncVec_push v) s) t = Some (Returned None)"
    by (simp_all add: eff SyncVec_push_def SyncVec_push_mut_def)
  show "\<exists>r. SyncVec_pop_mut (dirty s) = (dirty (exec M t SyncVec_pop s), r) \<and>
      ret (exec M t SyncVec_pop s) t = Some (Returned r)"
    by (cases "vec_pop (dirty s)") (simp add: eff SyncVec_pop_def SyncVec_pop_mut_def)
  show "\<exists>r. SyncVec_remove_mut i (dirty s) = Some (dirty (exec M t (SyncVec_remove i) s), r) \<and>
      ret (exec M t (SyncVec_remove i) s) t = Some (Returned r)"
    by (simp add: eff SyncVec_remove_def SyncVec_remove_mut_def vec_remove_def)
qed

text \<open>\<open>pushes\<close> leaves what as many calls of \<open>push\<close> leave.\<close>

theorem pushes_is_repeated_push:
  assumes "mutex_laws M" and "reach M c s" and "quiet s"
  shows "dirty (exec M t (SyncVec_pushes vs) s) = dirty (fold (\<lambda>v. exec M t (SyncVec_push v)) vs s)"
proof -
  have "dirty (fold (\<lambda>v. exec M t (SyncVec_push v)) vs s) = dirty s @ vs"
    using assms(2,3)
  proof (induction vs arbitrary: s)
    case (Cons v vs)
    let ?s = "exec M t (SyncVec_push v) s"
    have "quiet ?s" by (rule exec_quiet [OF assms(1) Cons.prems]) (simp add: SyncVec_push_def releases_def)
    then show ?case using Cons.IH [OF exec_reach [OF Cons.prems]] exec_effect [OF assms(1) Cons.prems]
      by (simp add: SyncVec_push_def)
  qed simp
  then show ?thesis using exec_effect [OF assms] by (simp add: SyncVec_pushes_def)
qed

lemma effects_push: "effects (map SyncVec_push vs) xs = xs @ vs"
  by (induction vs arbitrary: xs) (simp_all add: SyncVec_push_def)

text \<open>
  Property C19.  No push is lost: however the calls of any number of threads interleave, when
  the writing accesses so far are those of the pushes of \<open>vs\<close> (in this order), the vector is the
  initial one followed by \<open>vs\<close>.
\<close>

theorem pushes_all_arrive:
  assumes "mutex_laws M" and "reach M xs s"
    and "list_all2 event_of (map SyncVec_push vs) (filter is_write (hist s))"
  shows "dirty s = xs @ vs"
  using reach_effects [OF assms] by (simp add: effects_push)

lemma VecIterMut_next_simps [simp]:
  "VecIterMut_next \<lparr>vm_inner = (i, n)\<rparr> =
     (if i < n then (Some i, \<lparr>vm_inner = (Suc i, n)\<rparr>) else (None, \<lparr>vm_inner = (i, n)\<rparr>))"
  by (simp add: VecIterMut_next_def)

lemma VecIterMut_next_shorter:
  "(Some x, it') = VecIterMut_next it \<Longrightarrow>
   snd (vm_inner it') - fst (vm_inner it') < snd (vm_inner it) - fst (vm_inner it)"
  by (cases "vm_inner it") (auto simp: VecIterMut_next_def split: if_splits)

text \<open>A client's loop \<open>for x in v.iter_mut() { *x = f(*x) }\<close>.\<close>

function for_each_mut :: "('v \<Rightarrow> 'v) \<Rightarrow> VecIterMut \<Rightarrow> 'v list \<Rightarrow> 'v list" where
  "for_each_mut f it xs =
     (case VecIterMut_next it of
        (None, _) \<Rightarrow> xs
      | (Some i, it') \<Rightarrow> for_each_mut f it' (xs[i := f (xs ! i)]))"
  by pat_completeness auto
termination
  by (relation "measure (\<lambda>(f, it, xs). snd (vm_inner it) - fst (vm_inner it))")
    (auto dest: VecIterMut_next_shorter)

declare for_each_mut.simps [simp del]

lemma for_each_mut_map:
  "i \<le> length xs \<Longrightarrow>
   for_each_mut f \<lparr>vm_inner = (i, length xs)\<rparr> xs = take i xs @ map f (drop i xs)"
proof (induction "length xs - i" arbitrary: i xs)
  case 0
  then show ?case by (subst for_each_mut.simps) simp
next
  case (Suc n)
  then have i: "i < length xs" by simp
  let ?ys = "xs[i := f (xs ! i)]"
  have "for_each_mut f \<lparr>vm_inner = (i, length xs)\<rparr> xs =
      for_each_mut f \<lparr>vm_inner = (Suc i, length ?ys)\<rparr> ?ys"
    using i by (subst for_each_mut.simps) simp
  also have "\<dots> = take (Suc i) ?ys @ map f (drop (Suc i) ?ys)"
    using Suc(1) [of ?ys "Suc i"] Suc(2) i by simp
  also have "\<dots> = take i xs @ map f (drop i xs)"
    using i by (simp add: take_Suc_conv_app_nth Cons_nth_drop_Suc [symmetric])
  finally show ?case .
qed

text \<open>
  \<open>iter_mut\<close> visits every element once: a loop that assigns \<open>f\<close> of it to each
  item turns the vector into the image of \<open>f\<close>, and dropping the iterator frees the container.
\<close>

theorem iter_mut_visits_all:
  fixes t :: tid and f :: "'v \<Rightarrow> 'v" and it :: "nat \<times> nat"
  assumes "mutex_laws M" and "reach M c s" and "quiet s"
    and "ret (exec M t SyncVec_iter_mut s) t = Some (Returned it)"
  defines "s' \<equiv> use_write_guard M t (for_each_mut f \<lparr>vm_inner = it\<rparr>) (exec M t SyncVec_iter_mut s)"
  shows "dirty s' = map f (dirty s) \<and> quiet s'"
proof -
  have it: "it = (0, length (dirty s))"
    using exec_effect(2) [OF assms(1-3), of t SyncVec_iter_mut] assms(4)
    by (simp add: SyncVec_iter_mut_def)
  have "leaves SyncVec_iter_mut (dirty s) = WriteHold" by (simp add: SyncVec_iter_mut_def)
  note used = use_write_guard_quiet [OF assms(1-3) this, of t "for_each_mut f \<lparr>vm_inner = it\<rparr>"]
  show ?thesis using used it for_each_mut_map [of 0 "dirty s" f]
    by (simp add: SyncVec_iter_mut_def s'_def)
qed

text \<open>
  A store through the guard of \<open>get_mut\<close>: the guard gives the present value, and
  once it is dropped the container is free and the vector differs at that index only.
\<close>

theorem get_mut_store:
  fixes t :: tid and i :: usize and v :: 'v
  assumes "mutex_laws M" and "reach M c s" and "quiet s" and "unat i < length (dirty s)"
  defines "s1 \<equiv> exec M t (SyncVec_get_mut i) s"
  defines "s2 \<equiv> use_write_guard M t (SyncVec_get_mut_store i v) s1"
  shows "ret s1 t = Some (Returned (Some (dirty s ! unat i))) \<and> wguard s1 t \<and> quiet s2 \<and>
    (\<forall>j. vec_get (dirty s2) j = (if j = i then Some v else vec_get (dirty s) j))"
proof -
  have get: "vec_get (dirty s) i = Some (dirty s ! unat i)" using assms(4) by (simp add: vec_get_def)
  then have hold: "leaves (SyncVec_get_mut i) (dirty s) = WriteHold"
    and same: "fst (effect (SyncVec_get_mut i) (dirty s)) = dirty s"
    by (simp_all add: SyncVec_get_mut_def)
  have 1: "ret s1 t = Some (Returned (Some (dirty s ! unat i)))" "wguard s1 t"
    using exec_completes [OF assms(1-3), of t "SyncVec_get_mut i"] get
    by (simp_all add: s1_def completed_def kept_def SyncVec_get_mut_def)
  have 2: "quiet s2" "dirty s2 = (dirty s)[unat i := v]"
    using use_write_guard_quiet [OF assms(1-3) hold, of t "SyncVec_get_mut_store i v"] same
    by (simp_all add: s1_def s2_def SyncVec_get_mut_store_def)
  then show ?thesis using 1 assms(4) by (auto simp: vec_get_def nth_list_update word_unat_eq_iff)
qed

text \<open>
  Property C13.  A \<open>VecGet\<close> never dangles: from the end of the call of \<open>get\<close> and as long as the
  guard is alive, whatever the other threads do meanwhile, its index is in range, and \<open>deref\<close>
  gives the value that it gave at first.
\<close>

theorem get_guard_never_dangles:
  assumes "mutex_laws M" and "reach M c s" and "pc s t = RFinish i b x"
    and "SyncVec_get index = ReadCall b" and "b x = Pinned (Some v)"
    and "rw_step M t s s1" and "has_room s1" and "holding M t i s1 s2"
  shows "ret s1 t = Some (Returned (Some v)) \<and> unat index < length (dirty s2) \<and>
    ReadGuard_deref (ReadGuard_new i (vec_place index)) (dirty s2) = v"
proof -
  have "dirty s2 = x" "ret s1 t = Some (Returned (Some v))"
    using pinned_contents [where b = b, OF assms(1-3,5-8)] by blast+
  moreover have "vec_get x index = Some v"
    using assms(4,5) by (auto simp: SyncVec_get_def split: option.splits)
  ultimately show ?thesis
    by (simp add: vec_get_def ReadGuard_deref_def ReadGuard_new_def vec_place_def split: if_splits)
qed

text \<open>
  Property C35.  \<open>PartialEq::eq\<close> gives what the comparison of the contents gives, a panic of the
  element type included, and in any case leaves both containers as they were, and free.
\<close>

theorem eq_compares_contents:
  fixes a b :: "('v list, 'l, 'v list) sys"
  assumes "mutex_laws M" and "reach M c a" and "quiet a" and "reach M d b" and "quiet b"
  shows "\<exists>a' b'. SyncVec_eq M eq t a b = (Some (user_outcome (vec_eq eq (dirty a) (dirty b))), a', b') \<and>
    quiet a' \<and> quiet b' \<and>
    dirty a' = dirty a \<and> dirty b' = dirty b"
proof -
  have pin: "leaves SyncVec_dirty_ref m \<in> {Nothing, ReadPin}" for m :: "'v list"
    by (simp add: SyncVec_dirty_ref_def)
  have eff: "effect SyncVec_dirty_ref m = (m, Returned m)" for m :: "'v list"
    by (simp add: SyncVec_dirty_ref_def)
  show ?thesis
    using exec_and_drop_quiet [OF assms(1-3) pin, of t] exec_and_drop_quiet [OF assms(1,4,5) pin, of t]
      exec_effect(2) [OF assms(1-3), of t SyncVec_dirty_ref]
      exec_effect(2) [OF assms(1,4,5), of t SyncVec_dirty_ref]
    by (simp add: SyncVec_eq_def Let_def exec_and_drop_def eff)
qed

text \<open>
  Property C36.  User code that runs under a guard cannot lose the slot: whatever \<open>Serialize\<close>,
  \<open>Debug\<close> or \<open>Clone\<close> of the elements do, panics included, the call ends as they do, the vector is
  as it was and free, and a copy is made of the clones, if there is one.
\<close>

theorem user_code_under_guard_releases:
  fixes t :: tid and cl :: "'v \<Rightarrow> 'v option"
  assumes "mutex_laws M" and "reach M c s" and "quiet s"
    and "(m, o') \<in> {(SyncVec_serialize f, f (dirty s)), (SyncVec_fmt f, f (dirty s))}"
    and "reach M d v" and "quiet v"
  shows "ret (exec M t m s) t = Some (user_outcome o') \<and> dirty (exec M t m s) = dirty s \<and>
    quiet (exec M t m s) \<and>
    (\<exists>v'. SyncVec_clone M cl t v n =
        (v', map_option (\<lambda>xs. SyncVec_from M xs n) (those (map cl (dirty v)))) \<and>
      dirty v' = dirty v \<and> quiet v')"
proof -
  have "m = ReadCall (\<lambda>m. under_guard (f m))" "o' = f (dirty s)"
    using assms(4) by (auto simp: SyncVec_defs)
  moreover have "\<exists>v'. SyncVec_clone M cl t v n =
        (v', map_option (\<lambda>xs. SyncVec_from M xs n) (those (map cl (dirty v)))) \<and>
      dirty v' = dirty v \<and> quiet v'"
    using exec_under_guard [OF assms(1,5,6), of t "\<lambda>m. those (map cl m)"]
    by (cases "those (map cl (dirty v))") (simp_all add: SyncVec_clone_def SyncVec_to_vec_def Let_def)
  ultimately show ?thesis using exec_under_guard [OF assms(1-3), of t f] by blast
qed

text \<open>
  Property C37.  A destructor that panics under the write lock: \<open>set\<close> has stored the new value and
  \<open>clear\<close> has emptied the vector, as when nothing panics, and the vector is free.
\<close>

theorem destructor_panic_releases:
  assumes "mutex_laws M" and "reach M c s" and "quiet s"
    and "unat i < length (dirty s)" and "dr (dirty s ! unat i)" and "reach M d s'" and "quiet s'"
    and "list_ex dr (dirty s')"
  shows "ret (exec M t (SyncVec_set dr i v) s) t = Some Panicked \<and>
    dirty (exec M t (SyncVec_set dr i v) s) = (dirty s)[unat i := v] \<and>
    quiet (exec M t (SyncVec_set dr i v) s) \<and>
    ret (exec M t (SyncVec_clear dr) s') t = Some Panicked \<and>
    dirty (exec M t (SyncVec_clear dr) s') = [] \<and> quiet (exec M t (SyncVec_clear dr) s')"
proof -
  have "effect (SyncVec_set dr i v) (dirty s) = ((dirty s)[unat i := v], Panicked)"
    "releases (SyncVec_set dr i v) (dirty s)" "effect (SyncVec_clear dr) (dirty s') = ([], Panicked)"
    "releases (SyncVec_clear dr) (dirty s')"
    using assms(4,5,8) by (simp_all add: SyncVec_defs releases_def)
  then show ?thesis using solo [OF assms(1-3)] solo [OF assms(1,6,7)] by simp
qed

text \<open>
  Property C34.  A panic of the element type's \<open>PartialEq\<close> inside \<open>contains\<close> takes the reader
  slot with it: from then on no thread can write, whatever the threads do.
\<close>

theorem contains_panic_freezes:
  assumes "mutex_laws M" and "reach M c s" and "quiet s"
    and "vec_contains eq (dirty s) x = None" and "later M (exec M t (SyncVec_contains eq x) s) s'"
  shows "ret (exec M t (SyncVec_contains eq x) s) t = Some Panicked \<and>
    dirty s' = dirty s \<and> \<not> may_write s' u"
proof -
  let ?m = "SyncVec_contains eq x" and ?s = "exec M t (SyncVec_contains eq x) s"
  have "completed t ?m s ?s" by (rule exec_completes [OF assms(1-3)])
  then have "ret ?s t = Some Panicked" "dirty ?s = dirty s" "leaked ?s \<noteq> []"
    using assms(4) by (auto simp: completed_def kept_def SyncVec_contains_def)
  then show ?thesis
    using leaked_freezes [OF assms(1) exec_reach [OF assms(2,3)] _ assms(5)] by metis
qed

text \<open>
  \<open>Index\<close> is not synchronised: two threads, one indexing and one pushing, reach a
  state in which the first is in the middle of its access while the second may write.
\<close>

theorem index_races:
  "\<exists>s :: (nat list, tid option, unit) sys. reach owner_mutex [1] s \<and> (\<exists>u c. pc s 0 = UFinish u c) \<and> may_write s 1"
  by (rule reach_by_schedule [where i = 1 and as = "[(0, Start (map_call (\<lambda>_. ()) (SyncVec_index 0))),
      (0, Run), (1, Start (map_call (\<lambda>_. ()) (SyncVec_push (2 :: nat)))), (1, Run), (1, Run), (1, Run),
      (1, Run), (1, Run)]"])
    (simp_all add: perform_def advance_def action_defs may_write_def SyncVec_defs)

section \<open>Instances\<close>

definition vec2 :: "(nat list, tid option, 'r) sys" where
  "vec2 = sys_with owner_mutex 1 [10, 20]"

lemma vec2: "reach owner_mutex [10, 20] vec2" "quiet vec2" "dirty vec2 = [10, 20]"
  by (simp_all add: vec2_def reach_new quiet_new)

lemmas on_vec2 = owner_mutex_laws vec2(1,2)

theorem insert_remove_roundtrip_witness:
  "dirty (exec owner_mutex 1 (SyncVec_remove 1) (exec owner_mutex 0 (SyncVec_insert 1 5) vec2)) = [10, 20]"
  using insert_remove_roundtrip [OF on_vec2, where i = 1 and t = 0 and u = 1 and v = 5] by (simp add: vec2(3))

theorem mut_variants_agree_witness:
  "\<exists>r. SyncVec_remove_mut 1 [10, 20] = Some (dirty (exec owner_mutex 0 (SyncVec_remove 1) vec2), r)"
  using mut_variants_agree [OF on_vec2, where i = 1 and t = 0] by (auto simp: vec2(3))

theorem pushes_is_repeated_push_witness:
  "dirty (fold (\<lambda>v. exec owner_mutex 0 (SyncVec_push v)) [1, 2] vec2) =
    dirty (exec owner_mutex 0 (SyncVec_pushes [1, 2]) vec2)"
  using pushes_is_repeated_push [OF on_vec2, where t = 0 and vs = "[1, 2]"] by simp

theorem out_of_range_witness:
  "quiet (exec owner_mutex 0 (SyncVec_set (\<lambda>_. False) 2 5) vec2) \<and>
    ret (exec owner_mutex 0 (SyncVec_set (\<lambda>_. False) 2 5) vec2) 0 = Some Panicked"
  using out_of_range [OF on_vec2, where i = 2 and j = 3 and m = "SyncVec_set (\<lambda>_. False) 2 5" and r = Panicked
      and v = 5 and t = 0 and dr = "\<lambda>_. False"] by (simp add: vec2(3))

theorem get_after_insert_witness:
  "ret (exec owner_mutex 1 (SyncVec_get 2) (exec owner_mutex 0 (SyncVec_insert 1 5) vec2)) 1 =
    Some (Returned (Some 20))"
  using get_after_insert [OF on_vec2, where i = 1 and j = 2 and t = 0 and u = 1 and v = 5]
  by (simp add: vec2(3) vec_get_def)

lemma two_pushes: "\<exists>s. reach owner_mutex [10, 20 :: nat] s \<and>
    list_all2 event_of (map SyncVec_push [1, 2]) (filter is_write (hist s))"
  by (rule reach_by_schedule [where i = 1 and as = "[(0, Start (SyncVec_push 1)), (1, Start (SyncVec_push 2)),
      (0, Run), (0, Run), (0, Run), (0, Run), (0, Run), (0, Run), (0, Run), (0, Run), (0, Run),
      (1, Run), (1, Run), (1, Run), (1, Run), (1, Run), (1, Run), (1, Run)]"])
    (simp_all add: perform_def advance_def action_defs SyncVec_push_def)

theorem pushes_all_arrive_witness:
  "\<exists>s :: (nat list, tid option, nat option) sys. reach owner_mutex [10, 20] s \<and> dirty s = [10, 20] @ [1, 2]"
proof -
  obtain s :: "(nat list, tid option, nat option) sys" where s: "reach owner_mutex [10, 20] s"
    "list_all2 event_of (map SyncVec_push [1, 2]) (filter is_write (hist s))"
    using two_pushes by blast
  show ?thesis using pushes_all_arrive [OF owner_mutex_laws s] s(1) by blast
qed

theorem iter_mut_visits_all_witness:
  "dirty (use_write_guard owner_mutex 0 (for_each_mut Suc \<lparr>vm_inner = (0, 2)\<rparr>)
    (exec owner_mutex 0 SyncVec_iter_mut vec2)) = [11, 21]"
proof -
  have "ret (exec owner_mutex 0 SyncVec_iter_mut vec2) 0 = Some (Returned (0, 2))"
    using exec_effect(2) [OF on_vec2, of 0 SyncVec_iter_mut] by (simp add: SyncVec_iter_mut_def vec2(3))
  from iter_mut_visits_all [OF on_vec2 this, of Suc] show ?thesis by (simp add: vec2(3))
qed

theorem get_mut_store_witness:
  "quiet (use_write_guard owner_mutex 0 (SyncVec_get_mut_store 1 7)
    (exec owner_mutex 0 (SyncVec_get_mut 1) vec2))"
  using get_mut_store [OF on_vec2, where i = 1 and t = 0 and v = 7] by (simp add: vec2(3))

theorem eq_compares_contents_witness:
  "\<exists>a b. SyncVec_eq owner_mutex (\<lambda>x y. if x = 20 then None else Some (x = y)) 0 vec2 vec2 =
    (Some Panicked, a, b)"
  using eq_compares_contents [OF on_vec2 vec2(1,2), where t = 0 and
      eq = "\<lambda>x y. if x = 20 then None else Some (x = y)"] by (auto simp: vec2(3) vec_eq_def)

text \<open>Elements whose \<open>Clone\<close>, \<open>Debug\<close> or destructor panics: those that are 20.\<close>

theorem user_code_under_guard_releases_witness:
  "ret (exec owner_mutex 0 (SyncVec_fmt (\<lambda>m. if 20 \<in> set m then None else Some (FmtOk ''[]''))) vec2) 0 =
    Some Panicked \<and>
   snd (SyncVec_clone owner_mutex (\<lambda>x. if x = 20 then None else Some x) 0 vec2 5) = None"
  using user_code_under_guard_releases [OF on_vec2 _ vec2(1,2), where t = 0 and n = 5
      and m = "SyncVec_fmt (\<lambda>m. if 20 \<in> set m then None else Some (FmtOk ''[]''))" and o' = None
      and f = "\<lambda>m. if 20 \<in> set m then None else Some (FmtOk ''[]'')"
      and cl = "\<lambda>x. if x = 20 then None else Some x"] by (auto simp: vec2(3))

theorem destructor_panic_releases_witness:
  "dirty (exec owner_mutex 0 (SyncVec_set (\<lambda>x. x = 20) 1 5) vec2) = [10, 5] \<and>
    dirty (exec owner_mutex 0 (SyncVec_clear (\<lambda>x. x = 20)) vec2) = []"
  using destructor_panic_releases [OF on_vec2 _ _ vec2(1,2), where dr = "\<lambda>x. x = 20" and i = 1
      and v = 5 and t = 0] by (simp add: vec2(3))

theorem contains_panic_freezes_witness:
  "ret (exec owner_mutex 0 (SyncVec_contains (\<lambda>y x. if y = 20 then None else Some (y = x)) 5) vec2) 0 =
    Some Panicked"
  using contains_panic_freezes [OF on_vec2 _ later_refl, where t = 0 and x = 5
      and eq = "\<lambda>y x. if y = 20 then None else Some (y = x)"] by (simp add: vec2(3))

text \<open>Thread 1 is about to return from \<open>get(1)\<close>.\<close>

lemma getting:
  "\<exists>s :: (nat list, tid option, nat option) sys. reach owner_mutex [10, 20] s \<and>
     (pc s 1 = RFinish 0 (\<lambda>m. case vec_get m 1 of Some v \<Rightarrow> Pinned (Some v) | None \<Rightarrow> Unpinned None) [10, 20] \<and>
      pc s 0 = Idle \<and> guards s = [] \<and> leaked s = [])"
  by (rule reach_by_schedule [where i = 1 and as = "[(1, Start (SyncVec_get 1)), (1, Run), (1, Run),
      (1, Run), (1, Run), (1, Run)]"])
    (simp_all add: perform_def advance_def action_defs Let_def SyncVec_get_def)

theorem get_guard_never_dangles_witness:
  "\<exists>s1 s2 :: (nat list, tid option, nat option) sys. rw_step owner_mutex 0 s1 s2 \<and>
     ReadGuard_deref (ReadGuard_new 0 (vec_place 1)) (dirty s2) = 20"
proof -
  let ?b = "\<lambda>m :: nat list. case vec_get m 1 of Some v \<Rightarrow> Pinned (Some v) | None \<Rightarrow> Unpinned None"
  obtain s :: "(nat list, tid option, nat option) sys" where s: "reach owner_mutex [10, 20] s"
    "pc s 1 = RFinish 0 ?b [10, 20]" "pc s 0 = Idle" "guards s = []" "leaked s = []"
    using getting by blast
  have b: "?b [10, 20] = Pinned (Some 20)" by (simp add: vec_get_def)
  note s1 = rw_step.r_pinned [OF s(2) b, of owner_mutex]
  define s1 where "s1 = s\<lparr>hist := hist s @ [EvRead ?b (Pinned (Some 20))], guards := (1, 0) # guards s,
    pc := (pc s)(1 := Idle), ret := (ret s)(1 := Some (Returned (Some 20)))\<rparr>"
  have room: "has_room s1" by (simp add: s1_def has_room_def pins_def s(4,5))
  have "pc s1 0 = Idle" by (simp add: s1_def s(3))
  note s2 = rw_step.start [OF this, of owner_mutex "SyncVec_push 5"]
  have alive: "holding owner_mutex 1 0 s1 (s1\<lparr>pc := (pc s1)(0 := call_entry (SyncVec_push 5))\<rparr>)"
    by (rule holding_step [OF holding_start s2])
      (simp_all add: s1_def has_room_def pins_def s(4,5))
  note valid = get_guard_never_dangles [OF owner_mutex_laws s(1,2) SyncVec_get_def b
      s1 [folded s1_def] room alive]
  then show ?thesis using s2 by blast
qed

text \<open>A store through the guard of \<open>get_mut(1)\<close>, while thread 1 starts a push.\<close>

lemma vec_ref_mut_law: "unat i < length m \<Longrightarrow> place_law (vec_ref_mut i) m"
  by (simp add: place_law_def vec_ref_mut_def WriteGuard_new_def vec_place_def SyncVec_get_mut_store_def)

theorem write_guard_reads_own_writes_witness:
  "\<exists>s1 s2 :: (nat list, tid option, nat option) sys. rw_step owner_mutex 1 s1 s2 \<and>
     WriteGuard_deref (vec_ref_mut 1) (dirty s2) = 7"
proof -
  let ?g = "vec_ref_mut 1 :: nat VecRefMut"
  define s where "s = exec owner_mutex 0 (SyncVec_get_mut 1) (vec2 :: (nat list, tid option, nat option) sys)"
  have r: "reach owner_mutex [10, 20] s" unfolding s_def by (rule exec_reach [OF vec2(1,2)])
  have c: "completed 0 (SyncVec_get_mut 1) vec2 s" unfolding s_def by (rule exec_completes [OF on_vec2])
  have pc: "pc s u = Idle" for u using c by (simp add: completed_def vec2_def)
  have s: "wguard s 0" "dirty s = [10, 20]" "guards s = []" "leaked s = []"
    using c by (simp_all add: completed_def kept_def SyncVec_get_mut_def vec_get_def vec2_def)
  have law: "place_law ?g (dirty s)" by (rule vec_ref_mut_law) (simp add: s(2))
  let ?s1 = "WriteGuard_store ?g 7 s"
  have w: "wguard ?s1 0" "pc ?s1 1 = Idle" "guards ?s1 = []" "leaked ?s1 = []"
    by (simp_all add: WriteGuard_store_def write_through_def log_event_def s pc)
  note s2 = rw_step.start [OF w(2), of owner_mutex "SyncVec_push 5"]
  have "owning owner_mutex 0 ?s1 [] (?s1\<lparr>pc := (pc ?s1)(1 := call_entry (SyncVec_push 5))\<rparr>)"
    by (rule owning_step [OF owning_start [OF w(1)] s2])
      (simp_all add: has_room_def pins_def w(3,4))
  then have "WriteGuard_deref ?g (dirty (?s1\<lparr>pc := (pc ?s1)(1 := call_entry (SyncVec_push 5))\<rparr>)) = 7"
    using write_guard_reads_own_writes [OF owner_mutex_laws r owning_start [OF s(1)] pc law] by blast
  then show ?thesis using s2 by blast
qed

end
