(* ===== verification/Many_Containers.thy ===== *)
theory Many_Containers
  imports Sync_Vec
begin

text \<open>
  A program that shares several containers.  Each container has its own fields, registry, mutexes
  and flag, and a thread runs one call at a time, on one of them; guards on several of them can
  be alive together.  The theory shows that each container behaves as it does on its own, so
  that the theorems about one container hold for each of them, and that the guards that
  \<open>SyncVec::eq\<close> keeps on both operands can lock two containers up for good.
\<close>

section \<open>States and steps\<close>

text \<open>The containers, by name.\<close>

type_synonym ('k, 'c, 'l, 'r) systems = "'k \<Rightarrow> ('c, 'l, 'r) sys"

text \<open>The thread is not in a call on any container but \<open>k\<close>.\<close>

definition idle_elsewhere :: "('k, 'c, 'l, 'r) systems \<Rightarrow> tid \<Rightarrow> 'k \<Rightarrow> bool" where
  "idle_elsewhere S t k \<longleftrightarrow> (\<forall>j. j \<noteq> k \<longrightarrow> pc (S j) t = Idle)"

definition many_perform :: "'l mutex_ops \<Rightarrow> tid \<Rightarrow> 'k \<Rightarrow> ('c, 'r) action \<Rightarrow>
    ('k, 'c, 'l, 'r) systems \<Rightarrow> ('k, 'c, 'l, 'r) systems option" where
  "many_perform M t k a S =
     (if idle_elsewhere S t k
      then (case perform M t a (S k) of None \<Rightarrow> None | Some s \<Rightarrow> Some (S(k := s)))
      else None)"

fun many_perform_all :: "'l mutex_ops \<Rightarrow> (tid \<times> 'k \<times> ('c, 'r) action) list \<Rightarrow>
    ('k, 'c, 'l, 'r) systems \<Rightarrow> ('k, 'c, 'l, 'r) systems option" where
  "many_perform_all M [] S = Some S"
| "many_perform_all M ((t, k, a) # as) S =
     (case many_perform M t k a S of None \<Rightarrow> None | Some S' \<Rightarrow> many_perform_all M as S')"

definition new_systems :: "'l mutex_ops \<Rightarrow> ('k \<Rightarrow> usize) \<Rightarrow> ('k \<Rightarrow> 'c) \<Rightarrow>
    ('k, 'c, 'l, 'r) systems" where
  "new_systems M i c = (\<lambda>k. sys_with M (i k) (c k))"

text \<open>The states that the program can come to, and those that can follow a state.\<close>

inductive many_later :: "'l mutex_ops \<Rightarrow> ('k, 'c, 'l, 'r) systems \<Rightarrow>
    ('k, 'c, 'l, 'r) systems \<Rightarrow> bool" for M :: "'l mutex_ops" and S :: "('k, 'c, 'l, 'r) systems" where
  many_refl: "many_later M S S"
| many_step: "many_later M S S1 \<Longrightarrow> many_perform M t k a S1 = Some S2 \<Longrightarrow> has_room (S2 k) \<Longrightarrow>
    many_later M S S2"

lemma many_perform_cases:
  assumes "many_perform M t k a S = Some S'"
  shows "idle_elsewhere S t k" "rw_step M t (S k) (S' k)" "\<And>j. j \<noteq> k \<Longrightarrow> S' j = S j"
proof -
  obtain s where s: "idle_elsewhere S t k" "perform M t a (S k) = Some s" "S' = S(k := s)"
    using assms by (auto simp: many_perform_def split: if_splits option.splits)
  then show "idle_elsewhere S t k" "rw_step M t (S k) (S' k)" "\<And>j. j \<noteq> k \<Longrightarrow> S' j = S j"
    using perform_step by auto
qed

section \<open>Each container on its own\<close>

lemma many_later_later: "many_later M S S' \<Longrightarrow> later M (S k) (S' k)"
proof (induction rule: many_later.induct)
  case many_refl
  then show ?case by (rule later_refl)
next
  case (many_step S1 t j a S2)
  note c = many_perform_cases [OF many_step.hyps(2)]
  show ?case
  proof (cases "k = j")
    case True
    then show ?thesis using many_step.IH c(2) many_step.hyps(3) later_step by blast
  next
    case False
    then show ?thesis using many_step.IH c(3) by simp
  qed
qed

lemma many_reach: "many_later M (new_systems M i c) S \<Longrightarrow> reach M (c k) (S k)"
  by (drule many_later_later [where k = k])
    (auto simp: new_systems_def intro: reach_later reach_new)

text \<open>
  Containers do not disturb each other: whatever a program with any number of
  containers does, the state of each of them is one that it can reach on its own.
\<close>

theorem containers_are_independent:
  assumes "many_later M (new_systems M i c) S"
  shows "reach M (c k) (S k)"
  using assms by (rule many_reach)

section \<open>Two comparisons that cross\<close>

text \<open>
  Thread \<open>t\<close> owns a guard of container \<open>a\<close> and waits for the writer \<open>v\<close> in \<open>b\<close>; thread \<open>u\<close>
  the other way round, with a writer \<open>w\<close> in \<open>a\<close>.
\<close>

definition crossed :: "'k \<Rightarrow> 'k \<Rightarrow> tid \<Rightarrow> tid \<Rightarrow> tid \<Rightarrow> tid \<Rightarrow> ('k, 'c, 'l, 'r) systems \<Rightarrow> bool" where
  "crossed a b t u v w S \<longleftrightarrow>
     t \<in> fst ` set (guards (S a)) \<and> awaits_read (pc (S b) t) \<and> scanning (pc (S b) v) \<and>
     u \<in> fst ` set (guards (S b)) \<and> awaits_read (pc (S a) u) \<and> scanning (pc (S a) w)"

lemma crossed_swap: "crossed a b t u v w S = crossed b a u t w v S"
  by (auto simp: crossed_def)

lemma idle_not_awaits [simp]: "\<not> awaits_read Idle"
  by simp

lemma guard_kept:
  assumes "rw_step M x s s'" "t \<in> fst ` set (guards s)" "x \<noteq> t"
  shows "t \<in> fst ` set (guards s')"
proof -
  obtain i where i: "(t, i) \<in> set (guards s)" using assms(2) by auto
  have other: "(t, i) \<in> set (remove1 (x, j) (guards s))" for j
    using i assms(3) by (simp add: in_set_remove1)
  have "(t, i) \<in> set (guards s')"
    using assms(1) by (cases rule: rw_step.cases) (simp_all add: i other)
  then show ?thesis by force
qed

lemma crossed_step:
  assumes inv: "rw_inv M (S a)" and "a \<noteq> b" and step: "many_perform M x a e S = Some S'"
    and cr: "crossed a b t u v w S"
  shows "crossed a b t u v w S'"
proof -
  note c = many_perform_cases [OF step]
  have b: "S' b = S b" using assms(2) c(3) [of b] by simp
  have "x \<noteq> t" using c(1) assms(2) cr by (auto simp: idle_elsewhere_def crossed_def)
  then have g: "t \<in> fst ` set (guards (S' a))" using guard_kept [OF c(2)] cr by (simp add: crossed_def)
  have some: "guards (S a) \<noteq> [] \<or> leaked (S a) \<noteq> []" using cr by (auto simp: crossed_def)
  have "scanning (pc (S' a) w)"
    using awaits_write_stays [OF inv c(2) some, of w] cr by (simp add: crossed_def scanning_def)
  moreover have "awaits_read (pc (S' a) u)"
    using awaits_read_stays [OF inv c(2), of w u] cr by (simp add: crossed_def)
  ultimately show ?thesis using g cr b by (simp add: crossed_def)
qed

text \<open>
  Property C33.  Two threads that read two containers in opposite orders, each keeping a guard of
  its first while it asks for the second (\<open>a == b\<close> and \<open>b == a\<close>), lock both up for ever if a
  writer waits on each: in every state that can follow, all four threads still wait.
\<close>

theorem crossed_reads_livelock:
  assumes "mutex_laws M" and "many_later M (new_systems M i c) S" and "a \<noteq> b"
    and "crossed a b t u v w S" and "many_later M S S'"
  shows "crossed a b t u v w S'"
  using assms(5,2,4)
proof (induction rule: many_later.induct)
  case (many_step S1 x k e S2)
  have cr: "crossed a b t u v w S1" using many_step by blast
  have inv: "rw_inv M (S1 j)" for j
    using reach_rw_inv(1) [OF assms(1) reach_later [OF many_later_later [OF many_step.hyps(1)]
        many_reach [OF assms(2)]]] .
  consider "k = a" | "k = b" | "k \<noteq> a" "k \<noteq> b" by blast
  then show ?case
  proof cases
    case 1
    then show ?thesis using crossed_step [of M S1 a b x] inv assms(3) many_step.hyps(2) cr by blast
  next
    case 2
    then show ?thesis
      using crossed_step [of M S1 b a x] inv assms(3) many_step.hyps(2) cr crossed_swap by metis
  next
    case 3
    then show ?thesis using many_perform_cases(3) [OF many_step.hyps(2)] cr by (simp add: crossed_def)
  qed
qed

section \<open>Instances\<close>

lemma many_schedule:
  assumes "many_later M S0 S" "many_perform_all M as S = Some S'"
    and "\<And>k i. pins (S k) i + length as + 1 < 2 ^ 64"
  shows "many_later M S0 S'"
  using assms
proof (induction as arbitrary: S)
  case (Cons x as)
  obtain t k a where x: "x = (t, k, a)" by (cases x) auto
  then obtain S1 where S1: "many_perform M t k a S = Some S1" "many_perform_all M as S1 = Some S'"
    using Cons.prems(2) by (auto split: option.splits)
  note c = many_perform_cases [OF S1(1)]
  have room: "pins (S1 j) i + length as + 1 < 2 ^ 64" for j i
  proof (cases "j = k")
    case True
    then show ?thesis using pins_step [OF c(2), of i] Cons.prems(3) [of k i] by simp
  next
    case False
    then show ?thesis using c(3) [OF False] Cons.prems(3) [of j i] by simp
  qed
  have "has_room (S1 k)" unfolding has_room_def
    using room by (meson add_le_mono1 le_add1 le_less_trans)
  then have "many_later M S0 S1" by (rule many_step [OF Cons.prems(1) S1(1)])
  then show ?case using Cons.IH S1(2) room by blast
qed simp

text \<open>
  Threads 0 and 1 compare two vectors in opposite orders (container \<open>False\<close> is \<open>a\<close>, \<open>True\<close> is
  \<open>b\<close>), threads 2 and 3 push to them.
\<close>

definition crossing :: "(tid \<times> bool \<times> (nat list, nat list) action) list" where
  "crossing =
     (0, False, Start SyncVec_dirty_ref) # map (\<lambda>_. (0, False, Run)) [1..6] @
     (1, True, Start SyncVec_dirty_ref) # map (\<lambda>_. (1, True, Run)) [1..6] @
     [(2, True, Start (map_call (\<lambda>_. []) (SyncVec_push 5))), (2, True, Run), (2, True, Run),
      (3, False, Start (map_call (\<lambda>_. []) (SyncVec_push 6))), (3, False, Run), (3, False, Run),
      (0, True, Start SyncVec_dirty_ref), (1, False, Start SyncVec_dirty_ref)]"

lemma crossing_length: "length crossing = 22"
  by (simp add: crossing_def)

lemma crossing_run:
  "\<exists>S. many_perform_all owner_mutex crossing (new_systems owner_mutex (\<lambda>k. if k then 1 else 2) (\<lambda>k. [7])) =
     Some S \<and> crossed False True 0 1 2 3 S"
  by (simp add: crossing_def upto_rec1 new_systems_def many_perform_def idle_elsewhere_def
    all_bool_eq perform_def advance_def action_defs SyncVec_dirty_ref_def SyncVec_push_def crossed_def
    del: upto.simps)

lemma crossing_reached:
  "\<exists>S. many_later owner_mutex (new_systems owner_mutex (\<lambda>k. if k then 1 else 2) (\<lambda>k. [7 :: nat]))
       (S :: (bool, nat list, tid option, nat list) systems) \<and> crossed False True 0 1 2 3 S"
proof -
  obtain S :: "(bool, nat list, tid option, nat list) systems" where
    S: "many_perform_all owner_mutex crossing
      (new_systems owner_mutex (\<lambda>k. if k then 1 else 2) (\<lambda>k. [7])) = Some S"
    "crossed False True 0 1 2 3 S" using crossing_run by blast
  have "many_later owner_mutex (new_systems owner_mutex (\<lambda>k. if k then 1 else 2) (\<lambda>k. [7])) S"
    by (rule many_schedule [OF many_refl S(1)]) (simp add: crossing_length new_systems_def pins_def)
  then show ?thesis using S(2) by blast
qed

theorem containers_are_independent_witness:
  "\<exists>S :: (bool, nat list, tid option, nat list) systems.
     crossed False True 0 1 2 3 S \<and> reach owner_mutex [7] (S True)"
  using crossing_reached containers_are_independent
    [of owner_mutex "\<lambda>k. if k then 1 else 2" "\<lambda>k. [7 :: nat]" _ True] by blast

theorem crossed_reads_livelock_witness:
  "\<exists>S :: (bool, nat list, tid option, nat list) systems.
     reach owner_mutex [7] (S True) \<and> crossed False True 0 1 2 3 S"
proof -
  obtain S :: "(bool, nat list, tid option, nat list) systems" where S:
    "many_later owner_mutex (new_systems owner_mutex (\<lambda>k. if k then 1 else 2) (\<lambda>k. [7])) S"
    "crossed False True 0 1 2 3 S" using crossing_reached by blast
  have "crossed False True 0 1 2 3 S"
    by (rule crossed_reads_livelock [OF owner_mutex_laws S(1) _ S(2) many_refl]) simp
  then show ?thesis using many_reach [OF S(1), of True] by blast
qed

end
