(* ===== verification/Vec_Items.thy ===== *)
theory Vec_Items
  imports Sync_Vec
begin

text \<open>
  The items of the iterators of \<open>SyncVec\<close>.  \<open>VecIter<'a, V>\<close> holds the reader slot, \<open>VecIterMut<'a, V>\<close>
  the write lock, and their items are \<open>&'a V\<close> and \<open>&'a mut V\<close>: the lifetime is that of the borrow of
  the container, so that an item may be kept after its iterator has been dropped.  Here threads own
  iterators and items.  The parameter \<open>bound\<close> says what the borrow checker demands: \<open>False\<close> is the
  source; with \<open>True\<close> an item would be borrowed from its iterator, which could not be dropped before
  its items.
\<close>

section \<open>Threads that own iterators and items\<close>

text \<open>
  A thread has at most one iterator of each kind at a time.  An item is the position it refers to;
  \<open>refs\<close> are the items of \<open>iter\<close>, \<open>mut_refs\<close> those of \<open>iter_mut\<close>, each with the thread that owns it.
\<close>

record ('v, 'l, 'r) users =
  vec :: "('v list, 'l, nat \<times> nat + 'r) sys"
  iter_of :: "tid \<Rightarrow> VecIter option"
  iter_mut_of :: "tid \<Rightarrow> VecIterMut option"
  refs :: "(tid \<times> nat) list"
  mut_refs :: "(tid \<times> nat) list"

definition users_new :: "('v list, 'l, nat \<times> nat + 'r) sys \<Rightarrow> ('v, 'l, 'r) users" where
  "users_new s = \<lparr>vec = s, iter_of = (\<lambda>_. None), iter_mut_of = (\<lambda>_. None), refs = [], mut_refs = []\<rparr>"

text \<open>The end of a call of \<open>iter\<close> or \<open>iter_mut\<close>: the thread owns the iterator.\<close>

fun take_iter :: "tid \<Rightarrow> ('v list, nat \<times> nat + 'r) pc \<Rightarrow> ('v, 'l, 'r) users \<Rightarrow> ('v, 'l, 'r) users" where
  "take_iter t (RFinish i b c) u =
     (case b c of
        Pinned (Inl r) \<Rightarrow> u\<lparr>iter_of := (iter_of u)(t \<mapsto> \<lparr>vi_count = i, vi_inner = r\<rparr>)\<rparr>
      | _ \<Rightarrow> u)"
| "take_iter t (WCommit d c) u =
     (case snd (d c) of
        Held (Inl r) \<Rightarrow> u\<lparr>iter_mut_of := (iter_mut_of u)(t \<mapsto> \<lparr>vm_inner = r\<rparr>)\<rparr>
      | _ \<Rightarrow> u)"
| "take_iter t p u = u"

text \<open>
  What a thread does: continue its call; between calls start one (\<open>Other\<close>: any method but the two),
  drop another guard, store through a \<open>VecRefMut\<close>, ask its iterator for the next item, store through
  an item of \<open>iter_mut\<close>, drop an item or an iterator.
\<close>

datatype ('v, 'r) use =
    Continue
  | Other "('v list, 'r) call"
  | Iter
  | IterMut
  | DropOther nat
  | DropRefMut
  | StoreRefMut usize 'v
  | NextItem
  | NextMut
  | StoreItem nat 'v
  | DropItem nat
  | DropMutItem nat
  | DropIter
  | DropIterMut

definition on_vec :: "('v list, 'l, nat \<times> nat + 'r) sys option \<Rightarrow> ('v, 'l, 'r) users \<Rightarrow>
    ('v, 'l, 'r) users option" where
  "on_vec x u = (case x of None \<Rightarrow> None | Some s \<Rightarrow> Some (u\<lparr>vec := s\<rparr>))"

text \<open>The guards of a thread other than that of its iterator.\<close>

definition spare_guard :: "tid \<Rightarrow> nat \<Rightarrow> ('v, 'l, 'r) users \<Rightarrow> bool" where
  "spare_guard t i u \<longleftrightarrow>
     (case iter_of u t of
        None \<Rightarrow> 0
      | Some it \<Rightarrow> if vi_count it = i then 1 else 0) < count_list (guards (vec u)) (t, i)"

fun idle_use :: "bool \<Rightarrow> 'l mutex_ops \<Rightarrow> tid \<Rightarrow> ('v, 'r) use \<Rightarrow> ('v, 'l, 'r) users \<Rightarrow>
    ('v, 'l, 'r) users option" where
  "idle_use bound M t Continue u = None"
| "idle_use bound M t (Other m) u = on_vec (perform M t (Start (map_call Inr m)) (vec u)) u"
| "idle_use bound M t Iter u =
     (if iter_of u t = None then on_vec (perform M t (Start (map_call Inl SyncVec_iter)) (vec u)) u else None)"
| "idle_use bound M t IterMut u =
     (if iter_mut_of u t = None then on_vec (perform M t (Start (map_call Inl SyncVec_iter_mut)) (vec u)) u
      else None)"
| "idle_use bound M t (DropOther i) u =
     (if spare_guard t i u then on_vec (perform M t (DropGuard i) (vec u)) u else None)"
| "idle_use bound M t DropRefMut u =
     (if iter_mut_of u t = None then on_vec (perform M t DropWriteGuard (vec u)) u else None)"
| "idle_use bound M t (StoreRefMut i v) u =
     (if iter_mut_of u t = None
      then on_vec (perform M t (WriteThrough (SyncVec_get_mut_store i v)) (vec u)) u else None)"
| "idle_use bound M t NextItem u =
     (case iter_of u t of
        None \<Rightarrow> None
      | Some it \<Rightarrow>
          (case VecIter_next it of
             (None, it') \<Rightarrow> Some (u\<lparr>iter_of := (iter_of u)(t \<mapsto> it')\<rparr>)
           | (Some p, it') \<Rightarrow> Some (u\<lparr>iter_of := (iter_of u)(t \<mapsto> it'), refs := (t, p) # refs u\<rparr>)))"
| "idle_use bound M t NextMut u =
     (case iter_mut_of u t of
        None \<Rightarrow> None
      | Some it \<Rightarrow>
          (case VecIterMut_next it of
             (None, it') \<Rightarrow> Some (u\<lparr>iter_mut_of := (iter_mut_of u)(t \<mapsto> it')\<rparr>)
           | (Some p, it') \<Rightarrow>
               Some (u\<lparr>iter_mut_of := (iter_mut_of u)(t \<mapsto> it'), mut_refs := (t, p) # mut_refs u\<rparr>)))"
| "idle_use bound M t (StoreItem p v) u =
     (if (t, p) \<in> set (mut_refs u) then Some (u\<lparr>vec := write_through (\<lambda>m. m[p := v]) (vec u)\<rparr>) else None)"
| "idle_use bound M t (DropItem p) u =
     (if (t, p) \<in> set (refs u) then Some (u\<lparr>refs := remove1 (t, p) (refs u)\<rparr>) else None)"
| "idle_use bound M t (DropMutItem p) u =
     (if (t, p) \<in> set (mut_refs u) then Some (u\<lparr>mut_refs := remove1 (t, p) (mut_refs u)\<rparr>) else None)"
| "idle_use bound M t DropIter u =
     (case iter_of u t of
        None \<Rightarrow> None
      | Some it \<Rightarrow>
          if bound \<and> t \<in> fst ` set (refs u) then None
          else Some (u\<lparr>vec := VecIter_drop t it (vec u), iter_of := (iter_of u)(t := None)\<rparr>))"
| "idle_use bound M t DropIterMut u =
     (if iter_mut_of u t = None \<or> bound \<and> t \<in> fst ` set (mut_refs u) then None
      else on_vec (perform M t DropWriteGuard (vec u)) (u\<lparr>iter_mut_of := (iter_mut_of u)(t := None)\<rparr>))"

definition use_step :: "bool \<Rightarrow> 'l mutex_ops \<Rightarrow> tid \<Rightarrow> ('v, 'r) use \<Rightarrow> ('v, 'l, 'r) users \<Rightarrow>
    ('v, 'l, 'r) users option" where
  "use_step bound M t a u =
     (case a of
        Continue \<Rightarrow> on_vec (perform M t Run (vec u)) (take_iter t (pc (vec u) t) u)
      | _ \<Rightarrow> if is_idle (pc (vec u) t) then idle_use bound M t a u else None)"

inductive users_reach :: "bool \<Rightarrow> 'l mutex_ops \<Rightarrow> 'v list \<Rightarrow> ('v, 'l, 'r) users \<Rightarrow> bool"
  for bound :: bool and M :: "'l mutex_ops" and c :: "'v list" where
  users_start: "users_reach bound M c (users_new (sys_with M i c))"
| users_use: "users_reach bound M c u \<Longrightarrow> use_step bound M t a u = Some u' \<Longrightarrow> has_room (vec u') \<Longrightarrow>
    users_reach bound M c u'"

section \<open>Items that are borrowed from their iterator\<close>

text \<open>What the call of a thread will leave, if it is one of the two.\<close>

fun read_body :: "('c, 'r) pc \<Rightarrow> ('c \<Rightarrow> 'r read_out) option" where
  "read_body (RSlot b) = Some b"
| "read_body (RPush b) = Some b"
| "read_body (RAdd i b) = Some b"
| "read_body (RLoad i b) = Some b"
| "read_body (RUndo i b) = Some b"
| "read_body (RBody i b) = Some b"
| "read_body (RFinish i b c) = Some b"
| "read_body _ = None"

fun write_body :: "('c, 'r) pc \<Rightarrow> ('c \<Rightarrow> 'c \<times> 'r write_out) option" where
  "write_body (WLock d) = Some d"
| "write_body (WStore d) = Some d"
| "write_body (WRegLock d) = Some d"
| "write_body (WScan k d) = Some d"
| "write_body (WRetry d) = Some d"
| "write_body (WBreak d) = Some d"
| "write_body (WBody d) = Some d"
| "write_body (WCommit d c) = Some d"
| "write_body _ = None"

definition call_ok :: "('v, 'l, 'r) users \<Rightarrow> tid \<Rightarrow> bool" where
  "call_ok u t \<longleftrightarrow>
     (\<forall>b c r. read_body (pc (vec u) t) = Some b \<longrightarrow> b c = Pinned (Inl r) \<longrightarrow> r = (0, length c) \<and> iter_of u t = None) \<and>
     (\<forall>d c r. write_body (pc (vec u) t) = Some d \<longrightarrow> snd (d c) = Held (Inl r) \<longrightarrow>
        r = (0, length c) \<and> fst (d c) = c \<and> iter_mut_of u t = None)"

text \<open>An iterator has its slot or the lock, covers the vector, and has given the items before its position.\<close>

definition items_inv :: "'l mutex_ops \<Rightarrow> 'v list \<Rightarrow> ('v, 'l, 'r) users \<Rightarrow> bool" where
  "items_inv M c u \<longleftrightarrow> reach M c (vec u) \<and> (\<forall>t. call_ok u t) \<and>
     (\<forall>t it. iter_of u t = Some it \<longrightarrow>
        (t, vi_count it) \<in> set (guards (vec u)) \<and> snd (vi_inner it) = length (dirty (vec u)) \<and>
        fst (vi_inner it) \<le> length (dirty (vec u))) \<and>
     (\<forall>t it. iter_mut_of u t = Some it \<longrightarrow>
        wguard (vec u) t \<and> snd (vm_inner it) = length (dirty (vec u)) \<and>
        fst (vm_inner it) \<le> length (dirty (vec u))) \<and>
     (\<forall>(t, p) \<in> set (refs u). \<exists>it. iter_of u t = Some it \<and> p < fst (vi_inner it)) \<and>
     (\<forall>(t, p) \<in> set (mut_refs u). \<exists>it. iter_mut_of u t = Some it \<and> p < fst (vm_inner it)) \<and>
     distinct (mut_refs u)"

lemma items_invD:
  assumes "items_inv M c u"
  shows "reach M c (vec u)" and "call_ok u t"
    and "iter_of u t = Some it \<Longrightarrow> (t, vi_count it) \<in> set (guards (vec u))"
    and "iter_of u t = Some it \<Longrightarrow> snd (vi_inner it) = length (dirty (vec u)) \<and> fst (vi_inner it) \<le> length (dirty (vec u))"
    and "iter_mut_of u t = Some jt \<Longrightarrow> wguard (vec u) t"
    and "iter_mut_of u t = Some jt \<Longrightarrow>
      snd (vm_inner jt) = length (dirty (vec u)) \<and> fst (vm_inner jt) \<le> length (dirty (vec u))"
    and "(t, p) \<in> set (refs u) \<Longrightarrow> \<exists>it. iter_of u t = Some it \<and> p < fst (vi_inner it)"
    and "(t, p) \<in> set (mut_refs u) \<Longrightarrow> \<exists>it. iter_mut_of u t = Some it \<and> p < fst (vm_inner it)"
    and "distinct (mut_refs u)"
  using assms unfolding items_inv_def by (blast, blast, blast, blast, blast, blast, fast, fast, blast)

lemma items_invI:
  assumes "reach M c (vec u)" and "\<And>t. call_ok u t"
    and "\<And>t it. iter_of u t = Some it \<Longrightarrow> (t, vi_count it) \<in> set (guards (vec u))"
    and "\<And>t it. iter_of u t = Some it \<Longrightarrow>
      snd (vi_inner it) = length (dirty (vec u)) \<and> fst (vi_inner it) \<le> length (dirty (vec u))"
    and "\<And>t it. iter_mut_of u t = Some it \<Longrightarrow> wguard (vec u) t"
    and "\<And>t it. iter_mut_of u t = Some it \<Longrightarrow>
      snd (vm_inner it) = length (dirty (vec u)) \<and> fst (vm_inner it) \<le> length (dirty (vec u))"
    and "\<And>t p. (t, p) \<in> set (refs u) \<Longrightarrow> \<exists>it. iter_of u t = Some it \<and> p < fst (vi_inner it)"
    and "\<And>t p. (t, p) \<in> set (mut_refs u) \<Longrightarrow> \<exists>it. iter_mut_of u t = Some it \<and> p < fst (vm_inner it)"
    and "distinct (mut_refs u)"
  shows "items_inv M c u"
  using assms unfolding items_inv_def by blast

lemma call_ok_idle: "pc (vec u) t = Idle \<Longrightarrow> call_ok u t"
  by (simp add: call_ok_def)

text \<open>A step of the vector under the iterators of all threads.\<close>

lemma items_vec_step:
  assumes M: "mutex_laws M" and inv: "items_inv M c u" and step: "rw_step M t (vec u) s" "has_room s"
    and own: "\<And>it. iter_of u t = Some it \<Longrightarrow> (t, vi_count it) \<in> set (guards s)"
      "\<And>it. iter_mut_of u t = Some it \<Longrightarrow> wguard s t \<and> length (dirty s) = length (dirty (vec u))"
    and ok: "call_ok (u\<lparr>vec := s\<rparr>) t"
  shows "items_inv M c (u\<lparr>vec := s\<rparr>)"
proof -
  note d = items_invD [OF inv] and others = step_others [OF step(1)]
  have same: "dirty s = dirty (vec u)" if "iter_of u x = Some it" for x it
    using guard_pins_contents [OF M d(1) disjI1 [OF d(3) [OF that]] step(1)] .
  have len: "length (dirty s) = length (dirty (vec u))" if "iter_mut_of u x = Some jt" for x jt
  proof (cases "x = t")
    case True
    then show ?thesis using own(2) that by blast
  next
    case False
    have "\<not> w_excl (pc (vec u) t) \<and> \<not> wguard (vec u) t"
      using reach_alone(4) [OF M d(1) disjI2 [OF d(5) [OF that]], of t] False w_excl_owner by blast
    then show ?thesis using dirty_changes_excl [OF step(1)] by metis
  qed
  have gs: "(x, vi_count it) \<in> set (guards s)" if "iter_of u x = Some it" for x it
  proof (cases "x = t")
    case False
    show ?thesis using step(1) d(3) [OF that] False
      by (cases rule: rw_step.cases) (auto simp: in_set_remove1)
  qed (use own(1) that in blast)
  have wg: "wguard s x" if "iter_mut_of u x = Some jt" for x jt
    using others(2) [of x] d(5) [OF that] own(2) that by (cases "x = t") auto
  show ?thesis
  proof (rule items_invI)
    show "reach M c (vec (u\<lparr>vec := s\<rparr>))" using reach_step [OF d(1) step] by simp
    show "call_ok (u\<lparr>vec := s\<rparr>) x" for x
      using ok d(2) [of x] others(1) [of x] by (cases "x = t") (simp_all add: call_ok_def)
    show "snd (vi_inner it) = length (dirty (vec (u\<lparr>vec := s\<rparr>))) \<and>
        fst (vi_inner it) \<le> length (dirty (vec (u\<lparr>vec := s\<rparr>)))" if "iter_of (u\<lparr>vec := s\<rparr>) x = Some it" for x it
      using that same d(4) by simp
    show "snd (vm_inner it) = length (dirty (vec (u\<lparr>vec := s\<rparr>))) \<and>
        fst (vm_inner it) \<le> length (dirty (vec (u\<lparr>vec := s\<rparr>)))" if "iter_mut_of (u\<lparr>vec := s\<rparr>) x = Some it" for x it
      using that len d(6) by simp
  qed (use gs wg d(7-9) in simp_all)
qed

lemma bodies_kept:
  assumes "perform M t Run s = Some s'"
  shows "read_body (pc s' t) = Some b \<Longrightarrow> read_body (pc s t) = Some b"
    and "write_body (pc s' t) = Some d \<Longrightarrow> write_body (pc s t) = Some d"
proof -
  show "read_body (pc s t) = Some b" if "read_body (pc s' t) = Some b"
    using assms that unfolding perform_Run
    by (cases "pc s t") (auto simp: action_defs Let_def split: option.splits read_out.splits write_out.splits if_splits)
  show "write_body (pc s t) = Some d" if "write_body (pc s' t) = Some d"
    using assms that unfolding perform_Run
    by (cases "pc s t") (auto simp: action_defs Let_def split: option.splits read_out.splits write_out.splits if_splits)
qed

lemma run_keeps:
  assumes "perform M t Run s = Some s'"
  shows "(t, i) \<in> set (guards s) \<Longrightarrow> (t, i) \<in> set (guards s')" "wguard s t \<Longrightarrow> wguard s' t"
    "\<not> w_excl (pc s t) \<Longrightarrow> dirty s' = dirty s"
  using assms
  by (cases "pc s t"; auto simp: perform_Run action_defs Let_def split: option.splits read_out.splits write_out.splits)+

lemma items_continue:
  assumes M: "mutex_laws M" and inv: "items_inv M c u" and step: "perform M t Run (vec u) = Some s" and room: "has_room s"
  shows "items_inv M c ((take_iter t (pc (vec u) t) u)\<lparr>vec := s\<rparr>)"
proof -
  note d = items_invD [OF inv]
  note i = reach_rw_inv(1) [OF M d(1), unfolded rw_inv_def]
  have ok: "call_ok (u\<lparr>vec := s\<rparr>) t"
    using d(2) [of t] bodies_kept [OF step] unfolding call_ok_def by fastforce
  have free: "\<not> w_excl (pc (vec u) t)" if "iter_mut_of u t = Some jt" for jt
    using d(5) [OF that] i w_excl_owner unfolding inv_write_def by blast
  have u: "items_inv M c (u\<lparr>vec := s\<rparr>)"
    by (rule items_vec_step [OF M inv perform_step [OF step] room _ _ ok])
      (use run_keeps [OF step] d(3,5) free in auto)
  note d' = items_invD [OF u]
  show ?thesis
  proof (cases "take_iter t (pc (vec u) t) u = u")
    case False
    then consider (reads) i b x r where "pc (vec u) t = RFinish i b x" "b x = Pinned (Inl r)"
      | (writes) e x r where "pc (vec u) t = WCommit e x" "snd (e x) = Held (Inl r)"
      by (cases "pc (vec u) t") (auto split: read_out.splits write_out.splits sum.splits)
    then show ?thesis
    proof cases
      case (reads i b x r)
      then have "read_body (pc (vec u) t) = Some b" by simp
      then have r: "r = (0, length x)" "iter_of u t = None"
        using d(2) [of t] reads(2) unfolding call_ok_def by blast+
      have s: "pc s t = Idle" "(t, i) \<in> set (guards s)" "dirty s = x"
        using step reads i by (auto simp: perform_Run action_defs Let_def inv_snap_def)
      have u': "(take_iter t (pc (vec u) t) u)\<lparr>vec := s\<rparr> =
          u\<lparr>vec := s, iter_of := (iter_of u)(t \<mapsto> \<lparr>vi_count = i, vi_inner = r\<rparr>)\<rparr>" using reads by simp
      have "call_ok (u\<lparr>vec := s, iter_of := (iter_of u)(t \<mapsto> \<lparr>vi_count = i, vi_inner = r\<rparr>)\<rparr>) y" for y
        using d'(2) [of y] s(1) by (cases "y = t") (simp_all add: call_ok_def)
      then show ?thesis unfolding u'
        by (intro items_invI) (use d' r s in \<open>fastforce split: if_splits\<close>)+
    next
      case (writes e x r)
      then have "write_body (pc (vec u) t) = Some e" by simp
      then have r: "r = (0, length x)" "fst (e x) = x" "iter_mut_of u t = None"
        using d(2) [of t] writes(2) unfolding call_ok_def by blast+
      have s: "pc s t = Idle" "wguard s t" "dirty s = x"
        using step writes r(2) by (auto simp: perform_Run action_defs Let_def)
      have u': "(take_iter t (pc (vec u) t) u)\<lparr>vec := s\<rparr> =
          u\<lparr>vec := s, iter_mut_of := (iter_mut_of u)(t \<mapsto> \<lparr>vm_inner = r\<rparr>)\<rparr>" using writes by simp
      have "call_ok (u\<lparr>vec := s, iter_mut_of := (iter_mut_of u)(t \<mapsto> \<lparr>vm_inner = r\<rparr>)\<rparr>) y" for y
        using d'(2) [of y] s(1) by (cases "y = t") (simp_all add: call_ok_def)
      then show ?thesis unfolding u'
        by (intro items_invI) (use d' r s in \<open>fastforce split: if_splits\<close>)+
    qed
  qed (use u in simp)
qed

lemma items_drop_guard:
  assumes M: "mutex_laws M" and inv: "items_inv M c u" and idle: "pc (vec u) t = Idle"
    and step: "perform M t a (vec u) = Some s" "has_room s" "pc s t = Idle \<or> pc s t = WClear None"
    and own: "\<And>it. iter_of u t = Some it \<Longrightarrow> (t, vi_count it) \<in> set (guards s)"
      "\<And>it. iter_mut_of u t = Some it \<Longrightarrow> wguard s t \<and> length (dirty s) = length (dirty (vec u))"
  shows "items_inv M c (u\<lparr>vec := s\<rparr>)"
  by (rule items_vec_step [OF M inv perform_step [OF step(1)] step(2) own])
    (use step(3) in \<open>auto simp: call_ok_def\<close>)

lemma items_start:
  assumes M: "mutex_laws M" and inv: "items_inv M c u"
    and step: "perform M t (Start m) (vec u) = Some s" "has_room s"
    and ok: "\<And>b x r. m = ReadCall b \<Longrightarrow> b x = Pinned (Inl r) \<Longrightarrow> r = (0, length x) \<and> iter_of u t = None"
      "\<And>d x r. m = WriteCall d \<Longrightarrow> snd (d x) = Held (Inl r) \<Longrightarrow>
        r = (0, length x) \<and> fst (d x) = x \<and> iter_mut_of u t = None"
  shows "items_inv M c (u\<lparr>vec := s\<rparr>)"
proof -
  note d = items_invD [OF inv]
  have s: "s = goto t (call_entry m) (vec u)" using step(1) by (simp add: perform_def split: if_splits)
  have "call_ok (u\<lparr>vec := s\<rparr>) t"
    using ok by (cases m) (simp_all add: call_ok_def s goto_def)
  then show ?thesis
    by (intro items_vec_step [OF M inv perform_step [OF step(1)] step(2)])
      (use d(3,5) in \<open>auto simp: s goto_def\<close>)
qed

lemma count_list_remove1_in: "1 < count_list xs x \<Longrightarrow> x \<in> set (remove1 x xs)"
  using count_list_remove1 [of x xs] count_list_0_iff [of xs x] count_list_0_iff [of "remove1 x xs" x]
  by (cases "x \<in> set xs") auto

lemma spare_guard_keeps:
  assumes "spare_guard t i u" "iter_of u t = Some it" "(t, vi_count it) \<in> set (guards (vec u))"
  shows "(t, vi_count it) \<in> set (remove1 (t, i) (guards (vec u)))"
  using assms count_list_remove1_in [of "guards (vec u)" "(t, i)"]
  by (cases "vi_count it = i") (auto simp: spare_guard_def in_set_remove1)

lemma map_call_Inr:
  "map_call Inr m = ReadCall b \<Longrightarrow> b x \<noteq> Pinned (Inl r)"
  "map_call Inr m = WriteCall d \<Longrightarrow> snd (d x) \<noteq> Held (Inl r)"
proof -
  show "b x \<noteq> Pinned (Inl r)" if "map_call Inr m = ReadCall b"
  proof (cases m)
    case (ReadCall e)
    then show ?thesis using that by (cases "e x") auto
  qed (use that in simp_all)
  show "snd (d x) \<noteq> Held (Inl r)" if "map_call Inr m = WriteCall d"
  proof (cases m)
    case (WriteCall e)
    then show ?thesis using that by (cases "e x"; cases "snd (e x)") auto
  qed (use that in simp_all)
qed

lemma items_without_iter:
  assumes inv: "items_inv M c u" and t: "t \<notin> fst ` set (refs u)"
  shows "items_inv M c (u\<lparr>iter_of := (iter_of u)(t := None)\<rparr>)"
proof (rule items_invI)
  note d = items_invD [OF inv]
  show "call_ok (u\<lparr>iter_of := (iter_of u)(t := None)\<rparr>) x" for x
    using d(2) [of x] unfolding call_ok_def by (cases "x = t") auto
  show "\<exists>it. iter_of (u\<lparr>iter_of := (iter_of u)(t := None)\<rparr>) x = Some it \<and> p < fst (vi_inner it)"
    if "(x, p) \<in> set (refs (u\<lparr>iter_of := (iter_of u)(t := None)\<rparr>))" for x p
    using that t d(7) [of x p] by (cases "x = t") force+
qed (use items_invD [OF inv] in \<open>simp_all split: if_splits\<close>)

lemma items_without_iter_mut:
  assumes inv: "items_inv M c u" and t: "t \<notin> fst ` set (mut_refs u)"
  shows "items_inv M c (u\<lparr>iter_mut_of := (iter_mut_of u)(t := None)\<rparr>)"
proof (rule items_invI)
  note d = items_invD [OF inv]
  show "call_ok (u\<lparr>iter_mut_of := (iter_mut_of u)(t := None)\<rparr>) x" for x
    using d(2) [of x] unfolding call_ok_def by (cases "x = t") auto
  show "\<exists>it. iter_mut_of (u\<lparr>iter_mut_of := (iter_mut_of u)(t := None)\<rparr>) x = Some it \<and> p < fst (vm_inner it)"
    if "(x, p) \<in> set (mut_refs (u\<lparr>iter_mut_of := (iter_mut_of u)(t := None)\<rparr>))" for x p
    using that t d(8) [of x p] by (cases "x = t") force+
qed (use items_invD [OF inv] in \<open>simp_all split: if_splits\<close>)

lemma items_same_vec:
  assumes inv: "items_inv M c u" and idle: "pc (vec u) t = Idle"
    and u': "vec u' = vec u" "\<And>x. x \<noteq> t \<Longrightarrow> iter_of u' x = iter_of u x" "\<And>x. x \<noteq> t \<Longrightarrow> iter_mut_of u' x = iter_mut_of u x"
  shows "call_ok u' x"
  using items_invD(2) [OF inv, of x] idle u' by (cases "x = t") (simp_all add: call_ok_def)

lemma items_next:
  assumes inv: "items_inv M c u" and idle: "pc (vec u) t = Idle" and step: "idle_use True M t NextItem u = Some u'"
  shows "items_inv M c u'"
proof -
  note d = items_invD [OF inv]
  obtain it where it: "iter_of u t = Some it" using step by (auto split: option.splits)
  obtain i n where i: "vi_inner it = (i, n)" by (cases "vi_inner it")
  have n: "n = length (dirty (vec u))" "i \<le> n" using d(4) [OF it] i by auto
  show ?thesis
  proof (cases "i < n")
    case True
    then have u': "u' = u\<lparr>iter_of := (iter_of u)(t \<mapsto> it\<lparr>vi_inner := (Suc i, n)\<rparr>), refs := (t, i) # refs u\<rparr>"
      using step it i by (simp add: VecIter_next_def)
    show ?thesis
    proof (rule items_invI)
      show "call_ok u' x" for x by (rule items_same_vec [OF inv idle]) (simp_all add: u')
      show "\<exists>it. iter_of u' x = Some it \<and> p < fst (vi_inner it)" if "(x, p) \<in> set (refs u')" for x p
        using that d(7) [of x p] it i by (auto simp: u')
    qed (use d it n True in \<open>auto simp: u' split: if_splits\<close>)
  next
    case False
    then have "it\<lparr>vi_inner := (i, n)\<rparr> = it" using i by simp
    then have "u' = u" using step it i False by (simp add: VecIter_next_def fun_upd_idem)
    then show ?thesis using inv by simp
  qed
qed

lemma items_next_mut:
  assumes inv: "items_inv M c u" and idle: "pc (vec u) t = Idle" and step: "idle_use True M t NextMut u = Some u'"
  shows "items_inv M c u'"
proof -
  note d = items_invD [OF inv]
  obtain it where it: "iter_mut_of u t = Some it" using step by (auto split: option.splits)
  obtain i n where i: "vm_inner it = (i, n)" by (cases "vm_inner it")
  have n: "n = length (dirty (vec u))" "i \<le> n" using d(6) [OF it] i by auto
  show ?thesis
  proof (cases "i < n")
    case True
    then have u': "u' = u\<lparr>iter_mut_of := (iter_mut_of u)(t \<mapsto> it\<lparr>vm_inner := (Suc i, n)\<rparr>), mut_refs := (t, i) # mut_refs u\<rparr>"
      using step it i by (simp add: VecIterMut_next_def)
    have "(t, i) \<notin> set (mut_refs u)" using d(8) [of t i] it i by auto
    then show ?thesis
    proof (intro items_invI)
      show "call_ok u' x" for x by (rule items_same_vec [OF inv idle]) (simp_all add: u')
      show "\<exists>it. iter_mut_of u' x = Some it \<and> p < fst (vm_inner it)" if "(x, p) \<in> set (mut_refs u')" for x p
        using that d(8) [of x p] it i by (auto simp: u')
    qed (use d it n True in \<open>auto simp: u' split: if_splits\<close>)
  next
    case False
    then have "it\<lparr>vm_inner := (i, n)\<rparr> = it" using i by simp
    then have "u' = u" using step it i False by (simp add: VecIterMut_next_def fun_upd_idem)
    then show ?thesis using inv by simp
  qed
qed

lemma items_idle_use:
  assumes M: "mutex_laws M" and inv: "items_inv M c u" and idle: "pc (vec u) t = Idle"
    and step: "idle_use True M t a u = Some u'" and room: "has_room (vec u')"
  shows "items_inv M c u'"
proof -
  note d = items_invD [OF inv]
  have on: "\<exists>s. x = Some s \<and> u' = v\<lparr>vec := s\<rparr> \<and> has_room s" if "on_vec x v = Some u'" for x v
    using that room by (auto simp: on_vec_def split: option.splits)
  show ?thesis
  proof (cases a)
    case (Other m)
    then obtain s where s: "perform M t (Start (map_call Inr m)) (vec u) = Some s" "u' = u\<lparr>vec := s\<rparr>" "has_room s"
      using step on by force
    show ?thesis unfolding s(2) by (rule items_start [OF M inv s(1,3)]) (use map_call_Inr in metis)+
  next
    case Iter
    then obtain s where s: "perform M t (Start (map_call Inl SyncVec_iter)) (vec u) = Some s"
      "u' = u\<lparr>vec := s\<rparr>" "has_room s" "iter_of u t = None"
      using step on by (force split: if_splits)
    show ?thesis unfolding s(2) by (rule items_start [OF M inv s(1,3)]) (use s(4) in \<open>auto simp: SyncVec_iter_def\<close>)
  next
    case IterMut
    then obtain s where s: "perform M t (Start (map_call Inl SyncVec_iter_mut)) (vec u) = Some s"
      "u' = u\<lparr>vec := s\<rparr>" "has_room s" "iter_mut_of u t = None"
      using step on by (force split: if_splits)
    show ?thesis unfolding s(2) by (rule items_start [OF M inv s(1,3)]) (use s(4) in \<open>auto simp: SyncVec_iter_mut_def\<close>)
  next
    case (DropOther i)
    then obtain s where s: "perform M t (DropGuard i) (vec u) = Some s" "u' = u\<lparr>vec := s\<rparr>" "has_room s" "spare_guard t i u"
      using step on by (force split: if_splits)
    have s': "s = drop_guard t i (vec u)" using s(1) idle by (auto simp: perform_def split: if_splits)
    show ?thesis unfolding s(2)
      by (rule items_drop_guard [OF M inv idle s(1,3)])
        (use idle spare_guard_keeps [OF s(4)] d(3,5) in \<open>auto simp: s' drop_guard_def count_sub_def\<close>)
  next
    case DropRefMut
    then obtain s where s: "perform M t DropWriteGuard (vec u) = Some s" "u' = u\<lparr>vec := s\<rparr>" "has_room s" "iter_mut_of u t = None"
      using step on by (force split: if_splits)
    have s': "s = drop_write_guard t (vec u)" using s(1) idle by (auto simp: perform_def split: if_splits)
    show ?thesis unfolding s(2)
      by (rule items_drop_guard [OF M inv idle s(1,3)])
        (use idle s(4) d(3) in \<open>auto simp: s' drop_write_guard_def goto_def\<close>)
  next
    case (StoreRefMut i v)
    then obtain s where s: "perform M t (WriteThrough (SyncVec_get_mut_store i v)) (vec u) = Some s"
      "u' = u\<lparr>vec := s\<rparr>" "has_room s" "iter_mut_of u t = None"
      using step on by (force split: if_splits)
    have s': "s = write_through (SyncVec_get_mut_store i v) (vec u)"
      using s(1) idle by (auto simp: perform_def split: if_splits)
    show ?thesis unfolding s(2)
      by (rule items_drop_guard [OF M inv idle s(1,3)])
        (use idle s(4) d(3) in \<open>auto simp: s' write_through_def log_event_def\<close>)
  next
    case (StoreItem p v)
    then have s: "(t, p) \<in> set (mut_refs u)" "u' = u\<lparr>vec := write_through (\<lambda>m. m[p := v]) (vec u)\<rparr>"
      using step by (auto split: if_splits)
    then have "wguard (vec u) t" using d(5,8) by blast
    then have w: "perform M t (WriteThrough (\<lambda>m. m[p := v])) (vec u) = Some (write_through (\<lambda>m. m[p := v]) (vec u))"
      using idle by (simp add: perform_def)
    show ?thesis unfolding s(2)
      by (rule items_drop_guard [OF M inv idle w])
        (use idle room d(3,5) in \<open>auto simp: s(2) write_through_def log_event_def\<close>)
  next
    case (DropItem p)
    then have u': "u' = u\<lparr>refs := remove1 (t, p) (refs u)\<rparr>" using step by (simp split: if_splits)
    show ?thesis
    proof (rule items_invI)
      show "call_ok u' x" for x by (rule items_same_vec [OF inv idle]) (simp_all add: u')
      show "\<exists>it. iter_of u' x = Some it \<and> q < fst (vi_inner it)" if "(x, q) \<in> set (refs u')" for x q
        using that d(7) [of x q] notin_set_remove1 [of "(x, q)" "refs u" "(t, p)"] by (auto simp: u')
    qed (use d in \<open>simp_all add: u'\<close>)
  next
    case (DropMutItem p)
    then have u': "u' = u\<lparr>mut_refs := remove1 (t, p) (mut_refs u)\<rparr>" using step by (simp split: if_splits)
    show ?thesis
    proof (rule items_invI)
      show "call_ok u' x" for x by (rule items_same_vec [OF inv idle]) (simp_all add: u')
      show "\<exists>it. iter_mut_of u' x = Some it \<and> q < fst (vm_inner it)" if "(x, q) \<in> set (mut_refs u')" for x q
        using that d(8) [of x q] notin_set_remove1 [of "(x, q)" "mut_refs u" "(t, p)"] by (auto simp: u')
    qed (use d in \<open>simp_all add: u' distinct_remove1\<close>)
  next
    case DropIter
    then obtain it where it: "iter_of u t = Some it" "t \<notin> fst ` set (refs u)"
      "u' = u\<lparr>vec := VecIter_drop t it (vec u), iter_of := (iter_of u)(t := None)\<rparr>"
      using step by (auto split: option.splits if_splits)
    let ?v = "u\<lparr>iter_of := (iter_of u)(t := None)\<rparr>"
    have v: "items_inv M c ?v" by (rule items_without_iter [OF inv it(2)])
    have u': "u' = ?v\<lparr>vec := VecIter_drop t it (vec u)\<rparr>" using it(3) by simp
    have s: "perform M t (DropGuard (vi_count it)) (vec ?v) = Some (VecIter_drop t it (vec u))"
      using idle d(3) [OF it(1)] by (simp add: perform_def VecIter_drop_def)
    show ?thesis unfolding u'
      by (rule items_drop_guard [OF M v _ s])
        (use idle room d(5) in \<open>auto simp: u' VecIter_drop_def drop_guard_def count_sub_def\<close>)
  next
    case DropIterMut
    then have it: "iter_mut_of u t \<noteq> None" "t \<notin> fst ` set (mut_refs u)"
      using step by (auto split: if_splits)
    let ?v = "u\<lparr>iter_mut_of := (iter_mut_of u)(t := None)\<rparr>"
    have v: "items_inv M c ?v" by (rule items_without_iter_mut [OF inv it(2)])
    have "on_vec (perform M t DropWriteGuard (vec u)) ?v = Some u'"
      using step DropIterMut it by (simp split: if_splits)
    from on [OF this] obtain s where s: "perform M t DropWriteGuard (vec u) = Some s" "u' = ?v\<lparr>vec := s\<rparr>" "has_room s"
      by blast
    have s': "s = drop_write_guard t (vec u)" using s(1) idle by (auto simp: perform_def split: if_splits)
    show ?thesis unfolding s(2)
      by (rule items_drop_guard [OF M v _ _ s(3)])
        (use idle s(1) d(3) in \<open>auto simp: s' drop_write_guard_def goto_def\<close>)
  qed (use step items_next [OF inv idle] items_next_mut [OF inv idle] in simp_all)
qed

lemma items_reach:
  assumes M: "mutex_laws M" and "users_reach True M c u"
  shows "items_inv M c u"
  using assms(2)
proof (induction rule: users_reach.induct)
  case (users_start i)
  then show ?case by (simp add: items_inv_def users_new_def call_ok_def reach_new)
next
  case (users_use u t a u')
  show ?case
  proof (cases "a = Continue")
    case True
    then obtain s where s: "perform M t Run (vec u) = Some s" "u' = (take_iter t (pc (vec u) t) u)\<lparr>vec := s\<rparr>"
      using users_use.hyps(2) by (auto simp: use_step_def on_vec_def split: option.splits)
    show ?thesis unfolding s(2)
      by (rule items_continue [OF M users_use.IH s(1)]) (use users_use.hyps(3) s(2) in simp)
  next
    case False
    then have "pc (vec u) t = Idle" "idle_use True M t a u = Some u'"
      using users_use.hyps(2) by (cases a; simp add: use_step_def split: if_splits)+
    then show ?thesis by (rule items_idle_use [OF M users_use.IH _ _ users_use.hyps(3)])
  qed
qed

section \<open>Instances\<close>

fun use_all :: "bool \<Rightarrow> 'l mutex_ops \<Rightarrow> (tid \<times> ('v, 'r) use) list \<Rightarrow> ('v, 'l, 'r) users \<Rightarrow> ('v, 'l, 'r) users option" where
  "use_all bound M [] u = Some u"
| "use_all bound M ((t, a) # as) u =
     (case use_step bound M t a u of None \<Rightarrow> None | Some u' \<Rightarrow> use_all bound M as u')"

lemma pins_less: "pins (VecIter_drop t it s) i \<le> pins s i"
  using pins_unpin [of t "vi_count it" s i]
  by (cases "(t, vi_count it) \<in> set (guards s)")
    (simp_all add: VecIter_drop_def drop_guard_def count_sub_def remove1_idem split: if_splits)

lemma use_pins:
  assumes "use_step bound M t a u = Some u'"
  shows "pins (vec u') i \<le> Suc (pins (vec u) i)"
proof -
  have on: "pins (vec x) i \<le> Suc (pins (vec u) i)" if "on_vec (perform M t e (vec u)) v = Some x" for e v x
    using that pins_step [OF perform_step] by (auto simp: on_vec_def split: option.splits)
  show ?thesis
    using assms on pins_less [of t _ "vec u" i]
    by (cases a) (auto simp: use_step_def write_through_def log_event_def le_Suc_eq
        split: if_splits option.splits prod.splits)
qed

lemma use_all_reach:
  assumes "users_reach bound M c u" "\<And>i. pins (vec u) i + length as + 1 < 2 ^ 64" "use_all bound M as u = Some u'"
  shows "users_reach bound M c u'"
  using assms
proof (induction as arbitrary: u)
  case (Cons a as)
  obtain t x where a: "a = (t, x)" by (cases a)
  then obtain u1 where u1: "use_step bound M t x u = Some u1" "use_all bound M as u1 = Some u'"
    using Cons.prems(3) by (auto split: option.splits)
  have room: "pins (vec u1) i + length as + 1 < 2 ^ 64" for i
    using use_pins [OF u1(1), of i] Cons.prems(2) [of i] by simp
  then have "has_room (vec u1)" unfolding has_room_def by (meson add_le_mono1 le_add1 le_less_trans)
  then show ?case using Cons.IH [OF users_use [OF Cons.prems(1) u1(1)] room u1(2)] by blast
qed simp

type_synonym demo_users = "(nat, tid option, unit) users"

definition users0 :: demo_users where
  "users0 = users_new (sys_with owner_mutex 1 [7])"

lemma users0_reach:
  assumes "use_all bound owner_mutex as users0 = Some u" "length as < 100"
  shows "users_reach bound owner_mutex [7] u"
  by (rule use_all_reach [OF users_start [where i = 1] _ assms(1) [unfolded users0_def]])
    (use assms(2) in \<open>simp add: users_new_def pins_def\<close>)

lemmas use_demo = users0_def users_new_def use_step_def on_vec_def perform_def advance_def action_defs Let_def
  SyncVec_iter_def SyncVec_iter_mut_def SyncVec_clear_def VecIter_next_def VecIterMut_next_def VecIter_drop_def

text \<open>Thread 0 takes an item of \<open>iter\<close>; it drops the iterator, and thread 1 calls \<open>clear\<close>.\<close>

definition take_item :: "(tid \<times> (nat, unit) use) list" where
  "take_item = [(0, Iter), (0, Continue), (0, Continue), (0, Continue), (0, Continue), (0, Continue),
     (0, Continue), (0, NextItem)]"

definition drop_and_clear :: "(tid \<times> (nat, unit) use) list" where
  "drop_and_clear = [(0, DropIter), (1, Other (SyncVec_clear (\<lambda>_. False))), (1, Continue), (1, Continue),
     (1, Continue), (1, Continue), (1, Continue), (1, Continue), (1, Continue)]"

lemma item_taken:
  "\<exists>u. use_all bound owner_mutex take_item users0 = Some u \<and> (0, 0) \<in> set (refs u) \<and> length (dirty (vec u)) = 1"
  by (simp add: use_demo take_item_def)

lemma item_left:
  "\<exists>u. use_all False owner_mutex (take_item @ drop_and_clear) users0 = Some u \<and>
    ((0, 0) \<in> set (refs u) \<and> dirty (vec u) = [7] \<and>
     (\<exists>u'. use_step False owner_mutex 1 Continue u = Some u' \<and> (0, 0) \<in> set (refs u') \<and> dirty (vec u') = []))"
  by (simp add: use_demo take_item_def drop_and_clear_def)

text \<open>
  Thread 0 takes an item of \<open>iter_mut\<close> and drops the iterator; thread 1 gets a write iterator of its
  own and takes an item of it.
\<close>

definition take_mut_item :: "tid \<Rightarrow> (tid \<times> (nat, unit) use) list" where
  "take_mut_item t = [(t, IterMut), (t, Continue), (t, Continue), (t, Continue), (t, Continue), (t, Continue),
     (t, Continue), (t, Continue), (t, NextMut)]"

definition drop_iter_mut :: "(tid \<times> (nat, unit) use) list" where
  "drop_iter_mut = [(0, DropIterMut), (0, Continue), (0, Continue)]"

lemma mut_item_taken:
  "\<exists>u. use_all bound owner_mutex (take_mut_item 0) users0 = Some u \<and> (0, 0) \<in> set (mut_refs u)"
  by (simp add: use_demo take_mut_item_def)

lemma mut_item_left:
  "\<exists>u. use_all False owner_mutex (take_mut_item 0 @ drop_iter_mut @ take_mut_item 1) users0 = Some u \<and>
    ((0, 0) \<in> set (mut_refs u) \<and> (1, 0) \<in> set (mut_refs u) \<and> wguard (vec u) 1 \<and> \<not> wguard (vec u) 0 \<and>
     dirty (vec u) = [7] \<and> (\<exists>u'. use_step False owner_mutex 0 (StoreItem 0 9) u = Some u' \<and> dirty (vec u') = [9]))"
  by (simp add: use_demo take_mut_item_def drop_iter_mut_def)

section \<open>What the lifetimes allow\<close>

text \<open>
  Property C28.  The items of \<open>iter\<close> outlive the iterator.  If an item were borrowed from its iterator,
  an item that is held would be in range, with its thread in possession of a slot, in every reachable
  state.  With the lifetimes of the source thread 0 can hold an item of an iterator that it has
  dropped while a step of thread 1, the end of a \<open>clear\<close>, empties the vector under it.
\<close>

theorem iter_item_dangles:
  assumes "mutex_laws M" and "users_reach True M c w" and "(t, p) \<in> set (refs w)"
  shows "(p < length (dirty (vec w)) \<and> (\<exists>i. (t, i) \<in> set (guards (vec w)))) \<and>
    (\<exists>(u :: demo_users) u'. users_reach False owner_mutex [7] u \<and> (0, 0) \<in> set (refs u) \<and>
      dirty (vec u) = [7] \<and> use_step False owner_mutex 1 Continue u = Some u' \<and>
      (0, 0) \<in> set (refs u') \<and> dirty (vec u') = [])"
proof
  note d = items_invD [OF items_reach [OF assms(1,2)]]
  obtain it where it: "iter_of w t = Some it" "p < fst (vi_inner it)" using d(7) [OF assms(3)] by blast
  then show "p < length (dirty (vec w)) \<and> (\<exists>i. (t, i) \<in> set (guards (vec w)))"
    using d(3,4) [OF it(1)] by auto
  obtain u where u: "use_all False owner_mutex (take_item @ drop_and_clear) users0 = Some u"
    "(0, 0) \<in> set (refs u) \<and> dirty (vec u) = [7] \<and>
     (\<exists>u'. use_step False owner_mutex 1 Continue u = Some u' \<and> (0, 0) \<in> set (refs u') \<and> dirty (vec u') = [])"
    using item_left by blast
  have "users_reach False owner_mutex [7] u"
    by (rule users0_reach [OF u(1)]) (simp add: take_item_def drop_and_clear_def)
  then show "\<exists>(u :: demo_users) u'. users_reach False owner_mutex [7] u \<and> (0, 0) \<in> set (refs u) \<and>
      dirty (vec u) = [7] \<and> use_step False owner_mutex 1 Continue u = Some u' \<and>
      (0, 0) \<in> set (refs u') \<and> dirty (vec u') = []" using u(2) by blast
qed

text \<open>
  Property C29.  The items of \<open>iter_mut\<close> outlive the write lock.  If an item were borrowed from its
  iterator, whoever holds a mutable item would have the write lock, no other thread would hold one,
  and no position would be held twice.  With the lifetimes of the source two threads can hold a
  mutable item for the same position, and the one without the write lock can store through it.
\<close>

theorem iter_mut_item_aliases:
  assumes "mutex_laws M" and "users_reach True M c w" and "(t, p) \<in> set (mut_refs w)"
  shows "(wguard (vec w) t \<and> p < length (dirty (vec w)) \<and> fst ` set (mut_refs w) = {t} \<and> distinct (mut_refs w)) \<and>
    (\<exists>(u :: demo_users) u'. users_reach False owner_mutex [7] u \<and>
      (0, 0) \<in> set (mut_refs u) \<and> (1, 0) \<in> set (mut_refs u) \<and> wguard (vec u) 1 \<and> \<not> wguard (vec u) 0 \<and>
      dirty (vec u) = [7] \<and> use_step False owner_mutex 0 (StoreItem 0 9) u = Some u' \<and> dirty (vec u') = [9])"
proof
  note d = items_invD [OF items_reach [OF assms(1,2)]]
  obtain it where it: "iter_mut_of w t = Some it" "p < fst (vm_inner it)" using d(8) [OF assms(3)] by blast
  have one: "x = t" if m: "(x, q) \<in> set (mut_refs w)" for x q
  proof (rule ccontr)
    obtain jt where "iter_mut_of w x = Some jt" using d(8) [OF m] by blast
    then have wx: "wguard (vec w) x" by (rule d(5))
    assume "x \<noteq> t"
    from reach_alone(4) [OF assms(1) d(1) disjI2 [OF d(5) [OF it(1)]] this] show False using wx by simp
  qed
  have "fst ` set (mut_refs w) \<subseteq> {t}" using one by auto
  moreover have "t \<in> fst ` set (mut_refs w)" using image_eqI [OF _ assms(3), of t fst] by simp
  ultimately have "fst ` set (mut_refs w) = {t}" by blast
  then show "wguard (vec w) t \<and> p < length (dirty (vec w)) \<and> fst ` set (mut_refs w) = {t} \<and> distinct (mut_refs w)"
    using d(5,6) [OF it(1)] d(9) it(2) by auto
  obtain u where u: "use_all False owner_mutex (take_mut_item 0 @ drop_iter_mut @ take_mut_item 1) users0 = Some u"
    "(0, 0) \<in> set (mut_refs u) \<and> (1, 0) \<in> set (mut_refs u) \<and> wguard (vec u) 1 \<and> \<not> wguard (vec u) 0 \<and>
     dirty (vec u) = [7] \<and> (\<exists>u'. use_step False owner_mutex 0 (StoreItem 0 9) u = Some u' \<and> dirty (vec u') = [9])"
    using mut_item_left by blast
  have "users_reach False owner_mutex [7] u"
    by (rule users0_reach [OF u(1)]) (simp add: take_mut_item_def drop_iter_mut_def)
  then show "\<exists>(u :: demo_users) u'. users_reach False owner_mutex [7] u \<and>
      (0, 0) \<in> set (mut_refs u) \<and> (1, 0) \<in> set (mut_refs u) \<and> wguard (vec u) 1 \<and> \<not> wguard (vec u) 0 \<and>
      dirty (vec u) = [7] \<and> use_step False owner_mutex 0 (StoreItem 0 9) u = Some u' \<and> dirty (vec u') = [9]"
    using u(2) by blast
qed

theorem iter_item_dangles_witness:
  "\<exists>w :: demo_users. (0, 0) \<in> set (refs w) \<and> 0 < length (dirty (vec w))"
proof -
  obtain w where w: "use_all True owner_mutex take_item users0 = Some w" "(0, 0) \<in> set (refs w)"
    using item_taken by blast
  have "users_reach True owner_mutex [7] w" by (rule users0_reach [OF w(1)]) (simp add: take_item_def)
  from iter_item_dangles [OF owner_mutex_laws this w(2)] show ?thesis using w(2) by blast
qed

theorem iter_mut_item_aliases_witness:
  "\<exists>w :: demo_users. (0, 0) \<in> set (mut_refs w) \<and> wguard (vec w) 0"
proof -
  obtain w where w: "use_all True owner_mutex (take_mut_item 0) users0 = Some w" "(0, 0) \<in> set (mut_refs w)"
    using mut_item_taken by blast
  have "users_reach True owner_mutex [7] w" by (rule users0_reach [OF w(1)]) (simp add: take_mut_item_def)
  from iter_mut_item_aliases [OF owner_mutex_laws this w(2)] show ?thesis using w(2) by blast
qed

end
