(* ===== verification/Wait_Group.thy ===== *)
theory Wait_Group
  imports Prelude
begin

text \<open>
  \<open>WaitGroup\<close> (\<open>src/src/sync/wg.rs\<close>): the shared counter \<open>total\<close>, the channel through which a
  dropped handle reports, and the handles.  The channel is \<open>flume\<close>'s, whose code is not in the
  repository: its operations are the parameter \<open>C\<close>, what its documentation promises of them is
  \<open>chan_laws C\<close>.  Every atomic access of a method is one action of its thread; loads and stores
  interleave (the \<open>Relaxed\<close> load of \<open>wait\<close> is taken to read the present value).
\<close>

section \<open>The channel\<close>

text \<open>
  \<open>ch_recv open q\<close> is one attempt to receive; \<open>open\<close>: a sender is alive.  \<open>Empty\<close>: the
  receiver has to wait (\<open>recv\<close> blocks, \<open>recv_async\<close> is pending).
\<close>

datatype 'q received = Got u64 'q | Empty | Disconnected

record 'q chan_ops =
  ch_new :: 'q
  ch_send :: "u64 \<Rightarrow> 'q \<Rightarrow> 'q"
  ch_recv :: "bool \<Rightarrow> 'q \<Rightarrow> 'q received"
  ch_pending :: "'q \<Rightarrow> u64 list"

text \<open>
  The documented behaviour of an unbounded channel: a new one is empty, messages arrive in the
  order in which they were sent, each once, and \<open>recv\<close> fails only when the channel is empty and
  all senders are gone.
\<close>

definition chan_laws :: "'q chan_ops \<Rightarrow> bool" where
  "chan_laws C \<longleftrightarrow>
     ch_pending C (ch_new C) = [] \<and>
     (\<forall>v q. ch_pending C (ch_send C v q) = ch_pending C q @ [v]) \<and>
     (\<forall>open q. ch_pending C q = [] \<longrightarrow> ch_recv C open q = (if open then Empty else Disconnected)) \<and>
     (\<forall>open q v vs. ch_pending C q = v # vs \<longrightarrow>
        (\<exists>q'. ch_recv C open q = Got v q' \<and> ch_pending C q' = vs))"

lemma chan_new: "chan_laws C \<Longrightarrow> ch_pending C (ch_new C) = []"
  and chan_send: "chan_laws C \<Longrightarrow> ch_pending C (ch_send C v q) = ch_pending C q @ [v]"
  by (simp_all add: chan_laws_def)

lemma chan_recv:
  assumes "chan_laws C"
  obtains "ch_pending C q = []" "ch_recv C open q = (if open then Empty else Disconnected)"
  | v q' where "ch_pending C q = v # ch_pending C q'" "ch_recv C open q = Got v q'"
  using assms unfolding chan_laws_def by (cases "ch_pending C q") metis+

section \<open>State\<close>

text \<open>
  The program counters: a thread is between calls, in \<open>add v\<close> called on handle \<open>h\<close> (on behalf
  of \<open>clone\<close>, or not) before the \<open>fetch_or\<close> or before the \<open>store\<close>, or in \<open>wait\<close> on handle
  \<open>h\<close>: before the first load, before a \<open>recv\<close>, or before the comparison with \<open>total\<close>.
\<close>

datatype wg_pc =
    WgIdle
  | AddLoad nat bool u64
  | AddStore nat bool u64 u64
  | WaitLoad nat
  | WaitRecv nat u64
  | WaitCheck nat u64

text \<open>
  \<open>live\<close>: the handles that are not dropped; \<open>fresh\<close>: the number of the next one; \<open>busy\<close>: which
  thread has borrowed which handle for a call.  \<open>clones\<close>, \<open>drops\<close> and \<open>taken\<close> count the clones
  made, the handles dropped and the messages received; the program does not read them.
\<close>

record 'q wg =
  total :: u64
  queue :: 'q
  live :: "nat list"
  fresh :: nat
  busy :: "(tid \<times> nat) list"
  wg_pc :: "tid \<Rightarrow> wg_pc"
  clones :: nat
  drops :: nat
  taken :: nat

definition WaitGroup_new :: "'q chan_ops \<Rightarrow> 'q wg" where
  "WaitGroup_new C = \<lparr>total = 0, queue = ch_new C, live = [0], fresh = 1, busy = [],
     wg_pc = (\<lambda>_. WgIdle), clones = 0, drops = 0, taken = 0\<rparr>"

section \<open>Actions\<close>

definition wg_goto :: "tid \<Rightarrow> wg_pc \<Rightarrow> 'q wg \<Rightarrow> 'q wg" where
  "wg_goto t p s = s\<lparr>wg_pc := (wg_pc s)(t := p)\<rparr>"

definition wg_call :: "tid \<Rightarrow> nat \<Rightarrow> wg_pc \<Rightarrow> 'q wg \<Rightarrow> 'q wg" where
  "wg_call t h p s = s\<lparr>wg_pc := (wg_pc s)(t := p), busy := (t, h) # busy s\<rparr>"

definition wg_return :: "tid \<Rightarrow> 'q wg \<Rightarrow> 'q wg" where
  "wg_return t s = s\<lparr>wg_pc := (wg_pc s)(t := WgIdle), busy := filter (\<lambda>(u, _). u \<noteq> t) (busy s)\<rparr>"

text \<open>\<open>clone\<close>: the copy of the handle, once \<open>add(1)\<close> has returned.\<close>

definition WaitGroup_clone :: "'q wg \<Rightarrow> 'q wg" where
  "WaitGroup_clone s = s\<lparr>live := fresh s # live s, fresh := Suc (fresh s), clones := Suc (clones s)\<rparr>"

text \<open>\<open>add\<close>: the counter is read and written by two separate actions; the sum wraps around.\<close>

fun WaitGroup_add :: "tid \<Rightarrow> wg_pc \<Rightarrow> 'q wg \<Rightarrow> 'q wg option" where
  "WaitGroup_add t (AddLoad h c v) s = Some (wg_goto t (AddStore h c v (total s)) s)"
| "WaitGroup_add t (AddStore h c v current) s =
     (let s1 = s\<lparr>total := current + v\<rparr> in
      Some (wg_return t (if c then WaitGroup_clone s1 else s1)))"
| "WaitGroup_add t _ s = None"

text \<open>\<open>wait\<close>; a handle is alive as long as there is a sender.\<close>

fun WaitGroup_wait :: "'q chan_ops \<Rightarrow> tid \<Rightarrow> wg_pc \<Rightarrow> 'q wg \<Rightarrow> 'q wg option" where
  "WaitGroup_wait C t (WaitLoad h) s =
     Some (if total s = 0 then wg_return t s else wg_goto t (WaitRecv h 0) s)"
| "WaitGroup_wait C t (WaitRecv h current) s =
     (case ch_recv C (live s \<noteq> []) (queue s) of
        Got v q \<Rightarrow> Some (wg_goto t (WaitCheck h (current + v)) (s\<lparr>queue := q, taken := Suc (taken s)\<rparr>))
      | Empty \<Rightarrow> None
      | Disconnected \<Rightarrow> Some (wg_return t s))"
| "WaitGroup_wait C t (WaitCheck h current) s =
     Some (if current \<ge> total s then wg_return t s else wg_goto t (WaitRecv h current) s)"
| "WaitGroup_wait C t _ s = None"

text \<open>
  \<open>wait_async\<close> has the same text, with \<open>recv_async().await\<close> for \<open>recv()\<close>: where \<open>wait\<close> blocks
  its thread, the task is suspended.
\<close>

definition WaitGroup_wait_async :: "'q chan_ops \<Rightarrow> tid \<Rightarrow> wg_pc \<Rightarrow> 'q wg \<Rightarrow> 'q wg option" where
  "WaitGroup_wait_async = WaitGroup_wait"

text \<open>
  \<open>drop\<close>: the message goes out while the handle's own receiver is still alive, so that the send
  succeeds; the borrow checker lets no call on the handle be in progress.
\<close>

definition WaitGroup_drop :: "'q chan_ops \<Rightarrow> nat \<Rightarrow> 'q wg \<Rightarrow> 'q wg option" where
  "WaitGroup_drop C h s =
     (if h \<in> set (live s) \<and> h \<notin> snd ` set (busy s)
      then Some (s\<lparr>queue := ch_send C 1 (queue s), live := remove1 h (live s), drops := Suc (drops s)\<rparr>)
      else None)"

datatype wg_action = WgRun | WgClone nat | WgAdd nat u64 | WgWait nat | WgDrop nat

definition wg_run :: "'q chan_ops \<Rightarrow> tid \<Rightarrow> 'q wg \<Rightarrow> 'q wg option" where
  "wg_run C t s =
     (case wg_pc s t of
        WgIdle \<Rightarrow> None
      | AddLoad h c v \<Rightarrow> WaitGroup_add t (AddLoad h c v) s
      | AddStore h c v x \<Rightarrow> WaitGroup_add t (AddStore h c v x) s
      | p \<Rightarrow> WaitGroup_wait C t p s)"

fun wg_perform :: "'q chan_ops \<Rightarrow> tid \<Rightarrow> wg_action \<Rightarrow> 'q wg \<Rightarrow> 'q wg option" where
  "wg_perform C t WgRun s = wg_run C t s"
| "wg_perform C t (WgClone h) s =
     (if wg_pc s t = WgIdle \<and> h \<in> set (live s) then Some (wg_call t h (AddLoad h True 1) s) else None)"
| "wg_perform C t (WgAdd h v) s =
     (if wg_pc s t = WgIdle \<and> h \<in> set (live s) then Some (wg_call t h (AddLoad h False v) s) else None)"
| "wg_perform C t (WgWait h) s =
     (if wg_pc s t = WgIdle \<and> h \<in> set (live s) then Some (wg_call t h (WaitLoad h) s) else None)"
| "wg_perform C t (WgDrop h) s = (if wg_pc s t = WgIdle then WaitGroup_drop C h s else None)"

fun wg_all :: "'q chan_ops \<Rightarrow> (tid \<times> wg_action) list \<Rightarrow> 'q wg \<Rightarrow> 'q wg option" where
  "wg_all C [] s = Some s"
| "wg_all C ((t, a) # as) s =
     (case wg_perform C t a s of None \<Rightarrow> None | Some s' \<Rightarrow> wg_all C as s')"

section \<open>Reachable states\<close>

text \<open>
  \<open>wg_reach\<close>: all of them.  \<open>wg_serial\<close>: those of the runs that use the group as it can be used:
  handles are made by \<open>clone\<close> only, no two threads are between the load and the store of \<open>add\<close>
  at the same time, and there are fewer than \<open>2 ^ 64 - 1\<close> clones.
\<close>

inductive wg_reach :: "'q chan_ops \<Rightarrow> 'q wg \<Rightarrow> bool" for C where
  wg_reach_new: "wg_reach C (WaitGroup_new C)"
| wg_reach_step: "wg_reach C s \<Longrightarrow> wg_perform C t a s = Some s' \<Longrightarrow> wg_reach C s'"

fun storing :: "wg_pc \<Rightarrow> bool" where
  "storing (AddStore h c v x) = True"
| "storing _ = False"

fun on_handle :: "wg_pc \<Rightarrow> nat option" where
  "on_handle WgIdle = None"
| "on_handle (AddLoad h c v) = Some h"
| "on_handle (AddStore h c v x) = Some h"
| "on_handle (WaitLoad h) = Some h"
| "on_handle (WaitRecv h x) = Some h"
| "on_handle (WaitCheck h x) = Some h"

definition add_free :: "'q wg \<Rightarrow> bool" where
  "add_free s = list_all (\<lambda>(u, h). \<not> storing (wg_pc s u)) (busy s)"

fun serial_action :: "'q wg \<Rightarrow> tid \<Rightarrow> wg_action \<Rightarrow> bool" where
  "serial_action s t (WgAdd h v) = False"
| "serial_action s t WgRun = (case wg_pc s t of AddLoad h c v \<Rightarrow> add_free s | _ \<Rightarrow> True)"
| "serial_action s t _ = True"

inductive wg_serial :: "'q chan_ops \<Rightarrow> 'q wg \<Rightarrow> bool" for C where
  wg_serial_new: "wg_serial C (WaitGroup_new C)"
| wg_serial_step: "wg_serial C s \<Longrightarrow> wg_perform C t a s = Some s' \<Longrightarrow> serial_action s t a \<Longrightarrow>
    clones s' < 2 ^ 64 - 1 \<Longrightarrow> wg_serial C s'"

text \<open>The same along a schedule, checked action by action.\<close>

fun wg_all_serial :: "'q chan_ops \<Rightarrow> (tid \<times> wg_action) list \<Rightarrow> 'q wg \<Rightarrow> 'q wg option" where
  "wg_all_serial C [] s = Some s"
| "wg_all_serial C ((t, a) # as) s =
     (case wg_perform C t a s of
        None \<Rightarrow> None
      | Some s' \<Rightarrow> if serial_action s t a \<and> clones s' < 2 ^ 64 - 1 then wg_all_serial C as s' else None)"

lemma wg_all_reach: "wg_reach C s \<Longrightarrow> wg_all C as s = Some s' \<Longrightarrow> wg_reach C s'"
  by (induction C as s rule: wg_all.induct) (auto split: option.splits intro: wg_reach_step)

lemma wg_all_serial: "wg_serial C s \<Longrightarrow> wg_all_serial C as s = Some s' \<Longrightarrow> wg_serial C s'"
  by (induction C as s rule: wg_all_serial.induct)
    (auto split: option.splits if_splits intro: wg_serial_step [simplified])

lemma serial_by_schedule:
  assumes "case wg_all_serial C as (WaitGroup_new C) of None \<Rightarrow> False | Some s \<Rightarrow> P s"
  shows "\<exists>s. wg_serial C s \<and> P s"
  using assms wg_all_serial [OF wg_serial_new] by (fastforce split: option.splits)

lemma wg_reach_by_schedule:
  assumes "case wg_all C as (WaitGroup_new C) of None \<Rightarrow> False | Some s \<Rightarrow> P s"
  shows "\<exists>s. wg_reach C s \<and> P s"
  using assms wg_all_reach [OF wg_reach_new] by (fastforce split: option.splits)

section \<open>Invariants\<close>

text \<open>What a program counter promises, given the counter and the number of messages received.\<close>

fun pc_ok :: "u64 \<Rightarrow> nat \<Rightarrow> wg_pc \<Rightarrow> bool" where
  "pc_ok n k (AddLoad h c v) = (c \<and> v = 1)"
| "pc_ok n k (AddStore h c v x) = (c \<and> v = 1 \<and> x = n)"
| "pc_ok n k (WaitRecv h x) = (unat x \<le> k)"
| "pc_ok n k (WaitCheck h x) = (unat x \<le> k)"
| "pc_ok n k _ = True"

lemma pc_ok_total: "pc_ok n k p \<Longrightarrow> \<not> storing p \<Longrightarrow> pc_ok n' k p"
  by (cases p) simp_all

lemma pc_ok_taken: "pc_ok n k p \<Longrightarrow> k \<le> k' \<Longrightarrow> pc_ok n k' p"
  by (cases p) simp_all

definition wg_pcs :: "'q wg \<Rightarrow> bool" where
  "wg_pcs s \<longleftrightarrow> (\<forall>t. pc_ok (total s) (taken s) (wg_pc s t)) \<and>
     (\<forall>t u. storing (wg_pc s t) \<longrightarrow> storing (wg_pc s u) \<longrightarrow> t = u)"

definition wg_counts :: "'q wg \<Rightarrow> bool" where
  "wg_counts s \<longleftrightarrow> unat (total s) = clones s \<and> clones s + 1 < 2 ^ 64 \<and>
     length (live s) + drops s = clones s + 1"

definition wg_handles :: "'q wg \<Rightarrow> bool" where
  "wg_handles s \<longleftrightarrow> distinct (live s) \<and> (\<forall>h \<in> set (live s). h < fresh s) \<and>
     (\<forall>t h. (t, h) \<in> set (busy s) \<longleftrightarrow> on_handle (wg_pc s t) = Some h) \<and>
     (\<forall>t h. (t, h) \<in> set (busy s) \<longrightarrow> h \<in> set (live s))"

definition wg_chan :: "'q chan_ops \<Rightarrow> 'q wg \<Rightarrow> bool" where
  "wg_chan C s \<longleftrightarrow> (\<forall>v \<in> set (ch_pending C (queue s)). v = 1) \<and>
     drops s = taken s + length (ch_pending C (queue s))"

definition wg_inv :: "'q chan_ops \<Rightarrow> 'q wg \<Rightarrow> bool" where
  "wg_inv C s \<longleftrightarrow> wg_pcs s \<and> wg_counts s \<and> wg_handles s \<and> wg_chan C s"

lemmas wg_inv_defs = wg_pcs_def wg_counts_def wg_handles_def wg_chan_def
lemmas wg_actions = wg_goto_def wg_call_def wg_return_def WaitGroup_clone_def WaitGroup_drop_def

lemma unat_succ_le: "unat (x + 1 :: u64) \<le> Suc (unat x)"
  by (simp add: unat_word_ariths)

lemma wg_new_inv: "chan_laws C \<Longrightarrow> wg_inv C (WaitGroup_new C)"
  by (simp add: wg_inv_def wg_inv_defs WaitGroup_new_def chan_new)

text \<open>How the parts of the invariant survive a change of one thread's program counter.\<close>

lemma handles_goto:
  "wg_handles s \<Longrightarrow> on_handle p = on_handle (wg_pc s t) \<Longrightarrow> wg_handles (wg_goto t p s)"
  by (auto simp: wg_handles_def wg_goto_def)

lemma handles_call:
  "wg_handles s \<Longrightarrow> wg_pc s t = WgIdle \<Longrightarrow> h \<in> set (live s) \<Longrightarrow> on_handle p = Some h \<Longrightarrow>
   wg_handles (wg_call t h p s)"
  unfolding wg_handles_def wg_call_def by auto

lemma handles_return: "wg_handles s \<Longrightarrow> wg_handles (wg_return t s)"
  by (auto simp: wg_handles_def wg_return_def)

lemma handles_clone: "wg_handles s \<Longrightarrow> wg_handles (WaitGroup_clone s)"
  unfolding wg_handles_def WaitGroup_clone_def by auto

lemma pcs_move:
  "wg_pcs s \<Longrightarrow> pc_ok (total s) (taken s) p \<Longrightarrow> \<not> storing p \<Longrightarrow>
   wg_pcs (s\<lparr>wg_pc := (wg_pc s)(t := p), busy := b\<rparr>)"
  by (auto simp: wg_pcs_def)

lemma counts_cong:
  "wg_counts s \<Longrightarrow> total s' = total s \<Longrightarrow> clones s' = clones s \<Longrightarrow> live s' = live s \<Longrightarrow>
   drops s' = drops s \<Longrightarrow> wg_counts s'"
  by (simp add: wg_counts_def)

lemma chan_cong:
  "wg_chan C s \<Longrightarrow> queue s' = queue s \<Longrightarrow> drops s' = drops s \<Longrightarrow> taken s' = taken s \<Longrightarrow> wg_chan C s'"
  by (simp add: wg_chan_def)

lemma wg_inv_return:
  assumes "wg_inv C s"
  shows "wg_inv C (wg_return t s)"
  using assms pcs_move [where s = s and p = WgIdle and t = t] handles_return [of s t]
  by (simp add: wg_inv_def wg_return_def counts_cong [where s = s] chan_cong [where s = s])

lemma wg_inv_goto:
  assumes "wg_inv C s" "pc_ok (total s) (taken s) p" "on_handle p = on_handle (wg_pc s t)"
    "storing p \<Longrightarrow> (\<And>u w. storing (wg_pc (wg_goto t p s) u) \<Longrightarrow> storing (wg_pc (wg_goto t p s) w) \<Longrightarrow> u = w)"
  shows "wg_inv C (wg_goto t p s)"
proof -
  have "wg_pcs (wg_goto t p s)"
    unfolding wg_pcs_def
  proof (intro conjI allI impI)
    fix u
    show "pc_ok (total (wg_goto t p s)) (taken (wg_goto t p s)) (wg_pc (wg_goto t p s) u)"
      using assms(1,2) by (simp add: wg_inv_def wg_pcs_def wg_goto_def)
  next
    fix u w
    assume st: "storing (wg_pc (wg_goto t p s) u)" "storing (wg_pc (wg_goto t p s) w)"
    show "u = w"
    proof (cases "storing p")
      case True
      then show ?thesis using assms(4) st by blast
    next
      case False
      then have "storing (wg_pc s u)" "storing (wg_pc s w)"
        using st by (simp_all add: wg_goto_def split: if_splits)
      then show ?thesis using assms(1) unfolding wg_inv_def wg_pcs_def by blast
    qed
  qed
  moreover have "wg_handles (wg_goto t p s)"
    using assms(1,3) by (intro handles_goto) (simp_all add: wg_inv_def)
  moreover have "wg_counts (wg_goto t p s)" "wg_chan C (wg_goto t p s)"
    using assms(1) by (simp_all add: wg_inv_def wg_goto_def wg_counts_def wg_chan_def)
  ultimately show ?thesis by (simp add: wg_inv_def)
qed

lemma wg_inv_call:
  assumes "wg_inv C s" "wg_pc s t = WgIdle" "h \<in> set (live s)" "on_handle p = Some h"
    "pc_ok (total s) (taken s) p" "\<not> storing p"
  shows "wg_inv C (wg_call t h p s)"
  using assms(1) handles_call [OF _ assms(2-4)] pcs_move [OF _ assms(5,6)]
  by (simp add: wg_inv_def wg_call_def counts_cong [where s = s] chan_cong [where s = s])

lemma wg_inv_store:
  assumes "wg_inv C s" "wg_pc s t = AddStore h c v x" "clones s + 2 < 2 ^ 64"
  shows "wg_inv C (wg_return t (WaitGroup_clone (s\<lparr>total := x + v\<rparr>)))"
proof -
  have ok: "c" "v = 1" "x = total s"
    using assms(1,2) unfolding wg_inv_def wg_pcs_def by (metis pc_ok.simps(2))+
  have only: "\<not> storing (wg_pc s u)" if "u \<noteq> t" for u
    using assms(1,2) that unfolding wg_inv_def wg_pcs_def by (metis storing.simps(1))
  have others: "pc_ok (x + v) (taken s) (wg_pc s u)" if "u \<noteq> t" for u
    using assms(1) pc_ok_total [OF _ only [OF that]] unfolding wg_inv_def wg_pcs_def by blast
  have pcs: "wg_pcs (wg_return t (WaitGroup_clone (s\<lparr>total := x + v\<rparr>)))"
    using only others by (simp add: wg_pcs_def wg_return_def WaitGroup_clone_def)
  have "unat (total s + 1) = Suc (clones s)"
    using assms(1,3) by (simp add: wg_inv_def wg_counts_def unat_word_ariths)
  then have "wg_counts (wg_return t (WaitGroup_clone (s\<lparr>total := x + v\<rparr>)))"
    using assms(1,3) ok by (simp add: wg_inv_def wg_counts_def wg_return_def WaitGroup_clone_def)
  moreover have "wg_handles (wg_return t (WaitGroup_clone (s\<lparr>total := x + v\<rparr>)))"
    using assms(1) by (intro handles_return handles_clone) (simp add: wg_inv_def wg_handles_def)
  ultimately show ?thesis using pcs assms(1)
    by (auto simp: wg_inv_def intro: chan_cong [where s = s] simp: wg_return_def WaitGroup_clone_def)
qed

lemma wg_inv_got:
  assumes "wg_inv C s" "wg_pc s t = WaitRecv h x" "ch_pending C (queue s) = v # ch_pending C q"
  shows "wg_inv C (wg_goto t (WaitCheck h (x + v)) (s\<lparr>queue := q, taken := Suc (taken s)\<rparr>))"
proof -
  have v: "v = 1" using assms(1,3) by (simp add: wg_inv_def wg_chan_def)
  have "unat x \<le> taken s"
    using assms(1,2) unfolding wg_inv_def wg_pcs_def by (metis pc_ok.simps(3))
  then have x: "unat (x + v) \<le> Suc (taken s)" using unat_succ_le [of x] v by simp
  have "wg_inv C (s\<lparr>queue := q, taken := Suc (taken s)\<rparr>)"
    using assms(1,3) pc_ok_taken [of "total s" "taken s" _ "Suc (taken s)"]
    by (simp add: wg_inv_def wg_inv_defs)
  then show ?thesis using x assms(2) by (intro wg_inv_goto) simp_all
qed

lemma wg_inv_drop:
  assumes "chan_laws C" "wg_inv C s" "WaitGroup_drop C h s = Some s'"
  shows "wg_inv C s'"
proof -
  have s': "s' = s\<lparr>queue := ch_send C 1 (queue s), live := remove1 h (live s), drops := Suc (drops s)\<rparr>"
    and h: "h \<in> set (live s)" "h \<notin> snd ` set (busy s)"
    using assms(3) by (auto simp: WaitGroup_drop_def split: if_splits)
  have "(u, k) \<in> set (busy s) \<Longrightarrow> k \<noteq> h" for u k using h(2) by force
  then have "wg_handles s'" using assms(2) unfolding s' wg_inv_def wg_handles_def by auto
  moreover have "Suc (length (remove1 h (live s))) = length (live s)"
    using h(1) length_pos_if_in_set [OF h(1)] by (simp add: length_remove1)
  ultimately show ?thesis using assms(2) chan_send [OF assms(1)]
    by (auto simp: s' wg_inv_def wg_pcs_def wg_counts_def wg_chan_def)
qed

lemma storing_on_handle: "storing p \<Longrightarrow> \<exists>h. on_handle p = Some h"
  by (cases p) simp_all

lemma add_free_none:
  assumes "wg_handles s" "add_free s"
  shows "\<not> storing (wg_pc s u)"
proof
  assume st: "storing (wg_pc s u)"
  then obtain h where "on_handle (wg_pc s u) = Some h" using storing_on_handle by blast
  then have "(u, h) \<in> set (busy s)" using assms(1) by (simp add: wg_handles_def)
  then show False using assms(2) st by (auto simp: add_free_def list_all_iff)
qed

lemma wg_serial_inv:
  assumes "chan_laws C" "wg_serial C s"
  shows "wg_inv C s"
  using assms(2)
proof (induction rule: wg_serial.induct)
  case wg_serial_new
  show ?case by (rule wg_new_inv [OF assms(1)])
next
  case (wg_serial_step s t a s')
  note inv = wg_serial_step.IH
  have clones: "clones s' + 1 < 2 ^ 64" using wg_serial_step.hyps(4) by simp
  show ?case
  proof (cases a)
    case WgRun
    then have run: "wg_run C t s = Some s'" using wg_serial_step.hyps by simp
    show ?thesis
    proof (cases "wg_pc s t")
      case (AddLoad h c v)
      then have s': "s' = wg_goto t (AddStore h c v (total s)) s" using run by (simp add: wg_run_def)
      have cv: "c \<and> v = 1" using inv AddLoad unfolding wg_inv_def wg_pcs_def by (metis pc_ok.simps(1))
      have "add_free s" using wg_serial_step.hyps(3) WgRun AddLoad by simp
      then have none: "\<not> storing (wg_pc s u)" for u
        using inv add_free_none by (auto simp: wg_inv_def)
      show ?thesis unfolding s' using cv none AddLoad
        by (intro wg_inv_goto inv) (auto simp: wg_goto_def split: if_splits)
    next
      case (AddStore h c v x)
      then have "c" using inv unfolding wg_inv_def wg_pcs_def by (metis pc_ok.simps(2))
      then have s': "s' = wg_return t (WaitGroup_clone (s\<lparr>total := x + v\<rparr>))"
        using run AddStore by (simp add: wg_run_def)
      have "clones s + 2 < 2 ^ 64" using clones by (simp add: s' wg_return_def WaitGroup_clone_def)
      then show ?thesis unfolding s' by (rule wg_inv_store [OF inv AddStore])
    next
      case (WaitLoad h)
      then show ?thesis using run inv
        by (auto simp: wg_run_def split: if_splits intro: wg_inv_return wg_inv_goto)
    next
      case (WaitRecv h x)
      show ?thesis
      proof (cases rule: chan_recv [OF assms(1), of "queue s" "live s \<noteq> []"])
        case 1
        then show ?thesis using run inv WaitRecv
          by (auto simp: wg_run_def split: if_splits intro: wg_inv_return)
      next
        case (2 v q)
        then show ?thesis using run wg_inv_got [OF inv WaitRecv 2(1)] WaitRecv by (simp add: wg_run_def)
      qed
    next
      case (WaitCheck h x)
      moreover have "unat x \<le> taken s"
        using inv WaitCheck unfolding wg_inv_def wg_pcs_def by (metis pc_ok.simps(4))
      ultimately show ?thesis using run inv
        by (auto simp: wg_run_def split: if_splits intro!: wg_inv_return wg_inv_goto)
    qed (use run in \<open>simp add: wg_run_def\<close>)
  next
    case (WgClone h)
    then show ?thesis using wg_serial_step.hyps(2) inv
      by (auto split: if_splits intro!: wg_inv_call)
  next
    case (WgAdd h v)
    then show ?thesis using wg_serial_step.hyps(3) by simp
  next
    case (WgWait h)
    then show ?thesis using wg_serial_step.hyps(2) inv
      by (auto split: if_splits intro!: wg_inv_call)
  next
    case (WgDrop h)
    then show ?thesis using wg_serial_step.hyps(2) inv wg_inv_drop [OF assms(1)]
      by (auto split: if_splits)
  qed
qed

section \<open>Correctness\<close>

fun waiting :: "wg_pc \<Rightarrow> bool" where
  "waiting (WaitLoad h) = True"
| "waiting (WaitRecv h x) = True"
| "waiting (WaitCheck h x) = True"
| "waiting _ = False"

text \<open>
  Property C21.  \<open>wait\<close> returns only when the group is done: in a run in which handles come from
  \<open>clone\<close> only (no call of \<open>add\<close> from outside) and clones do not overlap, at the moment at which a
  \<open>wait\<close> on handle \<open>h\<close> returns, every other handle has been dropped.
\<close>

theorem wait_returns_alone:
  assumes "chan_laws C" and "wg_serial C s" and "waiting (wg_pc s t)"
    and "on_handle (wg_pc s t) = Some h" and "wg_perform C t WgRun s = Some s'"
    and "wg_pc s' t = WgIdle"
  shows "live s' = [h]"
proof -
  have inv: "wg_inv C s" by (rule wg_serial_inv [OF assms(1,2)])
  then have h: "h \<in> set (live s)" using assms(4) unfolding wg_inv_def wg_handles_def by blast
  have counts: "unat (total s) = clones s" "length (live s) + drops s = clones s + 1"
    "drops s = taken s + length (ch_pending C (queue s))"
    using inv by (simp_all add: wg_inv_def wg_counts_def wg_chan_def)
  have alone: "live s = [h]" if "clones s \<le> taken s"
    using h counts that by (cases "live s" rule: remdups_adj.cases) auto
  have "live s' = live s" using assms(3,5)
    by (cases "wg_pc s t") (auto simp: wg_run_def wg_actions split: if_splits received.splits)
  moreover have "clones s \<le> taken s"
  proof (cases "wg_pc s t")
    case (WaitLoad k)
    then have "total s = 0" using assms(5,6) by (auto simp: wg_run_def wg_goto_def split: if_splits)
    then show ?thesis using counts(1) by simp
  next
    case (WaitRecv k x)
    have opn: "live s \<noteq> []" using h by auto
    show ?thesis
      by (cases rule: chan_recv [OF assms(1), of "queue s" "live s \<noteq> []"])
        (use assms(5,6) WaitRecv opn in \<open>auto simp: wg_run_def wg_goto_def\<close>)
  next
    case (WaitCheck k x)
    then have "total s \<le> x" using assms(5,6) by (auto simp: wg_run_def wg_goto_def split: if_splits)
    moreover have "unat x \<le> taken s"
      using inv WaitCheck unfolding wg_inv_def wg_pcs_def by (metis pc_ok.simps(4))
    ultimately show ?thesis using counts(1) by (simp add: word_le_nat_alt)
  qed (use assms(3) in simp_all)
  ultimately show ?thesis using alone by simp
qed

text \<open>A thread that runs on its own for at most \<open>n\<close> actions.\<close>

fun wg_alone :: "'q chan_ops \<Rightarrow> tid \<Rightarrow> nat \<Rightarrow> 'q wg \<Rightarrow> 'q wg" where
  "wg_alone C t 0 s = s"
| "wg_alone C t (Suc n) s = (case wg_run C t s of None \<Rightarrow> s | Some s' \<Rightarrow> wg_alone C t n s')"

lemma wg_alone_receives:
  assumes "chan_laws C" "wg_pc s t = WaitRecv h x" "\<forall>v \<in> set (ch_pending C (queue s)). v = 1"
    "unat x + length (ch_pending C (queue s)) = unat (total s)" "ch_pending C (queue s) \<noteq> []"
  shows "\<exists>q. wg_alone C t (2 * length (ch_pending C (queue s))) s =
    wg_return t (s\<lparr>queue := q, taken := taken s + length (ch_pending C (queue s)),
      wg_pc := (wg_pc s)(t := WaitCheck h (total s))\<rparr>) \<and> ch_pending C q = []"
  using assms(2-)
proof (induction "length (ch_pending C (queue s))" arbitrary: s x)
  case (Suc k)
  obtain q where q: "ch_pending C (queue s) = 1 # ch_pending C q"
    "ch_recv C (live s \<noteq> []) (queue s) = Got 1 q"
    using chan_recv [OF assms(1), of "queue s" "live s \<noteq> []"] Suc.prems(2,4) by (metis list.set_intros(1))
  let ?s = "wg_goto t (WaitCheck h (x + 1)) (s\<lparr>queue := q, taken := Suc (taken s)\<rparr>)"
  have run: "wg_run C t s = Some ?s" using q(2) Suc.prems(1) by (simp add: wg_run_def)
  have lt: "Suc (unat x) \<le> unat (total s)" using Suc.prems(3) q(1) by simp
  then have x1: "unat (x + 1) = Suc (unat x)"
    using unsigned_less [of "total s", where ?'a = nat] by (simp add: unat_word_ariths)
  show ?case
  proof (cases "ch_pending C q = []")
    case True
    then have "unat (x + 1) = unat (total s)" using Suc.prems(3) q(1) x1 by simp
    then have "x + 1 = total s" by (simp add: word_unat_eq_iff)
    then show ?thesis using run q True
      by (intro exI [of _ q]) (simp add: numeral_2_eq_2 wg_run_def wg_actions)
  next
    case False
    let ?r = "wg_goto t (WaitRecv h (x + 1)) ?s"
    have "unat (x + 1) < unat (total s)" using Suc.prems(3) q(1) x1 False by (cases "ch_pending C q") auto
    then have less: "\<not> total s \<le> x + 1" by (simp add: word_le_nat_alt)
    have k: "k = length (ch_pending C (queue ?r))" using Suc(2) q(1) by (simp add: wg_goto_def)
    have steps: "wg_alone C t (2 * length (ch_pending C (queue s))) s =
        wg_alone C t (2 * length (ch_pending C (queue ?r))) ?r"
      using run less q(1) by (simp add: wg_run_def wg_goto_def)
    show ?thesis unfolding steps
      using Suc.hyps(1) [OF k, of "x + 1"] Suc.prems(2,3) q(1) x1 False
      by (auto simp: wg_goto_def wg_return_def)
  qed
qed simp

text \<open>
  Property C22.  \<open>wait\<close> terminates: in a run in which handles come from \<open>clone\<close> only (no call of
  \<open>add\<close> from outside, which counts a message that nobody sends), clones do not overlap and are
  fewer than \<open>2 ^ 64 - 1\<close>, a \<open>wait\<close> that is called when every other handle has been dropped and
  nobody has received yet returns within two actions for each clone and one more.
\<close>

theorem wait_terminates:
  assumes "chan_laws C" and "wg_serial C s" and "wg_pc s t = WgIdle" and "live s = [h]" and "taken s = 0"
    and "wg_perform C t (WgWait h) s = Some s1"
  shows "wg_pc (wg_alone C t (2 * clones s + 1) s1) t = WgIdle"
proof -
  have inv: "wg_inv C s" by (rule wg_serial_inv [OF assms(1,2)])
  then have counts: "unat (total s) = clones s" "length (ch_pending C (queue s)) = clones s"
    "\<forall>v \<in> set (ch_pending C (queue s)). v = 1"
    using assms(4,5) by (simp_all add: wg_inv_def wg_counts_def wg_chan_def)
  have s1: "s1 = wg_call t h (WaitLoad h) s" using assms(3,4,6) by simp
  show ?thesis
  proof (cases "total s = 0")
    case True
    have idle: "wg_alone C t n x = x" if "wg_pc x t = WgIdle" for n x
      using that by (cases n) (simp_all add: wg_run_def)
    have "wg_alone C t (2 * clones s + 1) s1 = wg_return t s1"
      using True s1 idle [of "wg_return t s1"] by (simp add: wg_run_def wg_actions)
    then show ?thesis by (simp add: wg_return_def)
  next
    case False
    let ?r = "wg_goto t (WaitRecv h 0) s1"
    have "clones s \<noteq> 0" using False counts(1) by (metis unat_eq_zero)
    then have ne: "ch_pending C (queue ?r) \<noteq> []" using counts(2) by (auto simp: s1 wg_actions)
    have "wg_alone C t (2 * clones s + 1) s1 = wg_alone C t (2 * length (ch_pending C (queue ?r))) ?r"
      using False counts(2) by (simp add: s1 wg_run_def wg_actions)
    moreover have "\<exists>q. wg_alone C t (2 * length (ch_pending C (queue ?r))) ?r =
        wg_return t (?r\<lparr>queue := q, taken := taken ?r + length (ch_pending C (queue ?r)),
          wg_pc := (wg_pc ?r)(t := WaitCheck h (total ?r))\<rparr>) \<and> ch_pending C q = []"
      using counts ne by (intro wg_alone_receives [OF assms(1), where x = 0 and h = h]) (simp_all add: s1 wg_actions)
    ultimately show ?thesis by (auto simp: wg_return_def)
  qed
qed

text \<open>
  Property C24.  A group is spent after one \<open>wait\<close>: when all messages have been received and every
  other handle is dropped, a further \<open>wait\<close> never returns on its own, however long it runs, if there
  ever was a clone; if there was none, it returns at once.  (In runs without overlapping clones and
  without \<open>add\<close> from outside.)
\<close>

theorem second_wait_blocks:
  assumes "chan_laws C" and "wg_serial C s" and "wg_pc s t = WgIdle" and "live s = [h]"
    and "taken s = clones s" and "wg_perform C t (WgWait h) s = Some s1"
  shows "if clones s = 0 then wg_pc (wg_alone C t 1 s1) t = WgIdle
    else \<forall>n. wg_pc (wg_alone C t n s1) t \<in> {WaitLoad h, WaitRecv h 0}"
proof -
  have inv: "wg_inv C s" by (rule wg_serial_inv [OF assms(1,2)])
  then have counts: "unat (total s) = clones s" "ch_pending C (queue s) = []"
    using assms(4,5) by (auto simp: wg_inv_def wg_counts_def wg_chan_def)
  have total: "total s = 0 \<longleftrightarrow> clones s = 0" using counts(1) by (metis unat_eq_zero)
  have s1: "s1 = wg_call t h (WaitLoad h) s" using assms(3,4,6) by simp
  have empty: "ch_recv C True (queue s) = Empty"
    using chan_recv [OF assms(1), of "queue s" True] counts(2) by auto
  have stuck: "wg_alone C t n (wg_goto t (WaitRecv h 0) s1) = wg_goto t (WaitRecv h 0) s1" for n
    using empty assms(4) by (cases n) (simp_all add: s1 wg_run_def wg_actions)
  have "wg_pc (wg_alone C t 1 s1) t = WgIdle" if "clones s = 0"
    using total that by (simp add: s1 wg_run_def wg_actions)
  moreover have "wg_pc (wg_alone C t n s1) t \<in> {WaitLoad h, WaitRecv h 0}" if "clones s \<noteq> 0" for n
  proof (cases n)
    case 0
    then show ?thesis by (simp add: s1 wg_call_def)
  next
    case (Suc k)
    then have "wg_alone C t n s1 = wg_alone C t k (wg_goto t (WaitRecv h 0) s1)"
      using total that by (simp add: s1 wg_run_def wg_actions)
    then show ?thesis by (simp add: stuck) (simp add: wg_goto_def)
  qed
  ultimately show ?thesis by simp
qed

section \<open>Instances\<close>

text \<open>A concrete channel that behaves as documented: the list of its messages.\<close>

definition list_chan :: "u64 list chan_ops" where
  "list_chan = \<lparr>ch_new = [], ch_send = (\<lambda>v q. q @ [v]),
     ch_recv = (\<lambda>open q. case q of [] \<Rightarrow> (if open then Empty else Disconnected) | v # q' \<Rightarrow> Got v q'),
     ch_pending = (\<lambda>q. q)\<rparr>"

lemma list_chan_laws: "chan_laws list_chan"
  by (simp add: chan_laws_def list_chan_def)

text \<open>
  Property C23.  \<open>add\<close> loses updates: two threads that clone the same handle at the same time
  count one clone, and a \<open>wait\<close> returns while a clone is still alive.
\<close>

theorem overlapping_clones_lose_updates:
  "\<exists>s. wg_reach list_chan s \<and> clones s = 2 \<and> total s = 1 \<and> wg_pc s 0 = WaitCheck 0 1 \<and>
    (\<exists>s'. wg_perform list_chan 0 WgRun s = Some s' \<and> wg_pc s' 0 = WgIdle \<and> live s' = [2, 0])"
  by (rule wg_reach_by_schedule [where as = "[(1, WgClone 0), (2, WgClone 0), (1, WgRun), (2, WgRun),
      (1, WgRun), (2, WgRun), (1, WgDrop 1), (0, WgWait 0), (0, WgRun), (0, WgRun)]"])
    (simp add: wg_run_def wg_actions WaitGroup_new_def list_chan_def)

text \<open>
  Two threads that wait on the same handle split its messages: all other handles
  are dropped, one \<open>wait\<close> has returned, and the other has nothing left to receive.
\<close>

theorem waiters_split_messages:
  "\<exists>s. wg_serial list_chan s \<and> live s = [0] \<and> wg_pc s 0 = WgIdle \<and> wg_pc s 1 = WaitRecv 0 0 \<and>
    wg_perform list_chan 1 WgRun s = None"
  by (rule serial_by_schedule [where as = "[(0, WgClone 0), (0, WgRun), (0, WgRun), (0, WgWait 0),
      (1, WgWait 0), (0, WgRun), (1, WgRun), (2, WgDrop 1), (0, WgRun), (0, WgRun)]"])
    (simp add: wg_run_def wg_actions WaitGroup_new_def list_chan_def add_free_def)

lemma wg_done: "\<exists>s. wg_serial list_chan s \<and> wg_pc s 0 = WgIdle \<and> live s = [0] \<and> taken s = 0 \<and> clones s = 1"
  by (rule serial_by_schedule [where as = "[(0, WgClone 0), (0, WgRun), (0, WgRun), (1, WgDrop 1)]"])
    (simp add: wg_run_def wg_actions WaitGroup_new_def list_chan_def add_free_def)

lemma wg_spent: "\<exists>s. wg_serial list_chan s \<and> wg_pc s 0 = WgIdle \<and> live s = [0] \<and> taken s = 1 \<and> clones s = 1"
  by (rule serial_by_schedule [where as = "[(0, WgClone 0), (0, WgRun), (0, WgRun), (1, WgDrop 1),
      (0, WgWait 0), (0, WgRun), (0, WgRun), (0, WgRun)]"])
    (simp add: wg_run_def wg_actions WaitGroup_new_def list_chan_def add_free_def)

lemma wg_checking: "\<exists>s. wg_serial list_chan s \<and> wg_pc s 0 = WaitCheck 0 1 \<and> total s = 1"
  by (rule serial_by_schedule [where as = "[(0, WgClone 0), (0, WgRun), (0, WgRun), (1, WgDrop 1),
      (0, WgWait 0), (0, WgRun), (0, WgRun)]"])
    (simp add: wg_run_def wg_actions WaitGroup_new_def list_chan_def add_free_def)

theorem wait_returns_alone_witness:
  "\<exists>s s'. wg_serial list_chan s \<and> wg_perform list_chan 0 WgRun s = Some s' \<and> live s' = [0]"
proof -
  obtain s where s: "wg_serial list_chan s" "wg_pc s 0 = WaitCheck 0 1" "total s = 1"
    using wg_checking by blast
  have run: "wg_perform list_chan 0 WgRun s = Some (wg_return 0 s)" using s by (simp add: wg_run_def)
  have "live (wg_return 0 s) = [0]"
    by (rule wait_returns_alone [OF list_chan_laws s(1) _ _ run]) (simp_all add: s wg_return_def)
  then show ?thesis using s(1) run by blast
qed

theorem wait_terminates_witness:
  "\<exists>s s1. wg_perform list_chan 0 (WgWait 0) s = Some s1 \<and> clones s = 1 \<and>
    wg_pc (wg_alone list_chan 0 3 s1) 0 = WgIdle"
proof -
  obtain s where s: "wg_serial list_chan s" "wg_pc s 0 = WgIdle" "live s = [0]" "taken s = 0" "clones s = 1"
    using wg_done by blast
  then have call: "wg_perform list_chan 0 (WgWait 0) s = Some (wg_call 0 0 (WaitLoad 0) s)" by simp
  have "wg_pc (wg_alone list_chan 0 3 (wg_call 0 0 (WaitLoad 0) s)) 0 = WgIdle"
    using wait_terminates [OF list_chan_laws s(1-4) call] s(5) by simp
  then show ?thesis using call s(5) by blast
qed

theorem second_wait_blocks_witness:
  "\<exists>s s1. wg_perform list_chan 0 (WgWait 0) s = Some s1 \<and>
    wg_pc (wg_alone list_chan 0 1000 s1) 0 \<in> {WaitLoad 0, WaitRecv 0 0}"
proof -
  obtain s where s: "wg_serial list_chan s" "wg_pc s 0 = WgIdle" "live s = [0]" "taken s = 1" "clones s = 1"
    using wg_spent by blast
  then have call: "wg_perform list_chan 0 (WgWait 0) s = Some (wg_call 0 0 (WaitLoad 0) s)" by simp
  have "taken s = clones s" using s(4,5) by simp
  from second_wait_blocks [OF list_chan_laws s(1-3) this call] s(5)
  have "wg_pc (wg_alone list_chan 0 1000 (wg_call 0 0 (WaitLoad 0) s)) 0 \<in> {WaitLoad 0, WaitRecv 0 0}"
    by presburger
  then show ?thesis using call by blast
qed

end
