(* ===== verification/Atomic_Duration.thy ===== *)
theory Atomic_Duration
  imports Prelude
begin

text \<open>
  \<open>AtomicDuration\<close> (\<open>src/src/sync/duration.rs\<close>): an optional duration kept as a number of
  milliseconds in an \<open>AtomicUsize\<close>, with 0 for none.  The width of \<open>usize\<close> is a type variable:
  the theorems state for which targets they hold.
\<close>

section \<open>Durations\<close>

text \<open>\<open>std::time::Duration\<close>: seconds, and nanoseconds below one second.\<close>

record duration =
  secs :: u64
  nanos :: u32

definition valid_duration :: "duration \<Rightarrow> bool" where
  "valid_duration d \<longleftrightarrow> unat (nanos d) < 10 ^ 9"

text \<open>The length of a duration in nanoseconds.\<close>

definition in_nanos :: "duration \<Rightarrow> nat" where
  "in_nanos d = unat (secs d) * 10 ^ 9 + unat (nanos d)"

definition from_millis :: "u64 \<Rightarrow> duration" where
  "from_millis ms = \<lparr>secs = ms div 1000, nanos = ucast (ms mod 1000) * 1000000\<rparr>"

definition saturating_mul :: "u64 \<Rightarrow> u64 \<Rightarrow> u64" where
  "saturating_mul a b = (if unat a * unat b < 2 ^ 64 then a * b else - 1)"

definition saturating_add :: "u64 \<Rightarrow> u64 \<Rightarrow> u64" where
  "saturating_add a b = (if unat a + unat b < 2 ^ 64 then a + b else - 1)"

section \<open>The code\<close>

definition dur_to_ms :: "duration \<Rightarrow> u64" where
  "dur_to_ms dur =
     (let ns = ucast (nanos dur) :: u64;
          ms = (ns + 1000000 - 1) div 1000000
      in saturating_add (saturating_mul (secs dur) 1000) ms)"

definition AtomicDuration_new :: "duration option \<Rightarrow> 'w :: len word" where
  "AtomicDuration_new dur = (case dur of None \<Rightarrow> 0 | Some d \<Rightarrow> ucast (dur_to_ms d))"

definition AtomicDuration_get :: "'w :: len word \<Rightarrow> duration option" where
  "AtomicDuration_get x = (if x = 0 then None else Some (from_millis (ucast x)))"

text \<open>\<open>store\<close> gives the new value of the cell, \<open>take\<close> (a \<open>swap\<close>) the result and the new value.\<close>

definition AtomicDuration_store :: "duration option \<Rightarrow> 'w :: len word \<Rightarrow> 'w word" where
  "AtomicDuration_store dur x = (case dur of None \<Rightarrow> 0 | Some d \<Rightarrow> ucast (dur_to_ms d))"

definition AtomicDuration_take :: "'w :: len word \<Rightarrow> duration option \<times> 'w word" where
  "AtomicDuration_take x = (if x = 0 then None else Some (from_millis (ucast x)), 0)"

definition AtomicDuration_into_inner :: "'w :: len word \<Rightarrow> duration option" where
  "AtomicDuration_into_inner x = fst (AtomicDuration_take x)"

section \<open>Arithmetic\<close>

lemma unat_saturating_mul: "unat (saturating_mul a b) = min (unat a * unat b) (2 ^ 64 - 1)"
  by (auto simp: saturating_mul_def unat_word_ariths min_def unsigned_minus_1_eq_mask mask_eq_exp_minus_1)

lemma unat_saturating_add: "unat (saturating_add a b) = min (unat a + unat b) (2 ^ 64 - 1)"
  by (auto simp: saturating_add_def unat_word_ariths min_def unsigned_minus_1_eq_mask mask_eq_exp_minus_1)

text \<open>The number of milliseconds that cover the nanoseconds, rounded up.\<close>

lemma unat_ceil_ms:
  assumes "unat (n :: u32) < 10 ^ 9"
  shows "unat ((ucast n + 1000000 - 1 :: u64) div 1000000) = (unat n + 999999) div 1000000"
proof -
  have "unat (ucast n :: u64) = unat n" 
    using unsigned_less [of n, where ?'a = nat] by (simp add: unsigned_ucast_eq take_bit_nat_eq_self)
  moreover have "(ucast n + 1000000 - 1 :: u64) = ucast n + 999999" by simp
  ultimately show ?thesis using assms by (simp add: unat_div unat_word_ariths)
qed

lemma unat_dur_to_ms:
  assumes "valid_duration d"
  shows "unat (dur_to_ms d) =
    min (unat (secs d) * 1000 + (unat (nanos d) + 999999) div 1000000) (2 ^ 64 - 1)"
  using assms unat_ceil_ms [of "nanos d"]
  by (simp add: dur_to_ms_def Let_def unat_saturating_add unat_saturating_mul valid_duration_def)

lemma in_nanos_from_millis: "in_nanos (from_millis ms) = unat ms * 1000000"
  and valid_from_millis: "valid_duration (from_millis ms)"
proof -
  have "unat (ms mod 1000) < 1000" by (simp add: unat_mod)
  moreover have "unat (ucast (ms mod 1000) :: u32) = unat (ms mod 1000)"
    using calculation by (simp add: unsigned_ucast_eq take_bit_nat_eq_self)
  ultimately have n: "unat (nanos (from_millis ms)) = unat ms mod 1000 * 1000000"
    by (simp add: from_millis_def unat_word_ariths unat_mod)
  have s: "unat (secs (from_millis ms)) = unat ms div 1000" by (simp add: from_millis_def unat_div)
  have seconds: "(a * 1000 + b) * 1000000 = a * 10 ^ 9 + b * 1000000" for a b :: nat by simp
  show "in_nanos (from_millis ms) = unat ms * 1000000"
    using seconds [of "unat ms div 1000" "unat ms mod 1000"] unfolding in_nanos_def n s div_mult_mod_eq by simp
  show "valid_duration (from_millis ms)" using n by (simp add: valid_duration_def)
qed

lemma dur_to_ms_value:
  assumes "valid_duration d"
  shows "unat (dur_to_ms d) = min ((in_nanos d + 999999) div 1000000) (2 ^ 64 - 1)"
proof -
  have "in_nanos d + 999999 = unat (nanos d) + 999999 + unat (secs d) * 1000 * 1000000"
    by (simp add: in_nanos_def)
  then have "(in_nanos d + 999999) div 1000000 =
      unat (secs d) * 1000 + (unat (nanos d) + 999999) div 1000000"
    using div_mult_self3 [of 1000000 "unat (nanos d) + 999999" "unat (secs d) * 1000"] by simp
  then show ?thesis using unat_dur_to_ms [OF assms] by simp
qed

text \<open>On a 64-bit target the cast keeps the value.\<close>

lemma get_store_usize:
  "AtomicDuration_get (AtomicDuration_store (Some d) x :: usize) =
    (if dur_to_ms d = 0 then None else Some (from_millis (dur_to_ms d)))"
  by (simp add: AtomicDuration_get_def AtomicDuration_store_def)

section \<open>Correctness\<close>

text \<open>
  \<open>dur_to_ms\<close> rounds up to whole milliseconds and saturates: its value is the least
  number of milliseconds that cover the duration, or \<open>2 ^ 64 - 1\<close> when that does not fit.
\<close>

theorem dur_to_ms_ceiling:
  assumes "valid_duration d"
  shows "unat (dur_to_ms d) = min ((in_nanos d + 999999) div 1000000) (2 ^ 64 - 1)"
  using assms by (rule dur_to_ms_value)

text \<open>
  Property C39.  On a 64-bit target \<open>get\<close> reads a stored duration back as none if and only if it was
  none or zero, and otherwise rounded up to the next whole millisecond: not shorter, and longer by
  less than one millisecond.  A duration of more than \<open>2 ^ 64 - 1\<close> milliseconds is read back as that
  many milliseconds.
\<close>

theorem store_get_rounds_up:
  fixes x :: usize
  assumes "valid_duration d"
  shows "AtomicDuration_get (AtomicDuration_store None x) = None \<and>
    (case AtomicDuration_get (AtomicDuration_store (Some d) x) of
      None \<Rightarrow> in_nanos d = 0
    | Some d' \<Rightarrow> in_nanos d \<noteq> 0 \<and> valid_duration d' \<and>
        (if in_nanos d \<le> (2 ^ 64 - 1) * 1000000
         then in_nanos d \<le> in_nanos d' \<and> in_nanos d' < in_nanos d + 1000000
         else in_nanos d' = (2 ^ 64 - 1) * 1000000))"
proof -
  let ?q = "(in_nanos d + 999999) div 1000000"
  have ms: "unat (dur_to_ms d) = min ?q (2 ^ 64 - 1)" by (rule dur_to_ms_value [OF assms])
  have "?q * 1000000 + (in_nanos d + 999999) mod 1000000 = in_nanos d + 999999"
    "(in_nanos d + 999999) mod 1000000 < 1000000" by (rule div_mult_mod_eq) simp
  then have q: "in_nanos d \<le> ?q * 1000000" "?q * 1000000 < in_nanos d + 1000000" by linarith+
  have fits: "?q \<le> 2 ^ 64 - 1 \<longleftrightarrow> in_nanos d \<le> (2 ^ 64 - 1) * 1000000" using q by linarith
  have zero: "dur_to_ms d = 0 \<longleftrightarrow> in_nanos d = 0"
  proof -
    have "dur_to_ms d = 0 \<longleftrightarrow> min ?q (2 ^ 64 - 1) = 0" unfolding ms [symmetric] by (simp add: unat_eq_zero)
    then have "dur_to_ms d = 0 \<longleftrightarrow> ?q = 0" by (auto simp: min_def split: if_splits)
    then show ?thesis using q by (cases "in_nanos d") auto
  qed
  have "in_nanos (from_millis (dur_to_ms d)) =
      (if in_nanos d \<le> (2 ^ 64 - 1) * 1000000 then ?q * 1000000 else (2 ^ 64 - 1) * 1000000)"
    unfolding in_nanos_from_millis ms fits [symmetric] by (simp add: min_def)
  then show ?thesis using q zero
    by (simp add: get_store_usize valid_from_millis AtomicDuration_get_def AtomicDuration_store_def)
qed

text \<open>
  On a 64-bit target a whole, non-zero number of milliseconds survives exactly:
  \<open>new\<close>, \<open>store\<close>, \<open>get\<close>, \<open>take\<close> and \<open>into_inner\<close> agree on it.
\<close>

theorem whole_millis_roundtrip:
  fixes x :: usize
  assumes "ms \<noteq> 0"
  shows "AtomicDuration_get (AtomicDuration_store (Some (from_millis ms)) x) = Some (from_millis ms) \<and>
    AtomicDuration_into_inner (AtomicDuration_new (Some (from_millis ms)) :: usize) = Some (from_millis ms) \<and>
    AtomicDuration_take (AtomicDuration_store (Some (from_millis ms)) x) = (Some (from_millis ms), 0)"
proof -
  have "unat (dur_to_ms (from_millis ms)) = unat ms"
    using dur_to_ms_value [OF valid_from_millis] unsigned_less [of ms, where ?'a = nat]
    by (simp add: in_nanos_from_millis)
  then have "dur_to_ms (from_millis ms) = ms" by (simp add: word_unat_eq_iff)
  then show ?thesis using assms
    by (simp add: AtomicDuration_get_def AtomicDuration_store_def AtomicDuration_new_def
        AtomicDuration_take_def AtomicDuration_into_inner_def)
qed

text \<open>Takes by several threads: \<open>swap\<close> is one atomic action, so they happen in some order.\<close>

fun takes :: "nat \<Rightarrow> 'w :: len word \<Rightarrow> duration option list" where
  "takes 0 x = []"
| "takes (Suc n) x = (let (r, x') = AtomicDuration_take x in r # takes n x')"

lemma takes_zero: "takes n (0 :: 'w :: len word) = replicate n None"
  by (induction n) (simp_all add: AtomicDuration_take_def)

text \<open>
  A stored duration is taken once: of any number of takes that follow a store, the
  first gets what \<open>get\<close> would have given and all others get none.
\<close>

theorem taken_once:
  "takes (Suc n) (AtomicDuration_store dur x :: 'w :: len word) =
    AtomicDuration_get (AtomicDuration_store dur x :: 'w word) # replicate n None"
  by (simp add: AtomicDuration_take_def AtomicDuration_get_def takes_zero)

text \<open>
  On a 32-bit target the cast truncates: a valid duration of \<open>2 ^ 32\<close> ms (under 50
  days) is stored as none.
\<close>

theorem store_truncates_on_32_bit:
  "valid_duration \<lparr>secs = 4294967, nanos = 296000000\<rparr> \<and>
    AtomicDuration_get (AtomicDuration_store (Some \<lparr>secs = 4294967, nanos = 296000000\<rparr>) x :: 32 word) = None"
  by (simp add: valid_duration_def AtomicDuration_get_def AtomicDuration_store_def dur_to_ms_def
      saturating_add_def saturating_mul_def Let_def)

section \<open>Instances\<close>

theorem dur_to_ms_ceiling_witness:
  "unat (dur_to_ms \<lparr>secs = 2, nanos = 1\<rparr>) = 2001"
  using dur_to_ms_ceiling [of "\<lparr>secs = 2, nanos = 1\<rparr>"] by (simp add: valid_duration_def in_nanos_def)

theorem store_get_rounds_up_witness:
  "AtomicDuration_get (AtomicDuration_store (Some \<lparr>secs = 0, nanos = 1\<rparr>) 0 :: usize) \<noteq> None"
  using store_get_rounds_up [of "\<lparr>secs = 0, nanos = 1\<rparr>" 0]
  by (auto simp: valid_duration_def in_nanos_def split: option.splits)

theorem whole_millis_roundtrip_witness:
  "AtomicDuration_get (AtomicDuration_store (Some (from_millis 1500)) 7 :: usize) = Some (from_millis 1500)"
  using whole_millis_roundtrip [of 1500 7] by simp

end
