(* ===== verification/Defer_Guard.thy ===== *)
theory Defer_Guard
  imports Prelude
begin

text \<open>
  \<open>defer\<close> (\<open>src/src/defer/mod.rs\<close>): a guard with a closure that runs when the guard is dropped,
  and the scopes in which the macro \<open>defer!\<close> declares guards.  Code is a function from states to
  states that also says whether it panics.
\<close>

section \<open>The guard\<close>

type_synonym 's code = "'s \<Rightarrow> 's \<times> bool"

text \<open>\<open>struct Guard<F>(pub Option<F>)\<close>.\<close>

type_synonym 's guard = "'s code option"

text \<open>\<open>Guard::drop\<close>: takes the closure out of the guard, then calls it.\<close>

definition Guard_drop :: "'s guard \<Rightarrow> 's \<Rightarrow> 's guard \<times> 's \<times> bool" where
  "Guard_drop g s = (case g of None \<Rightarrow> (None, s, False) | Some f \<Rightarrow> (None, f s))"

text \<open>
  The arms of the macro: a block becomes a closure with that body, an expression is the closure,
  a sequence of expressions becomes a closure that evaluates them one after the other.
\<close>

datatype 's defer_arg = Block "'s code" | Closure "'s code" | Sequence "'s code list"

fun run_sequence :: "'s code list \<Rightarrow> 's code" where
  "run_sequence [] s = (s, False)"
| "run_sequence (f # fs) s = (let (s', p) = f s in if p then (s', True) else run_sequence fs s')"

fun defer_macro :: "'s defer_arg \<Rightarrow> 's guard" where
  "defer_macro (Block f) = Some f"
| "defer_macro (Closure f) = Some f"
| "defer_macro (Sequence fs) = Some (run_sequence fs)"

section \<open>Scopes\<close>

text \<open>
  A scope: statements and uses of \<open>defer!\<close>.  A statement goes on to the next one, leaves the
  scope early (\<open>return\<close>, \<open>break\<close>, \<open>?\<close>) or panics.  At the end of the scope, and when it is left
  in either way, the guards declared so far are dropped, the newest first; a guard that panics
  does not keep the others from being dropped, and a second panic while the first one unwinds
  aborts the process.
\<close>

datatype ending = Goes_on | Leaves | Panics

datatype 's stmt = Stmt "'s \<Rightarrow> 's \<times> ending" | Defer "'s defer_arg"

datatype flow = Normal | Unwinding | Aborted

fun drop_guards :: "'s guard list \<Rightarrow> flow \<Rightarrow> 's \<Rightarrow> 's \<times> flow" where
  "drop_guards [] fl s = (s, fl)"
| "drop_guards (g # gs) fl s =
     (let (g', s', p) = Guard_drop g s in
      if p then (if fl = Normal then drop_guards gs Unwinding s' else (s', Aborted))
      else drop_guards gs fl s')"

fun run_scope :: "'s stmt list \<Rightarrow> 's guard list \<Rightarrow> 's \<Rightarrow> 's \<times> flow" where
  "run_scope [] gs s = drop_guards gs Normal s"
| "run_scope (Stmt f # ss) gs s =
     (let (s', e) = f s in
      case e of
        Goes_on \<Rightarrow> run_scope ss gs s'
      | Leaves \<Rightarrow> drop_guards gs Normal s'
      | Panics \<Rightarrow> drop_guards gs Unwinding s')"
| "run_scope (Defer a # ss) gs s = run_scope ss (defer_macro a # gs) s"

text \<open>
  The statements of the scope alone: the state in which they end, the deferred code that was
  declared on the way (in the order of the declarations), and how they ended.
\<close>

fun defer_code :: "'s defer_arg \<Rightarrow> 's code" where
  "defer_code (Block f) = f"
| "defer_code (Closure f) = f"
| "defer_code (Sequence fs) = run_sequence fs"

fun run_body :: "'s stmt list \<Rightarrow> 's \<Rightarrow> 's \<times> 's code list \<times> ending" where
  "run_body [] s = (s, [], Goes_on)"
| "run_body (Stmt f # ss) s =
     (let (s', e) = f s in if e = Goes_on then run_body ss s' else (s', [], e))"
| "run_body (Defer a # ss) s = (let (s', fs, e) = run_body ss s in (s', defer_code a # fs, e))"

definition flow_of :: "ending \<Rightarrow> flow" where
  "flow_of e = (if e = Panics then Unwinding else Normal)"

section \<open>Correctness\<close>

lemma defer_macro_Some: "defer_macro a = Some (defer_code a)"
  by (cases a) simp_all

text \<open>Deferred code that does not panic.\<close>

definition smooth :: "'s code \<Rightarrow> bool" where
  "smooth f \<longleftrightarrow> (\<forall>s. \<not> snd (f s))"

lemma drop_guards_smooth:
  "\<forall>f \<in> set fs. smooth f \<Longrightarrow> drop_guards (map Some fs) fl s = (fold (\<lambda>f s. fst (f s)) fs s, fl)"
  by (induction fs arbitrary: s) (auto simp: Guard_drop_def smooth_def split_beta Let_def)

lemma drop_guards_append:
  "\<forall>f \<in> set fs. smooth f \<Longrightarrow>
   drop_guards (map Some fs @ gs) fl s = drop_guards gs fl (fold (\<lambda>f s. fst (f s)) fs s)"
  by (induction fs arbitrary: s) (auto simp: Guard_drop_def smooth_def split_beta Let_def)

lemma run_scope_body:
  "run_scope ss gs s =
    (case run_body ss s of (s', fs, e) \<Rightarrow> drop_guards (map Some (rev fs) @ gs) (flow_of e) s')"
proof (induction ss arbitrary: gs s)
  case (Cons x ss)
  then show ?case
    by (cases x) (auto simp: split_beta Let_def defer_macro_Some flow_of_def split: ending.splits)
qed (simp add: flow_of_def)






text \<open>
  One panic in deferred code keeps none of the others from running: after statements
  that do not panic, if exactly one piece of it panics, those declared before it still run, and the
  scope ends by unwinding.
\<close>

theorem deferred_panic_runs_rest:
  assumes "run_body ss s = (s', fs @ f # hs, e)" and "e \<noteq> Panics" and "\<forall>g \<in> set fs. smooth g"
    and "\<forall>h \<in> set hs. smooth h" and "snd (f (fold (\<lambda>h x. fst (h x)) (rev hs) s'))"
  shows "run_scope ss [] s =
    (fold (\<lambda>g x. fst (g x)) (rev (fs @ f # hs)) s', Unwinding)"
proof -
  have hs: "\<forall>h \<in> set (rev hs). smooth h" and fs: "\<forall>g \<in> set (rev fs). smooth g"
    using assms(3,4) by simp_all
  let ?x = "fold (\<lambda>h x. fst (h x)) (rev hs) s'"
  have "run_scope ss [] s = drop_guards (map Some (rev hs) @ Some f # map Some (rev fs)) Normal s'"
    using assms(1,2) by (simp add: run_scope_body flow_of_def)
  also have "\<dots> = drop_guards (Some f # map Some (rev fs)) Normal ?x"
    by (rule drop_guards_append [OF hs])
  also have "\<dots> = drop_guards (map Some (rev fs)) Unwinding (fst (f ?x))"
    using assms(5) by (simp add: Guard_drop_def split_beta Let_def)
  finally show ?thesis using drop_guards_smooth [OF fs] by simp
qed

text \<open>
  A guard runs its closure at most once: dropping it again does nothing.
\<close>

theorem guard_runs_once:
  "Guard_drop (fst (Guard_drop g s)) s' = (None, s', False)"
  by (cases g) (simp_all add: Guard_drop_def)

section \<open>Instances\<close>

text \<open>Code that logs a number; code that logs a number and panics.\<close>

definition logs :: "nat \<Rightarrow> nat list code" where
  "logs n s = (s @ [n], False)"

definition fails :: "nat \<Rightarrow> nat list code" where
  "fails n s = (s @ [n], True)"

lemma smooth_logs: "smooth (logs n)"
  by (simp add: smooth_def logs_def)



theorem deferred_panic_runs_rest_witness:
  "run_scope [Defer (Block (logs 1)), Defer (Closure (fails 2)), Defer (Block (logs 3))] [] [] =
    ([3, 2, 1], Unwinding)"
  using deferred_panic_runs_rest [of "[Defer (Block (logs 1)), Defer (Closure (fails 2)),
      Defer (Block (logs 3))]" "[]" "[]" "[logs 1]" "fails 2" "[logs 3]" Goes_on] smooth_logs
  by (simp add: logs_def fails_def)

end
