(* ===== verification/Errors.thy ===== *)
theory Errors
  imports Prelude
begin

text \<open>
  \<open>errors\<close> (\<open>src/src/errors/mod.rs\<close>): an error that is a text, and the conversions into it.
  The text that another type's \<open>Display\<close> writes is an argument, and so is \<open>Debug\<close> of strings.
\<close>

section \<open>The error type\<close>

record error =
  inner :: string

definition Error_error :: "error \<Rightarrow> string" where
  "Error_error e = inner e"

definition Error_to_string :: "error \<Rightarrow> string" where
  "Error_to_string e = inner e"

text \<open>\<open>new\<close>; the macro \<open>err!\<close> formats its arguments (\<open>text\<close> is what \<open>format!\<close> gives).\<close>

definition errors_new :: "string \<Rightarrow> error" where
  "errors_new txt = \<lparr>inner = txt\<rparr>"

definition err_macro :: "string \<Rightarrow> error" where
  "err_macro txt = \<lparr>inner = txt\<rparr>"

definition Error_fmt_display :: "error \<Rightarrow> string" where
  "Error_fmt_display e = inner e"

definition Error_fmt_debug :: "(string \<Rightarrow> string) \<Rightarrow> error \<Rightarrow> string" where
  "Error_fmt_debug dbg e = dbg (inner e)"

text \<open>\<open>warp\<close>: \<open>format!("{}{}", info, e)\<close>.\<close>

definition Error_warp :: "('e \<Rightarrow> string) \<Rightarrow> 'e \<Rightarrow> string \<Rightarrow> error" where
  "Error_warp display e info = \<lparr>inner = info @ display e\<rparr>"

section \<open>Conversions\<close>

text \<open>\<open>std::io::Error\<close>: its kind (the code distinguishes one of them), and the text it displays.\<close>

datatype io_error_kind = UnexpectedEof | OtherKind string

record io_error =
  kind :: io_error_kind
  message :: string

definition Error_from_io :: "io_error \<Rightarrow> error" where
  "Error_from_io err =
     (if kind err = UnexpectedEof then err_macro ''Eof''
      else if kind err = UnexpectedEof then err_macro ''UnexpectedEof''
      else errors_new (message err))"

definition Error_from_str :: "string \<Rightarrow> error" where
  "Error_from_str arg = errors_new arg"

definition Error_from_String :: "string \<Rightarrow> error" where
  "Error_from_String arg = errors_new arg"

text \<open>From \<open>&dyn Error\<close>, \<open>Box<dyn Error>\<close> and \<open>&Box<dyn Error>\<close>: what it displays.\<close>

definition Error_from_dyn :: "('e \<Rightarrow> string) \<Rightarrow> 'e \<Rightarrow> error" where
  "Error_from_dyn display arg = errors_new (display arg)"

definition Error_from_box :: "('e \<Rightarrow> string) \<Rightarrow> 'e \<Rightarrow> error" where
  "Error_from_box display arg = errors_new (display arg)"

definition Error_from_box_ref :: "('e \<Rightarrow> string) \<Rightarrow> 'e \<Rightarrow> error" where
  "Error_from_box_ref display arg = errors_new (display arg)"

text \<open>The errors of \<open>std::sync::mpsc\<close>, with the texts that the standard library displays.\<close>

definition Error_from_RecvError :: error where
  "Error_from_RecvError = errors_new ''receiving on a closed channel''"

definition Error_from_SendError :: "'t \<Rightarrow> error" where
  "Error_from_SendError e = errors_new ''sending on a closed channel''"

section \<open>Correctness\<close>

text \<open>
  Wrapping an error again and again keeps everything: after the contexts \<open>infos\<close>,
  the innermost first, the text is the contexts, the outermost first, and then the text of the
  first error; every way of reading the error gives this text.
\<close>

theorem warp_prepends_contexts:
  "Error_to_string (fold (\<lambda>info e. Error_warp Error_fmt_display e info) infos e) =
    concat (rev infos) @ Error_to_string e \<and>
   Error_error (fold (\<lambda>info e. Error_warp Error_fmt_display e info) infos e) =
    Error_fmt_display (fold (\<lambda>info e. Error_warp Error_fmt_display e info) infos e)"
  by (induction infos arbitrary: e)
    (simp_all add: Error_warp_def Error_fmt_display_def Error_to_string_def Error_error_def)

text \<open>
  An \<open>io::Error\<close> becomes \<open>Eof\<close> when the input ended too early, and its own message
  otherwise; no \<open>io::Error\<close> of any kind is given the text \<open>UnexpectedEof\<close> by the second test.
\<close>

theorem io_error_text:
  "Error_to_string (Error_from_io err) =
    (case kind err of UnexpectedEof \<Rightarrow> ''Eof'' | _ \<Rightarrow> message err)"
  by (cases "kind err")
    (simp_all add: Error_to_string_def Error_from_io_def err_macro_def errors_new_def)

end
