(* ===== verification/Spec2Isabelle.thy ===== *)
theory Spec2Isabelle
  imports Rw_Spin Rw_Reentrant Rw_Race_Free Heap_Containers Guards Many_Containers Vec_Items Sync_Hash_Map Sync_Btree_Map Sync_Index_Map
    Wait_Group Atomic_Duration Defer_Guard Errors
begin

text \<open>
  A model of the crate \<open>dark-std\<close> (\<open>src/src\<close>): containers that threads share, a wait group, an
  atomic duration, a defer guard and an error type.

  \<^bold>\<open>The program.\<close>  \<open>SyncVec\<close>, \<open>SyncHashMap\<close>, \<open>SyncBtreeMap\<close> and \<open>SyncIndexMap\<close> (\<open>sync/vec.rs\<close>,
  \<open>sync/map_hash.rs\<close>, \<open>sync/map_btree.rs\<close>, \<open>sync/map_index.rs\<close>) are a standard container in an
  \<open>UnsafeCell\<close> behind one and the same reader/writer protocol.  A reader adds one to its own
  thread's counter in the container's registry, checks the flag \<open>writing\<close>, and takes the one
  back and tries again while the flag is up (\<open>begin_read\<close>).  A writer takes a mutex, raises the
  flag, and scans the registry until all counters are zero (\<open>begin_write\<close>).  The counters are
  found through a table per thread (\<open>reader_count_for\<close> in \<open>sync/mod.rs\<close>), where the guard types
  are as well.  \<open>WaitGroup\<close> (\<open>sync/wg.rs\<close>) counts its clones and waits for a message of each;
  \<open>AtomicDuration\<close> (\<open>sync/duration.rs\<close>) keeps milliseconds in one word; \<open>defer!\<close>
  (\<open>defer/mod.rs\<close>) runs code at the end of a scope; \<open>Error\<close> (\<open>errors/mod.rs\<close>) is a string.

  \<^bold>\<open>The protocol.\<close>
  \<^item> \<open>Prelude\<close>: machine integers, outcomes, the interface of \<open>parking_lot::Mutex\<close> (a parameter
    \<open>M\<close> with the documented laws \<open>mutex_laws\<close>; \<open>owner_mutex\<close> has them).
  \<^item> \<open>Rw_Lock\<close>: the record \<open>container\<close> has the fields of the four structs; \<open>sys\<close> adds the state
    of the threads (a program counter per thread, the live guards, the lost slots) and the
    history of accesses.  A method that takes \<open>&self\<close> is a \<open>call\<close>: a body that reads under a slot
    (\<open>ReadCall\<close>), one that writes under the lock (\<open>WriteCall\<close>), or one that does neither
    (\<open>UnguardedCall\<close>).  Every atomic operation of \<open>begin_read\<close>, \<open>begin_write\<close>, the release and
    the drops is one action (\<open>begin_read_step\<close>, \<open>begin_write_step\<close>, ...); an access to the
    contents is two, so that accesses can overlap.  \<open>perform\<close> executes an action, \<open>rw_step\<close> is the
    step relation, and the two agree.
  \<^item> \<open>Rw_Invariant\<close>: the invariant (owners of the two mutexes, meaning of the flag and of the
    counters, exclusion, progress of a scan, freshness of snapshots), one preservation lemma for
    each part, and \<open>reach\<close>, the states of a container that any number of threads use.
  \<^item> \<open>Rw_Safety\<close>: mutual exclusion, stability of the contents under a guard, linearizability, refinement
    of an abstract lock, and the ways to wait for ever.
  \<^item> \<open>Rw_Solo\<close>, \<open>Rw_Instances\<close>: schedules; a call that nobody hinders returns.  The locale
    \<open>lock_service\<close> is what the clients of the lock use, and the protocol is its interpretation.
  \<^item> \<open>Rw_History\<close>: each call has exactly one access in the history, between its start and its
    return, and returns what its body gives there.
  \<^item> \<open>Rw_Progress\<close>, \<open>Rw_Spin\<close>: without guards, the calls in progress can all return, from any
    state; but a fair scheduler alone does not make them.
  \<^item> \<open>Rw_Reentrant\<close>: calls that a thread makes out of the body of a call of its own, with a stack of
    interrupted calls per thread; without the stack (an interrupted body is as good as a guard) the
    invariant of \<open>Rw_Lock\<close> holds, and such calls wait for ever.
  \<^item> \<open>Rw_Stale\<close>: scans that see the \<open>Release\<close> decrement of a counter late; safety holds with them.
  \<^item> \<open>Rw_Happens\<close>, \<open>Rw_Race_Free\<close>: happens-before.  Threads and atomic locations carry the set of
    accesses that happened before; each atomic operation acquires and releases with the ordering
    that it has in the source; conflicting accesses under a slot, a guard or the lock are always
    ordered, and those of \<open>Index::index\<close> and \<open>get_uncheck\<close> are not.
  \<^item> \<open>Guards\<close>: \<open>ReadGuard\<close>, \<open>ReadMapGuard\<close>, \<open>WriteGuard\<close>; a reference is a place in the contents.
  \<^item> \<open>Reader_Slots\<close>: \<open>CONTAINER_ID\<close>, the thread-local tables and \<open>reader_count_for\<close> on pointers,
    with creation and destruction of containers and the end of threads.
  \<^item> \<open>Rw_Heap\<close>, \<open>Rw_Heap_Refines\<close>, \<open>Rw_Heap_Reach\<close>: both together, the protocol on pointers to
    counters, in programs that create and drop containers.  The view of a container (positions
    for pointers) takes the steps of \<open>Rw_Lock\<close>, so that the theorems of \<open>Rw_Lock\<close> hold there.

  \<^bold>\<open>The containers.\<close>
  \<^item> \<open>Sync_Vec\<close>: the contents are a list, an index a 64-bit word.
  \<^item> \<open>Vec_Items\<close>: threads that own iterators of a vector and the items these have given.  The
    parameter \<open>bound\<close> tells the lifetimes of the source from those that would tie an item to its
    iterator: with the latter items never dangle or alias, with the former they can.
  \<^item> \<open>Map_Contract\<close>: the locales \<open>sync_map\<close> (the methods of a map against a partial function),
    \<open>shared_map\<close> (a map behind the lock service) and \<open>guarded_map\<close> (with \<open>get_mut\<close> and stores
    through its guard), each interpreted on each of the three maps.
  \<^item> \<open>Sync_Hash_Map\<close> (a finite map, its order of iteration a parameter), \<open>Sync_Btree_Map\<close> (an
    ascending list of entries), \<open>Sync_Index_Map\<close> (\<open>indexmap\<close> is a parameter \<open>I\<close> with the documented
    laws \<open>index_laws\<close>; \<open>entry_list\<close> has them).  User code of the key or element type that can
    panic is an argument (\<open>kp\<close>, \<open>eq\<close>, \<open>dr\<close>; \<open>ser\<close>, \<open>fmt\<close>, \<open>cl\<close> in the traits).  A panic under the raw
    counter of \<open>begin_read\<close> loses the slot (\<open>ReadPanic\<close>); under a guard or the write lock it
    unwinds and releases (\<open>Unwound\<close>, \<open>WritePanic\<close>).
  \<^item> \<open>Many_Containers\<close>: a program with several containers; each behaves as it does on its own.
  \<^item> \<open>Heap_Containers\<close>: the maps in a program on the heap (\<open>Rw_Heap\<close>), from the pointers of the
    reader slots to the partial function.

  \<^bold>\<open>The rest.\<close>
  \<^item> \<open>Wait_Group\<close>: threads that run \<open>new\<close>, \<open>clone\<close>, \<open>add\<close>, \<open>wait\<close>, \<open>wait_async\<close> and \<open>drop\<close> in atomic
    actions; the \<open>flume\<close> channel is a parameter with its documented laws.
  \<^item> \<open>Atomic_Duration\<close>: \<open>usize\<close> of any width; \<open>Defer_Guard\<close>: scopes with deferred code, early exits and panics;
    \<open>Errors\<close>: the error type and its conversions.

  \<^bold>\<open>What the properties show.\<close>  Safety and functional correctness of every interleaving (C1 to C19),
  of the slot tables, the wait group and the methods; and where the program fails: \<open>Index::index\<close> and
  \<open>get_uncheck\<close> take no part in the exclusion (\<open>may_read\<close>, \<open>heap_may_read\<close> and the numbered accesses
  of \<open>Rw_Happens\<close> are those under a slot, a guard or the lock) and can overlap a writer, items of
  iterators outlive their slot or lock, nested and crossed reads can spin for ever, a call from
  inside a call never returns, a panic under a reading method freezes the container, clones of a wait group can be lost, identifiers and
  durations wrap around.

  \<^bold>\<open>Bounds.\<close>  Counters are 64-bit and wrap; the theorems ask of each state that no counter is
  pinned \<open>2 ^ 64 - 1\<close> times (\<open>has_room\<close>), which no program reaches.  \<open>reader_count_for\<close> is
  proved for the first \<open>2 ^ 64\<close> containers, and wrong after them.  The fuel of \<open>exec\<close> is
  \<open>length registry + 9\<close>: one action per counter in a scan and at most nine besides, which
  \<open>call_terminates\<close> shows to be enough.

  \<^bold>\<open>Not modelled.\<close>  The reorderings of a weak memory model beyond \<open>Rw_Stale\<close>: actions
  interleave, which is what the memory model gives for \<open>SeqCst\<close> operations and accesses without
  races (\<open>Rw_Race_Free\<close>); the \<open>Relaxed\<close> load of \<open>total\<close> in \<open>WaitGroup::wait\<close> reads the present
  value.  The panic of \<open>SLOTS.with\<close> when a destructor of another thread-local variable reads a
  container after the table of the thread is gone.  Iterators and items that are moved to other
  threads or forgotten in \<open>Vec_Items\<close> (\<open>Rw_Lock\<close> has these for guards).  Capacity, allocation failure and the abort on overflow of a
  capacity.  Destructors of the keys and values that the maps drop (those of the elements of
  \<open>SyncVec\<close> may panic: \<open>dr\<close>), and the end of the process when a destructor panics while another
  panic unwinds.  In \<open>Rw_Lock\<close> the number of a
  thread that has ended is not given to another one (\<open>Reader_Slots\<close> models the end of a thread and
  the loss of its table).  The formatting and serialisation code of the
  element types, which are arguments.  \<open>lib.rs\<close> only declares modules.
\<close>

end
